(* ===== verification/Prelude.thy ===== *)
theory Prelude
  imports Main "HOL-Library.Word" "HOL-Library.List_Lexorder" "HOL-Library.Sublist"
    "HOL-Library.Multiset"
begin

unbundle bit_operations_syntax

text \<open>
  Shared vocabulary of the development: the machine integers of the Rust sources as words, byte
  strings with their lexicographic order, the results of fallible functions, the little-endian
  conversions of the standard library, and the generic lemmas on lists and words the components
  use.
\<close>

section \<open>Types\<close>

type_synonym u8 = "8 word"
type_synonym u16 = "16 word"
type_synonym u32 = "32 word"
type_synonym u64 = "64 word"

text \<open>
  An \<open>i64\<close> is a 64-bit word read with \<open>sint\<close> and compared with \<open><s\<close> and \<open>\<le>s\<close>; Rust's
  \<open>as\<close> casts between \<open>u64\<close> and \<open>i64\<close> reinterpret the bits and are the identity here.
\<close>

type_synonym i64 = "64 word"
type_synonym i32 = "32 word"
type_synonym bytes = "u8 list"

named_theorems codec_simps \<open>encoding and decoding equations of the byte formats\<close>
named_theorems store_simps \<open>field equations of the store operations\<close>

section \<open>Little-endian conversions\<close>

definition to_le_bytes :: "nat \<Rightarrow> 'a::len word \<Rightarrow> bytes" where
  "to_le_bytes n w = map (\<lambda>i. ucast (drop_bit (8 * i) w)) [0..<n]"

fun from_le_bytes :: "bytes \<Rightarrow> 'a::len word" where
  "from_le_bytes [] = 0"
| "from_le_bytes (b # bs) = ucast b OR push_bit 8 (from_le_bytes bs)"

lemma length_to_le_bytes [simp]: "length (to_le_bytes n w) = n"
  by (simp add: to_le_bytes_def)

lemma bit_from_le_bytes:
  "bit (from_le_bytes bs :: 'a::len word) k \<longleftrightarrow>
     k < LENGTH('a) \<and> k div 8 < length bs \<and> bit (bs ! (k div 8)) (k mod 8)"
proof (induction bs arbitrary: k)
  case Nil
  then show ?case by simp
next
  case (Cons b bs)
  show ?case
  proof (cases "k < 8")
    case True
    then show ?thesis by (auto simp: bit_simps)
  next
    case False
    then have d: "k div 8 = Suc ((k - 8) div 8)" and m: "k mod 8 = (k - 8) mod 8"
      by (simp_all add: le_div_geq le_mod_geq)
    have "\<not> bit b k" using False bit_imp_le_length [of b k] by auto
    with False show ?thesis
      by (auto simp: bit_simps Cons.IH d m)
  qed
qed

declare from_le_bytes.simps [simp del]

lemma from_le_to_le_bytes [codec_simps]:
  "LENGTH('a) = 8 * n \<Longrightarrow> from_le_bytes (to_le_bytes n w) = (w :: 'a::len word)"
  by (rule bit_word_eqI) (auto simp: bit_from_le_bytes to_le_bytes_def bit_simps)

lemma to_le_from_le_bytes [codec_simps]:
  assumes "length bs = n" and "LENGTH('a) = 8 * n"
  shows "to_le_bytes n (from_le_bytes bs :: 'a::len word) = bs"
proof (rule nth_equalityI)
  show "length (to_le_bytes n (from_le_bytes bs :: 'a word)) = length bs" using assms by simp
next
  fix i assume "i < length (to_le_bytes n (from_le_bytes bs :: 'a word))"
  then have i: "i < n" by simp
  show "to_le_bytes n (from_le_bytes bs :: 'a word) ! i = bs ! i"
  proof (rule bit_word_eqI)
    fix k assume "k < LENGTH(8)"
    then have k: "k < 8" by simp
    then have "(8 * i + k) div 8 = i" and "(8 * i + k) mod 8 = k" by simp_all
    moreover have "8 * i + k < 8 * n" using i k by linarith
    ultimately show "bit (to_le_bytes n (from_le_bytes bs :: 'a word) ! i) k = bit (bs ! i) k"
      using i k assms
      by (simp add: to_le_bytes_def bit_ucast_iff bit_drop_bit_eq bit_from_le_bytes)
  qed
qed

section \<open>Words\<close>

lemma not_bit_small:
  fixes v :: "'a::len word"
  assumes "unat v < 2 ^ m" and "m \<le> n"
  shows "\<not> bit v n"
proof
  assume "bit v n"
  then have "bit (unat v) n" by (simp add: bit_unsigned_iff)
  moreover have "take_bit m (unat v) = unat v"
    using assms(1) by (simp add: take_bit_nat_eq_self)
  ultimately have "n < m" by (metis bit_take_bit_iff)
  with assms(2) show False by simp
qed

lemma unat_of_nat_le: "unat (word_of_nat n :: 'a::len word) \<le> n"
  by (simp add: unsigned_of_nat)

lemma unat_of_nat_small: "n < 2 ^ LENGTH('a) \<Longrightarrow> unat (word_of_nat n :: 'a::len word) = n"
  by (simp add: unsigned_of_nat take_bit_nat_eq_self)

lemma unat_succ: "(w :: 'a::len word) \<noteq> - 1 \<Longrightarrow> unat (w + 1) = Suc (unat w)"
  using unatSuc [of w] by (metis add.commute add_eq_0_iff)

lemma word_less_succ: "(w :: 'a::len word) \<noteq> - 1 \<Longrightarrow> w < w + 1"
  by (simp add: word_less_nat_alt unat_succ)

lemma word_le_less_succ: "(w :: 'a::len word) \<noteq> - 1 \<Longrightarrow> x \<le> w \<longleftrightarrow> x < w + 1"
  by (simp add: word_less_nat_alt word_le_nat_alt unat_succ less_Suc_eq_le)

text \<open>Signed readings of 64-bit words.\<close>

lemma unat_max: "unat (- 1 :: u64) = 2 ^ 64 - 1"
  by (simp add: unsigned_minus_1_eq_mask mask_eq_exp_minus_1)

lemma sint_of_small: "- (2 ^ 63) \<le> k \<Longrightarrow> k < 2 ^ 63 \<Longrightarrow> sint (word_of_int k :: i64) = k"
  by (simp add: sint_sbintrunc' signed_take_bit_int_eq_self)

lemma unat_sint_nonneg: "0 \<le> sint (w :: i64) \<Longrightarrow> unat w = nat (sint w)"
  using sint_lt [of w] by (simp add: uint_sint take_bit_int_eq_self flip: nat_uint_eq)

end
