(* ===== verification/Key_Range.thy ===== *)
theory Key_Range
  imports Prelude
begin

text \<open>
  Key ranges: the translation of a request's \<open>key\<close> and \<open>range_end\<close> into a bound
  (\<^verbatim>\<open>src/storage/mod.rs\<close>), and the write intervals of transactions
  (\<^verbatim>\<open>src/storage/store.rs\<close>).  Keys are byte strings in the lexicographic order of Rust slices.  The
  lemmas relate the five kinds of bound to plain half-open intervals and show that the overlap
  test is exact.
\<close>

section \<open>Bounds\<close>

datatype range_bound = All | Point bytes | From bytes | Prefix bytes | Range bytes bytes

text \<open>The condition order of the source is kept, the unreachable repetition of the test for
  \<open>All\<close> included. \<open>range_end[..len-1]\<close> is \<open>butlast\<close>, \<open>range_end[len-1]\<close> is \<open>last\<close>; both lists
  are non-empty where they are used.\<close>

definition resolve_range :: "bytes \<Rightarrow> bytes \<Rightarrow> range_bound" where
  "resolve_range key range_end =
     (if range_end = [] then Point key
      else if length range_end = 1 \<and> range_end ! 0 = 0
      then (if key = [] then All else From key)
      else if key = [] \<and> length range_end = 1 \<and> range_end ! 0 = 0 then All
      else if length range_end = length key \<and> range_end \<noteq> []
              \<and> butlast range_end = butlast key \<and> last range_end = last key + 1
              \<and> last key \<noteq> 0xFF
      then Prefix key
      else if length range_end = length key + 1 \<and> take (length key) range_end = key
              \<and> range_end ! length key = 0
      then Prefix key
      else Range key range_end)"

fun matches_range :: "range_bound \<Rightarrow> bytes \<Rightarrow> bool" where
  "matches_range All key = True"
| "matches_range (Point k) key = (key = k)"
| "matches_range (From k) key = (key \<ge> k)"
| "matches_range (Prefix p) key = prefix p key"
| "matches_range (Range start end') key = (key \<ge> start \<and> key < end')"

fun btree_bounds :: "range_bound \<Rightarrow> bytes option \<times> bytes option" where
  "btree_bounds All = (None, None)"
| "btree_bounds (Point k) = (Some k, Some (k @ [0]))"
| "btree_bounds (From k) = (Some k, None)"
| "btree_bounds (Prefix p) = (Some p, None)"
| "btree_bounds (Range start end') = (Some start, Some end')"

section \<open>Write intervals\<close>

type_synonym interval = "bytes \<times> bytes option"

definition point_interval :: "bytes \<Rightarrow> interval" where
  "point_interval key = (key, Some (key @ [0]))"

text \<open>\<open>prefix_end\<close> works on the last byte: drop it while it is \<open>0xff\<close>, else increment it. The
  model recurses on the reversed string.\<close>

fun prefix_end_rev :: "bytes \<Rightarrow> bytes option" where
  "prefix_end_rev [] = None"
| "prefix_end_rev (b # bs) = (if b = 0xff then prefix_end_rev bs else Some (rev ((b + 1) # bs)))"

definition prefix_end :: "bytes \<Rightarrow> bytes option" where
  "prefix_end p = prefix_end_rev (rev p)"

fun bound_interval :: "range_bound \<Rightarrow> interval" where
  "bound_interval All = ([], None)"
| "bound_interval (Point k) = point_interval k"
| "bound_interval (Prefix p) = (p, prefix_end p)"
| "bound_interval (From k) = (k, None)"
| "bound_interval (Range s e) = (s, Some e)"

definition starts_before_end :: "bytes \<Rightarrow> bytes option \<Rightarrow> bool" where
  "starts_before_end start end' = (case end' of Some e \<Rightarrow> start < e | None \<Rightarrow> True)"

definition intervals_overlap :: "interval \<Rightarrow> interval \<Rightarrow> bool" where
  "intervals_overlap a b =
     (if (case snd a of Some e \<Rightarrow> fst a \<ge> e | None \<Rightarrow> False) then False
      else if (case snd b of Some e \<Rightarrow> fst b \<ge> e | None \<Rightarrow> False) then False
      else starts_before_end (fst a) (snd b) \<and> starts_before_end (fst b) (snd a))"

section \<open>Lemmas\<close>

definition in_interval :: "interval \<Rightarrow> bytes \<Rightarrow> bool" where
  "in_interval i k \<longleftrightarrow> fst i \<le> k \<and> (case snd i of Some e \<Rightarrow> k < e | None \<Rightarrow> True)"

lemma intervals_overlap_exact:
  "intervals_overlap a b \<longleftrightarrow> (\<exists>k. in_interval a k \<and> in_interval b k)"
proof -
  have "in_interval a (max (fst a) (fst b)) \<and> in_interval b (max (fst a) (fst b))"
    if "intervals_overlap a b"
    using that
    by (auto simp: intervals_overlap_def in_interval_def starts_before_end_def max_def
        split: option.splits if_splits)
  moreover have "intervals_overlap a b" if "in_interval a k" "in_interval b k" for k
    using that
    by (auto simp: intervals_overlap_def in_interval_def starts_before_end_def
        split: option.splits if_splits)
  ultimately show ?thesis by blast
qed

lemma less_snoc_zero: "(k :: bytes) < p @ [0] \<longleftrightarrow> k \<le> p"
proof (induction p arbitrary: k)
  case Nil
  then show ?case by (cases k) auto
next
  case (Cons b p)
  then show ?case by (cases k) auto
qed

lemma prefix_imp_le: "prefix p k \<Longrightarrow> (p :: bytes) \<le> k"
proof (induction p arbitrary: k)
  case (Cons b p)
  then show ?case by (cases k) auto
qed simp

lemma byte_max: "(0xff :: u8) = - 1" "x \<le> (0xff :: u8)"
proof -
  show "(0xff :: u8) = - 1" by (simp add: word_eq_iff_unsigned)
  then show "x \<le> (0xff :: u8)" by (simp only: word_n1_ge)
qed

text \<open>A string carries the prefix \<open>p @ [b]\<close> exactly when it lies between it and \<open>p @ [b + 1]\<close>.\<close>

lemma prefix_snoc_interval:
  assumes "b \<noteq> (0xff :: u8)"
  shows "prefix (p @ [b]) k \<longleftrightarrow> p @ [b] \<le> k \<and> k < p @ [b + 1]"
proof -
  have "b \<noteq> - 1" using assms unfolding byte_max(1) .
  then have b: "x < b + 1 \<longleftrightarrow> x \<le> b" for x using word_le_less_succ [of b x] by simp
  show ?thesis
  proof (induction p arbitrary: k)
    case Nil
    show ?case
    proof (cases k)
      case (Cons x xs)
      show ?thesis using b [of x] by (auto simp: Cons)
    qed simp
  next
    case (Cons c p)
    note IH = Cons.IH
    show ?case
    proof (cases k)
      case (Cons x xs)
      show ?thesis using IH [of xs] by (auto simp: Cons)
    qed simp
  qed
qed

lemma prefix_end_rev_interval:
  "prefix (rev r) k \<longleftrightarrow> rev r \<le> k \<and> (case prefix_end_rev r of Some e \<Rightarrow> k < e | None \<Rightarrow> True)"
proof (induction r)
  case Nil
  then show ?case by simp
next
  case (Cons b r)
  show ?case
  proof (cases "b = 0xff")
    case False
    then show ?thesis using prefix_snoc_interval [of b "rev r" k] by simp
  next
    case True
    have "prefix (p @ [0xff]) k \<longleftrightarrow> p @ [0xff] \<le> k \<and> prefix p k" for p :: bytes
    proof (induction p arbitrary: k)
      case Nil
      show ?case
      proof (cases k)
        case (Cons x xs)
        have "x \<le> 0xff" by (rule byte_max(2))
        with Cons show ?thesis by auto
      qed simp
    next
      case (Cons c p)
      then show ?case by (cases k) auto
    qed
    moreover have "rev r @ [b] \<le> k \<Longrightarrow> rev r \<le> k"
      using prefix_imp_le [of "rev r" "rev r @ [b]"] by (simp add: order_trans)
    ultimately show ?thesis using True Cons.IH by auto
  qed
qed

lemma matches_range_interval: "matches_range bnd k \<longleftrightarrow> in_interval (bound_interval bnd) k"
  by (cases bnd)
    (auto simp: in_interval_def point_interval_def less_snoc_zero prefix_end_def
      prefix_end_rev_interval [of "rev p" for p, simplified])

text \<open>The range a request denotes: \<open>[key, range_end)\<close>, with the two special spellings of the etcd
  protocol and the additional prefix spelling of this server.\<close>

lemma resolve_range_matches:
  "matches_range (resolve_range key range_end) k \<longleftrightarrow>
     (if range_end = [] then k = key
      else if range_end = [0] then key \<le> k
      else if range_end = key @ [0] then prefix key k
      else key \<le> k \<and> k < range_end)"
proof -
  have zero: "length range_end = 1 \<and> range_end ! 0 = 0 \<longleftrightarrow> range_end = [0]"
    by (cases range_end) auto
  have alt: "length range_end = length key + 1 \<and> take (length key) range_end = key
      \<and> range_end ! length key = 0 \<longleftrightarrow> range_end = key @ [0]"
  proof
    assume a: "length range_end = length key + 1 \<and> take (length key) range_end = key
      \<and> range_end ! length key = 0"
    then have "range_end = take (length key) range_end @ [range_end ! length key]"
      by (metis le_refl less_add_one take_Suc_conv_app_nth take_all Suc_eq_plus1)
    with a show "range_end = key @ [0]" by simp
  qed simp
  have succ: "prefix key k \<longleftrightarrow> key \<le> k \<and> k < range_end"
    if "length range_end = length key" "range_end \<noteq> []" "butlast range_end = butlast key"
      "last range_end = last key + 1" "last key \<noteq> 0xFF"
  proof -
    have "key = butlast key @ [last key]" using that by (metis append_butlast_last_id length_0_conv)
    moreover have "range_end = butlast key @ [last key + 1]"
      using that by (metis append_butlast_last_id)
    ultimately show ?thesis using prefix_snoc_interval [OF that(5), of "butlast key" k] by simp
  qed
  show ?thesis unfolding resolve_range_def zero alt using succ by auto
qed

text \<open>C30. What a request's \<open>key\<close> and \<open>range_end\<close> select: the key itself without an end; every key from \<open>key\<close> on for
  an end of one zero byte; the keys with the prefix \<open>key\<close> when the end is \<open>key\<close> with a zero byte appended (where
  the protocol has the one key); and the
  half-open interval in every other case, including the prefix spelling with the last byte incremented.  In each case the bound is the
  interval that the transaction check uses for it.\<close>

theorem resolve_range_meaning:
  "(matches_range (resolve_range key range_end) k \<longleftrightarrow>
     (if range_end = [] then k = key
      else if range_end = [0] then key \<le> k
      else if range_end = key @ [0] then prefix key k
      else key \<le> k \<and> k < range_end))
   \<and> (matches_range (resolve_range key range_end) k \<longleftrightarrow> in_interval (bound_interval (resolve_range key range_end)) k)"
  using resolve_range_matches matches_range_interval by blast

end
