(* ===== verification/Btree.thy ===== *)
theory Btree
  imports Key_Range
begin

text \<open>
  The standard library's \<open>BTreeMap\<close> as the store uses it: a finite map iterated in ascending key
  order.  The model is the list of entries in iteration order; \<open>range\<close> panics when the start of a
  range lies after its end, as the library documents.  The interface \<open>ordered_map\<close> states what
  the store relies on, and the facts derived from it are proved once and used through the
  interpretation \<open>bt\<close>.
\<close>

section \<open>The map and its operations\<close>

type_synonym ('k, 'v) btree = "('k \<times> 'v) list"

definition bt_ok :: "('k::linorder, 'v) btree \<Rightarrow> bool" where
  "bt_ok m \<longleftrightarrow> sorted_wrt (<) (map fst m)"

definition bt_get :: "('k, 'v) btree \<Rightarrow> 'k \<Rightarrow> 'v option" where
  "bt_get m k = map_of m k"

fun bt_insert :: "'k::linorder \<Rightarrow> 'v \<Rightarrow> ('k, 'v) btree \<Rightarrow> ('k, 'v) btree" where
  "bt_insert k v [] = [(k, v)]"
| "bt_insert k v ((k', v') # m) =
     (if k < k' then (k, v) # (k', v') # m
      else if k = k' then (k, v) # m
      else (k', v') # bt_insert k v m)"

definition bt_remove :: "'k \<Rightarrow> ('k, 'v) btree \<Rightarrow> ('k, 'v) btree" where
  "bt_remove k m = filter (\<lambda>e. fst e \<noteq> k) m"

definition bt_iter :: "('k, 'v) btree \<Rightarrow> ('k \<times> 'v) list" where
  "bt_iter m = m"

text \<open>\<open>range\<close> over an optional inclusive start and an optional exclusive end; \<open>None\<close> is the
  panic.\<close>

definition bt_range ::
    "'k::linorder option \<Rightarrow> 'k option \<Rightarrow> ('k, 'v) btree \<Rightarrow> ('k \<times> 'v) list option" where
  "bt_range lo hi m =
     (case (lo, hi) of
        (Some s, Some e) \<Rightarrow>
          if s > e then None else Some (filter (\<lambda>x. s \<le> fst x \<and> fst x < e) m)
      | (Some s, None) \<Rightarrow> Some (filter (\<lambda>x. s \<le> fst x) m)
      | (None, Some e) \<Rightarrow> Some (filter (\<lambda>x. fst x < e) m)
      | (None, None) \<Rightarrow> Some m)"

section \<open>The interface\<close>

locale ordered_map =
  fixes empty :: "'m"
    and get :: "'m \<Rightarrow> 'k::linorder \<Rightarrow> 'v option"
    and insert :: "'k \<Rightarrow> 'v \<Rightarrow> 'm \<Rightarrow> 'm"
    and remove :: "'k \<Rightarrow> 'm \<Rightarrow> 'm"
    and iter :: "'m \<Rightarrow> ('k \<times> 'v) list"
    and ok :: "'m \<Rightarrow> bool"
  assumes ok_empty: "ok empty"
    and iter_empty: "iter empty = []"
    and ok_insert: "ok m \<Longrightarrow> ok (insert k v m)"
    and ok_remove: "ok m \<Longrightarrow> ok (remove k m)"
    and get_insert: "ok m \<Longrightarrow> get (insert k v m) k' = (if k' = k then Some v else get m k')"
    and get_remove: "ok m \<Longrightarrow> get (remove k m) k' = (if k' = k then None else get m k')"
    and iter_sorted: "ok m \<Longrightarrow> sorted_wrt (<) (map fst (iter m))"
    and iter_get: "ok m \<Longrightarrow> (k, v) \<in> set (iter m) \<longleftrightarrow> get m k = Some v"
begin

lemma distinct_keys: "ok m \<Longrightarrow> distinct (map fst (iter m))"
  using iter_sorted [of m] by (simp add: strict_sorted_iff)

lemma get_empty: "get empty k = None"
  using iter_get [OF ok_empty] by (cases "get empty k") (auto simp: iter_empty)

text \<open>Two maps with the same lookups are iterated identically.\<close>

lemma iter_cong:
  assumes "ok m" and "ok m'" and "\<And>k. get m k = get m' k"
  shows "iter m = iter m'"
proof -
  have keys: "iter n = map (\<lambda>k. (k, the (get n k))) (map fst (iter n))" if "ok n" for n
    using that by (auto simp: iter_get intro!: nth_equalityI)
      (metis iter_get nth_mem option.sel prod.collapse)
  have "set (iter m) = set (iter m')" using assms by (auto simp: iter_get)
  then have "map fst (iter m) = map fst (iter m')"
    using iter_sorted assms(1,2) by (intro strict_sorted_equal) auto
  with keys [OF assms(1)] keys [OF assms(2)] show ?thesis using assms(3) by (metis (no_types, lifting) ext)
qed

lemma count_card:
  assumes "ok m"
  shows "length (filter (\<lambda>e. P (fst e) (snd e)) (iter m)) = card {k. \<exists>v. get m k = Some v \<and> P k v}"
proof -
  let ?l = "filter (\<lambda>e. P (fst e) (snd e)) (iter m)"
  have "distinct (map fst ?l)" using distinct_keys [OF assms] by (rule distinct_map_filter)
  then have "length ?l = card (set (map fst ?l))" by (simp only: distinct_card length_map)
  also have "set (map fst ?l) = {k. \<exists>v. get m k = Some v \<and> P k v}"
    using iter_get [OF assms] by force
  finally show ?thesis .
qed

lemma finite_entries: "ok m \<Longrightarrow> finite {k. \<exists>v. get m k = Some v \<and> P k v}"
  by (rule finite_subset [of _ "set (map fst (iter m))"]) (force simp: iter_get [symmetric])+

text \<open>How one insertion changes the number of entries with a property.\<close>

lemma count_insert:
  assumes "ok m"
  shows "length (filter (\<lambda>e. P (fst e) (snd e)) (iter (insert k v m)))
      + (case get m k of Some w \<Rightarrow> of_bool (P k w) | None \<Rightarrow> 0)
    = length (filter (\<lambda>e. P (fst e) (snd e)) (iter m)) + of_bool (P k v)"
proof -
  let ?A = "{x. \<exists>w. get m x = Some w \<and> P x w}"
  let ?B = "{x. \<exists>w. get (insert k v m) x = Some w \<and> P x w}"
  have B: "?B = (if P k v then Set.insert k (?A - {k}) else ?A - {k})"
    using get_insert [OF assms] by auto
  have k: "(k \<in> ?A) = (case get m k of Some w \<Rightarrow> P k w | None \<Rightarrow> False)"
    by (auto split: option.splits)
  have "finite ?A" by (rule finite_entries [OF assms])
  then show ?thesis
    unfolding count_card [OF assms] count_card [OF ok_insert [OF assms]] B
    using k card_Suc_Diff1 [of ?A k] card_Diff_singleton_if [of ?A k] insert_absorb [of k ?A]
    by (auto split: option.splits)
qed

end

section \<open>The model satisfies the interface\<close>

lemma bt_ok_simps [simp]:
  "bt_ok []" "bt_ok ((k, v) # m) \<longleftrightarrow> (\<forall>x \<in> set m. k < fst x) \<and> bt_ok m"
  by (simp_all add: bt_ok_def)

lemma set_bt_insert: "set (bt_insert k v m) \<subseteq> {(k, v)} \<union> set m"
  by (induction k v m rule: bt_insert.induct) auto

lemma bt_ok_insert: "bt_ok m \<Longrightarrow> bt_ok (bt_insert k v m)"
proof (induction k v m rule: bt_insert.induct)
  case (2 k v k' v' m)
  have "\<forall>x \<in> set (bt_insert k v m). k' < fst x" if "k' < k"
    using 2 that set_bt_insert [of k v m] by auto
  with 2 show ?case by auto
qed simp

lemma bt_get_insert: "bt_get (bt_insert k v m) k' = (if k' = k then Some v else bt_get m k')"
  unfolding bt_get_def by (induction k v m rule: bt_insert.induct) auto

interpretation bt: ordered_map "[]" bt_get bt_insert bt_remove bt_iter bt_ok
proof unfold_locales
  fix m :: "('a::linorder, 'b) btree" and k k' v
  assume ok: "bt_ok m"
  show "bt_ok (bt_insert k v m)" using ok by (rule bt_ok_insert)
  show "bt_ok (bt_remove k m)"
    using ok unfolding bt_ok_def bt_remove_def
    by (simp add: sorted_wrt_map sorted_wrt_filter)
  show "bt_get (bt_insert k v m) k' = (if k' = k then Some v else bt_get m k')"
    by (rule bt_get_insert)
  show "bt_get (bt_remove k m) k' = (if k' = k then None else bt_get m k')"
    unfolding bt_get_def bt_remove_def by (induction m) auto
  show "sorted_wrt (<) (map fst (bt_iter m))" using ok by (simp add: bt_ok_def bt_iter_def)
  then have "distinct (map fst m)" by (simp add: bt_iter_def strict_sorted_iff)
  then show "(k, v) \<in> set (bt_iter m) \<longleftrightarrow> bt_get m k = Some v"
    by (simp add: bt_get_def bt_iter_def)
qed (simp_all add: bt_iter_def)

section \<open>Scans\<close>

lemma takeWhile_eq_filter:
  assumes "sorted_wrt R xs" and "\<And>x y. R x y \<Longrightarrow> P y \<Longrightarrow> x \<in> set xs \<Longrightarrow> P x"
  shows "takeWhile P xs = filter P xs"
  using assms
proof (induction xs)
  case (Cons x xs)
  then have IH: "takeWhile P xs = filter P xs" by auto
  show ?case
  proof (cases "P x")
    case False
    with Cons.prems have "filter P xs = []" by (auto simp: filter_empty_conv)
    with False show ?thesis by simp
  qed (simp add: IH)
qed simp

text \<open>A scan that starts at a prefix and stops at the first key without it sees exactly the keys
  with that prefix.\<close>

lemma takeWhile_prefix:
  fixes p :: bytes and m :: "(bytes, 'a) btree"
  assumes "bt_ok m"
  shows "takeWhile (\<lambda>e. prefix p (fst e)) (filter (\<lambda>e. p \<le> fst e) m) =
         filter (\<lambda>e. prefix p (fst e)) m"
proof -
  let ?xs = "filter (\<lambda>e. p \<le> fst e) m"
  have "sorted_wrt (\<lambda>x y. fst x < fst y) ?xs"
    using assms by (simp add: bt_ok_def sorted_wrt_map sorted_wrt_filter)
  moreover have "prefix p (fst x)"
    if "fst x < fst y" "prefix p (fst y)" "x \<in> set ?xs" for x y :: "bytes \<times> 'a"
  proof -
    have i: "prefix p k \<longleftrightarrow> in_interval (p, prefix_end p) k" for k
      using matches_range_interval [of "Prefix p" k] by simp
    show ?thesis using that unfolding i by (auto simp: in_interval_def split: option.splits)
  qed
  ultimately have "takeWhile (\<lambda>e. prefix p (fst e)) ?xs = filter (\<lambda>e. prefix p (fst e)) ?xs"
    by (rule takeWhile_eq_filter)
  also have "\<dots> = filter (\<lambda>e. prefix p (fst e)) m"
    by (auto intro!: filter_cong dest: prefix_imp_le)
  finally show ?thesis .
qed

end
