(* ===== verification/Rpc.thy ===== *)
theory Rpc
  imports Prelude
begin

text \<open>
  The gRPC vocabulary: status codes, the results of fallible Rust functions (with panics as a
  value), and the request and response messages of \<^verbatim>\<open>proto/rpc.proto\<close> that the store handles.
  A \<open>KeyValue\<close> inside a response is carried as its encoded bytes, as the build script patches the
  protocol files to do.
\<close>

section \<open>Results\<close>

datatype code = InvalidArgument | NotFound | OutOfRange | FailedPrecondition | Internal
  | Unimplemented

datatype status = Status code string

datatype 'a res = Ok 'a | Err status | Panic

fun is_ok :: "'a res \<Rightarrow> bool" where
  "is_ok (Ok _) = True"
| "is_ok _ = False"

section \<open>Messages\<close>

record response_header =
  cluster_id :: u64
  member_id :: u64
  hdr_revision :: i64
  raft_term :: u64

record range_request =
  rr_key :: bytes
  rr_range_end :: bytes
  rr_limit :: i64
  rr_revision :: i64
  rr_sort_order :: i32
  rr_sort_target :: i32
  rr_keys_only :: bool
  rr_count_only :: bool
  rr_min_mod_revision :: i64
  rr_max_mod_revision :: i64
  rr_min_create_revision :: i64
  rr_max_create_revision :: i64

record range_response =
  rs_header :: "response_header option"
  rs_kvs :: "bytes list"
  rs_more :: bool
  rs_count :: i64

record put_request =
  pr_key :: bytes
  pr_value :: bytes
  pr_lease :: i64
  pr_prev_kv :: bool
  pr_ignore_value :: bool
  pr_ignore_lease :: bool

record put_response =
  ps_header :: "response_header option"
  ps_prev_kv :: bytes

record delete_range_request =
  dr_key :: bytes
  dr_range_end :: bytes
  dr_prev_kv :: bool

record delete_range_response =
  ds_header :: "response_header option"
  ds_deleted :: i64
  ds_prev_kvs :: "bytes list"

datatype target_union = TVersion i64 | TCreateRevision i64 | TModRevision i64 | TValue bytes
  | TLease i64

record compare =
  cmp_result :: i32
  cmp_target :: i32
  cmp_key :: bytes
  cmp_target_union :: "target_union option"
  cmp_range_end :: bytes

datatype request_op =
    RequestRange range_request
  | RequestPut put_request
  | RequestDeleteRange delete_range_request
  | RequestTxn "compare list" "request_op option list" "request_op option list"

datatype response_op =
    ResponseRange range_response
  | ResponsePut put_response
  | ResponseDeleteRange delete_range_response
  | ResponseTxn "response_header option" bool "response_op option list"

record txn_request =
  tx_compare :: "compare list"
  tx_success :: "request_op option list"
  tx_failure :: "request_op option list"

record txn_response =
  ts_header :: "response_header option"
  ts_succeeded :: bool
  ts_responses :: "response_op option list"

end
