(* ===== verification/Varint.thy ===== *)
theory Varint
  imports Prelude
begin

text \<open>
  The integer encodings of \<^verbatim>\<open>src/storage/wal.rs\<close>: the fixed-width "overlong" protobuf varints
  used for lengths and for \<open>mod_revision\<close>, and the minimal varints used for the other fields.
  The lemmas show that every decoder inverts its encoder, that the standard decoder also reads
  the overlong form, and how many bytes each form takes.
\<close>

section \<open>Overlong varints\<close>

text \<open>\<open>encode_overlong_u32\<close>: four bytes carrying seven bits with the continuation bit set, and a
  fifth byte with the top four bits.\<close>

definition encode_overlong_u32 :: "u32 \<Rightarrow> bytes" where
  "encode_overlong_u32 v =
     map (\<lambda>i. (ucast (drop_bit (i * 7) v) AND 0x7f) OR 0x80) [0..<4]
       @ [ucast (drop_bit 28 v) AND 0x0f]"

definition encode_overlong_u64 :: "u64 \<Rightarrow> bytes" where
  "encode_overlong_u64 v =
     map (\<lambda>i. (ucast (drop_bit (i * 7) v) AND 0x7f) OR 0x80) [0..<9]
       @ [ucast (drop_bit 63 v) AND 0x01]"

text \<open>The loop \<open>v |= ((b & 0x7f) as u64) << (i * 7)\<close> over the enumerated bytes, starting at
  index \<open>i\<close>.\<close>

fun or_septets :: "nat \<Rightarrow> bytes \<Rightarrow> u64 \<Rightarrow> u64" where
  "or_septets i [] v = v"
| "or_septets i (b # bs) v = or_septets (Suc i) bs (v OR push_bit (i * 7) (ucast (b AND 0x7f)))"

definition decode_overlong_u32 :: "bytes \<Rightarrow> u32 option" where
  "decode_overlong_u32 buf =
     (if length buf < 5 then None else Some (ucast (or_septets 0 (take 5 buf) 0)))"

definition decode_overlong_u64 :: "bytes \<Rightarrow> u64 option" where
  "decode_overlong_u64 buf =
     (if length buf < 10 then None else Some (or_septets 0 (take 10 buf) 0))"

section \<open>Minimal varints\<close>

function encode_varint :: "u64 \<Rightarrow> bytes" where
  "encode_varint v =
     (if v < 0x80 then [ucast v] else (ucast v OR 0x80) # encode_varint (drop_bit 7 v))"
  by pat_completeness auto
termination
proof (relation "measure unat")
  fix v :: u64
  assume "\<not> v < 0x80"
  then have "128 \<le> unat v" by (simp add: word_less_nat_alt)
  then show "(drop_bit 7 v, v) \<in> measure unat"
    by (simp add: drop_bit_eq_div unat_div)
qed simp

declare encode_varint.simps [simp del]

text \<open>The decoding loop: \<open>value\<close> and \<open>shift\<close> are the accumulators, \<open>i\<close> the index of the next
  byte. It gives up once the shift passes 63.\<close>

fun decode_varint_loop :: "u64 \<Rightarrow> nat \<Rightarrow> nat \<Rightarrow> bytes \<Rightarrow> (u64 \<times> nat) option" where
  "decode_varint_loop value shift i [] = None"
| "decode_varint_loop value shift i (b # bs) =
     (let value = value OR push_bit shift (ucast (b AND 0x7f)) in
      if b AND 0x80 = 0 then Some (value, i + 1)
      else if shift + 7 > 63 then None
      else decode_varint_loop value (shift + 7) (i + 1) bs)"

definition decode_varint :: "bytes \<Rightarrow> (u64 \<times> nat) option" where
  "decode_varint buf = decode_varint_loop 0 0 0 buf"

section \<open>Lemmas\<close>

lemma length_encode_overlong [simp]:
  "length (encode_overlong_u32 v) = 5" "length (encode_overlong_u64 w) = 10"
  by (simp_all add: encode_overlong_u32_def encode_overlong_u64_def)

lemma bit_and_7f: "bit (b AND 0x7f :: u8) k \<longleftrightarrow> bit b k \<and> k < 7"
proof -
  have "(0x7f :: u8) = mask 7" by (simp add: mask_eq_exp_minus_1)
  then show ?thesis using bit_imp_le_length [of b k]
    by (simp only: bit_and_iff bit_mask_iff) auto
qed

lemma and_80_eq_0: "(b AND 0x80 :: u8) = 0 \<longleftrightarrow> \<not> bit b 7"
proof -
  have "(0x80 :: u8) = push_bit 7 1" by simp
  then show ?thesis by (simp only: and_exp_eq_0_iff_not_bit push_bit_of_1)
qed

lemma bit_80: "bit (0x80 :: u8) k \<longleftrightarrow> k = 7"
proof -
  have "(0x80 :: u8) = push_bit 7 1" by simp
  then show ?thesis by (simp only: bit_push_bit_iff bit_1_iff) auto
qed

lemma bit_septet:
  "j < 7 \<Longrightarrow> bit ((ucast (x :: 'a::len word) AND 0x7f) OR 0x80 :: u8) j = bit x j"
  by (simp only: bit_or_iff bit_80 bit_and_7f) (simp add: bit_ucast_iff)

lemma or_80_continues [simp]: "(b OR 0x80) AND 0x80 \<noteq> (0 :: u8)"
  "(b OR 0x80) AND 0x7f = b AND (0x7f :: u8)"
proof -
  show "(b OR 0x80) AND 0x80 \<noteq> (0 :: u8)" by (simp add: and_80_eq_0 bit_simps)
  show "(b OR 0x80) AND 0x7f = b AND (0x7f :: u8)"
    by (simp add: bit.conj_disj_distrib2)
qed

lemma bit_or_septets:
  "bit (or_septets i bs v) k \<longleftrightarrow>
     bit v k \<or> (k < 64 \<and> i \<le> k div 7 \<and> k div 7 < i + length bs \<and> bit (bs ! (k div 7 - i)) (k mod 7))"
proof (induction bs arbitrary: i v)
  case Nil
  then show ?case by auto
next
  case (Cons b bs)
  have b: "bit (push_bit (i * 7) (ucast (b AND 0x7f) :: u64)) k \<longleftrightarrow>
      k < 64 \<and> k div 7 = i \<and> bit b (k mod 7)"
  proof (cases "k div 7 = i")
    case True
    then have "k = i * 7 + k mod 7" by (metis div_mult_mod_eq)
    then have "k - i * 7 = k mod 7" and "i * 7 \<le> k" by linarith+
    with True show ?thesis by (auto simp: bit_push_bit_iff bit_ucast_iff bit_and_7f)
  next
    case False
    then have "i * 7 \<le> k \<Longrightarrow> 7 \<le> k - i * 7"
      by presburger
    with False show ?thesis by (auto simp: bit_push_bit_iff bit_ucast_iff bit_and_7f)
  qed
  have "(i \<le> k div 7 \<and> k div 7 < i + length (b # bs)) \<longleftrightarrow>
      k div 7 = i \<or> Suc i \<le> k div 7 \<and> k div 7 < Suc i + length bs" by auto
  moreover have "Suc i \<le> k div 7 \<Longrightarrow> (b # bs) ! (k div 7 - i) = bs ! (k div 7 - Suc i)"
  proof -
    assume "Suc i \<le> k div 7"
    then have "k div 7 - i = Suc (k div 7 - Suc i)" by simp
    then show ?thesis by simp
  qed
  ultimately show ?case
    by (auto simp: Cons.IH bit_or_iff b)
qed

lemma decode_loop_septets:
  assumes "\<And>b. b \<in> set bs \<Longrightarrow> b AND 0x80 \<noteq> 0" and "e AND 0x80 = 0"
    and "7 * (i + length bs) \<le> 63"
  shows "decode_varint_loop v (7 * i) i (bs @ e # rest) =
           Some (or_septets i (bs @ [e]) v, i + length bs + 1)"
  using assms
proof (induction bs arbitrary: i v)
  case Nil
  then show ?case by (simp add: mult.commute Let_def)
next
  case (Cons b bs)
  have "decode_varint_loop v (7 * Suc i) (Suc i) (bs @ e # rest) =
      Some (or_septets (Suc i) (bs @ [e]) v, Suc i + length bs + 1)" for v
    using Cons.prems by (intro Cons.IH) auto
  then show ?case
    using Cons.prems by (simp add: mult.commute Let_def add.commute)
qed

lemma decode_varint_septets:
  assumes "\<And>b. b \<in> set bs \<Longrightarrow> b AND 0x80 \<noteq> 0" and "e AND 0x80 = 0" and "length bs \<le> 9"
  shows "decode_varint (bs @ e # rest) = Some (or_septets 0 (bs @ [e]) 0, length bs + 1)"
  using decode_loop_septets [of bs e 0 0 rest] assms by (simp add: decode_varint_def)

lemma or_septets_encode_varint: "or_septets i (encode_varint v) acc = acc OR push_bit (i * 7) v"
proof (induction v arbitrary: i acc rule: encode_varint.induct)
  case (1 v)
  show ?case
  proof (cases "v < 0x80")
    case True
    have "ucast (ucast v AND 0x7f :: u8) = v"
    proof (rule bit_word_eqI)
      fix n assume "n < LENGTH(64)"
      have "bit v n \<Longrightarrow> n < 7"
        using True not_bit_small [of v 7 n] by (cases "7 \<le> n") (auto simp: word_less_nat_alt)
      then show "bit (ucast (ucast v AND 0x7f :: u8) :: u64) n = bit v n"
        by (auto simp: bit_ucast_iff bit_and_7f)
    qed
    with True show ?thesis by (simp add: encode_varint.simps [of v])
  next
    case False
    have "push_bit (i * 7) (ucast (ucast v AND 0x7f :: u8)) OR push_bit (Suc i * 7) (drop_bit 7 v)
        = push_bit (i * 7) v"
    proof (rule bit_word_eqI)
      fix n assume "n < LENGTH(64)"
      moreover have "Suc i * 7 \<le> n \<Longrightarrow> 7 + (n - Suc i * 7) = n - i * 7" by simp
      ultimately show "bit (push_bit (i * 7) (ucast (ucast v AND 0x7f :: u8)) OR
          push_bit (Suc i * 7) (drop_bit 7 v)) n = bit (push_bit (i * 7) v) n"
        by (cases "Suc i * 7 \<le> n")
          (auto simp: bit_push_bit_iff bit_ucast_iff bit_and_7f bit_or_iff bit_drop_bit_eq)
    qed
    with False 1 [of "Suc i"] show ?thesis
      by (simp add: encode_varint.simps [of v] or.assoc)
  qed
qed

lemma encode_varint_shape:
  "\<exists>bs e. encode_varint v = bs @ [e] \<and> (\<forall>b \<in> set bs. b AND 0x80 \<noteq> 0) \<and> e AND 0x80 = 0"
proof (induction v rule: encode_varint.induct)
  case (1 v)
  show ?case
  proof (cases "v < 0x80")
    case True
    then have "\<not> bit v 7" using not_bit_small [of v 7 7] by (simp add: word_less_nat_alt)
    with True show ?thesis
      by (intro exI [of _ "[]"] exI [of _ "ucast v"])
        (simp add: encode_varint.simps [of v] and_80_eq_0 bit_ucast_iff)
  next
    case False
    with 1 obtain bs e where "encode_varint (drop_bit 7 v) = bs @ [e]"
      "\<forall>b \<in> set bs. b AND 0x80 \<noteq> 0" "e AND 0x80 = 0" by blast
    with False show ?thesis
      by (intro exI [of _ "(ucast v OR 0x80) # bs"] exI [of _ e])
        (simp add: encode_varint.simps [of v])
  qed
qed

lemma length_encode_varint_le:
  "unat v < 2 ^ (7 * n) \<Longrightarrow> 0 < n \<Longrightarrow> length (encode_varint v) \<le> n"
proof (induction v arbitrary: n rule: encode_varint.induct)
  case (1 v)
  show ?case
  proof (cases "v < 0x80")
    case True
    with 1 show ?thesis by (simp add: encode_varint.simps [of v])
  next
    case False
    then have big: "128 \<le> unat v" by (simp add: word_less_nat_alt)
    with "1.prems" obtain m where n: "n = Suc (Suc m)"
      by (cases n; cases "n - 1") auto
    have "unat (drop_bit 7 v) < 2 ^ (7 * Suc m)"
      using "1.prems" n by (simp add: drop_bit_eq_div unat_div power_add less_mult_imp_div_less)
    with False "1.IH" [of "Suc m"] n show ?thesis
      by (simp add: encode_varint.simps [of v])
  qed
qed

lemma length_encode_varint: "0 < length (encode_varint v)" "length (encode_varint v) \<le> 10"
proof -
  show "0 < length (encode_varint v)" using encode_varint_shape [of v] by auto
  have "unat v < 2 ^ 64" using unsigned_less [of v] by simp
  also have "(2::nat) ^ 64 \<le> 2 ^ (7 * 10)" by simp
  finally show "length (encode_varint v) \<le> 10" by (rule length_encode_varint_le) simp
qed

lemma or_septets_overlong:
  "or_septets 0 (encode_overlong_u64 w) 0 = w" (is ?A)
  "or_septets 0 (encode_overlong_u32 v) 0 = ucast v" (is ?B)
proof -
  have len: "k < 64 \<Longrightarrow> k div 7 < 10" for k :: nat by simp
  have k: "k div 7 * 7 + k mod 7 = k" for k :: nat by simp
  show ?A
  proof (rule bit_word_eqI)
    fix k assume "k < LENGTH(64)"
    then have k64: "k < 64" by simp
    show "bit (or_septets 0 (encode_overlong_u64 w) 0) k = bit w k"
    proof (cases "k div 7 < 9")
      case True
      then show ?thesis using k64 k [of k]
        by (simp add: bit_or_septets encode_overlong_u64_def nth_append bit_septet
            bit_drop_bit_eq)
    next
      case False
      with k64 have "k = 63" by presburger
      then show ?thesis
        by (simp add: bit_or_septets encode_overlong_u64_def nth_append bit_simps)
    qed
  qed
  show ?B
  proof (rule bit_word_eqI)
    fix k assume "k < LENGTH(64)"
    then have k64: "k < 64" by simp
    show "bit (or_septets 0 (encode_overlong_u32 v) 0) k = bit (ucast v :: u64) k"
    proof (cases "k div 7 < 4")
      case True
      then show ?thesis using k64 k [of k]
        by (simp add: bit_or_septets encode_overlong_u32_def nth_append bit_septet
            bit_drop_bit_eq bit_ucast_iff)
    next
      case False
      have "(0x0f :: u8) = mask 4" by (simp add: mask_eq_exp_minus_1)
      then have m: "bit (ucast (drop_bit 28 v) AND 0x0f :: u8) j \<longleftrightarrow> j < 4 \<and> bit v (28 + j)" for j
        by (simp only: bit_and_iff bit_mask_iff) (auto simp: bit_ucast_iff bit_drop_bit_eq)
      have "bit v k \<Longrightarrow> k < 32" using bit_imp_le_length [of v k] by simp
      moreover from False have "k div 7 < 5 \<Longrightarrow> k div 7 = 4" by simp
      moreover have "k div 7 = 4 \<Longrightarrow> 28 + k mod 7 = k" and "k < 32 \<Longrightarrow> k div 7 < 5"
        and "k div 7 = 4 \<Longrightarrow> k < 32 \<Longrightarrow> k mod 7 < 4" by presburger+
      ultimately show ?thesis using False k64
        by (auto simp: bit_or_septets encode_overlong_u32_def nth_append m bit_ucast_iff)
    qed
  qed
qed

section \<open>Round trips\<close>

lemma decode_overlong_u32_encode [codec_simps]:
  "decode_overlong_u32 (encode_overlong_u32 v @ rest) = Some v"
proof -
  have "ucast (ucast v :: u64) = v" by (rule bit_word_eqI) (simp add: bit_ucast_iff)
  then show ?thesis by (simp add: decode_overlong_u32_def or_septets_overlong)
qed

lemma decode_overlong_u64_encode [codec_simps]:
  "decode_overlong_u64 (encode_overlong_u64 v @ rest) = Some v"
  by (simp add: decode_overlong_u64_def or_septets_overlong)

lemma decode_varint_encode [codec_simps]:
  "decode_varint (encode_varint v @ rest) = Some (v, length (encode_varint v))"
proof -
  obtain bs e where shape: "encode_varint v = bs @ [e]" "\<forall>b \<in> set bs. b AND 0x80 \<noteq> 0"
    "e AND 0x80 = 0"
    using encode_varint_shape by blast
  then have "length bs \<le> 9" using length_encode_varint(2) [of v] by simp
  with shape have "decode_varint (bs @ e # rest) = Some (or_septets 0 (bs @ [e]) 0, length bs + 1)"
    by (intro decode_varint_septets) auto
  with shape(1) show ?thesis using or_septets_encode_varint [of 0 v 0] by simp
qed

lemma overlong_last_stops: "((x :: u8) AND 0x0f) AND 0x80 = 0" "(x AND 0x01) AND 0x80 = 0"
  by (simp_all add: and.assoc)

lemma decode_varint_overlong_u32 [codec_simps]:
  "decode_varint (encode_overlong_u32 v @ rest) = Some (ucast v, 5)"
proof -
  have "decode_varint (encode_overlong_u32 v @ rest) =
      Some (or_septets 0 (encode_overlong_u32 v) 0, length (butlast (encode_overlong_u32 v)) + 1)"
    unfolding encode_overlong_u32_def
    using decode_varint_septets
      [of "map (\<lambda>i. (ucast (drop_bit (i * 7) v) AND 0x7f) OR 0x80) [0..<4]"
          "ucast (drop_bit 28 v) AND 0x0f" rest]
    by (fastforce simp: overlong_last_stops)
  then show ?thesis by (simp add: or_septets_overlong)
qed

text \<open>
  The byte strings an encoder may produce never differ only in a suffix: what a varint decodes to
  does not depend on the bytes that follow it.
\<close>

lemma encode_varint_prefix_free:
  assumes "encode_varint v @ xs = encode_varint w @ ys"
  shows "v = w \<and> xs = ys"
proof -
  have "decode_varint (encode_varint v @ xs) = decode_varint (encode_varint w @ ys)"
    using assms by simp
  then have "v = w" by (simp add: decode_varint_encode)
  with assms show ?thesis by simp
qed

end
