(* ===== verification/Wal_Record.thy ===== *)
theory Wal_Record
  imports Varint
begin

text \<open>
  The record format of the write-ahead log, \<^verbatim>\<open>src/storage/wal.rs\<close>: the protobuf encoding of a
  \<open>KeyValue\<close> with fixed-width length and revision fields, the framed \<open>KvWalRecord\<close> around it, and
  the field accessors that read the key and the revision in place.  The CRC32C of the
  \<^verbatim>\<open>crc32c\<close> crate and the protobuf decoder of \<^verbatim>\<open>prost\<close> are not part of the sources: they are the
  fields of a \<open>libs\<close> record that the definitions take as an argument, and what the code relies on
  is stated by \<open>crc_law\<close> and \<open>prost_law\<close>.
\<close>

section \<open>The message and the library functions\<close>

record key_value =
  kv_key :: bytes
  kv_create_revision :: i64
  kv_mod_revision :: i64
  kv_version :: i64
  kv_value :: bytes
  kv_lease :: i64

record libs =
  x_crc32c :: "bytes \<Rightarrow> u32"
  x_crc32c_append :: "u32 \<Rightarrow> bytes \<Rightarrow> u32"
  x_kv_decode :: "bytes \<Rightarrow> key_value option"

definition crc32c :: "libs \<Rightarrow> bytes \<Rightarrow> u32" where
  "crc32c E d = x_crc32c E d"

definition crc32c_append :: "libs \<Rightarrow> u32 \<Rightarrow> bytes \<Rightarrow> u32" where
  "crc32c_append E c d = x_crc32c_append E c d"

section \<open>Encoding a key-value\<close>

definition encode_kv ::
    "bytes \<Rightarrow> bytes \<Rightarrow> i64 \<Rightarrow> i64 \<Rightarrow> i64 \<Rightarrow> i64 \<Rightarrow> bytes \<times> u16 \<times> u16" where
  "encode_kv key val create_revision mod_revision version lease =
     (let buf = [0x0a];
          key_offset = word_of_nat (length buf);
          buf = buf @ encode_overlong_u32 (word_of_nat (length key));
          buf = buf @ key;
          buf = buf @ [0x10];
          buf = buf @ encode_varint create_revision;
          buf = buf @ [0x18];
          mod_rev_offset = word_of_nat (length buf);
          buf = buf @ encode_overlong_u64 mod_revision;
          buf = buf @ [0x20];
          buf = buf @ encode_varint version;
          buf = buf @ [0x2a];
          buf = buf @ encode_overlong_u32 (word_of_nat (length val));
          buf = buf @ val;
          buf = buf @ [0x30];
          buf = buf @ encode_varint lease
      in (buf, key_offset, mod_rev_offset))"

text \<open>The accessors of a record.  Offsets and lengths are natural numbers: for a key length near \<open>2\<^sup>6\<^sup>4\<close>, which only a
  crafted record with a valid checksum can have, \<open>start + key_len\<close> would wrap in the release build and the slice
  panic, where the model returns \<open>None\<close>; for records of the store's own encoder the two agree.\<close>

definition read_key_from_kv :: "bytes \<Rightarrow> u16 \<Rightarrow> bytes option" where
  "read_key_from_kv kv_bytes key_offset =
     (let ofs = unat key_offset in
      if ofs \<ge> length kv_bytes then None
      else case decode_varint (drop ofs kv_bytes) of
        None \<Rightarrow> None
      | Some (key_len, varint_size) \<Rightarrow>
          let key_len = unat key_len; start = ofs + varint_size in
          if start + key_len > length kv_bytes then None
          else Some (take key_len (drop start kv_bytes)))"

definition read_mod_revision_from_kv :: "bytes \<Rightarrow> u16 \<Rightarrow> i64 option" where
  "read_mod_revision_from_kv kv_bytes mod_rev_offset =
     (let ofs = unat mod_rev_offset in
      if ofs + 10 > length kv_bytes then None
      else decode_overlong_u64 (drop ofs kv_bytes))"

section \<open>Records\<close>

definition DELETED :: u8 where "DELETED = 0x01"
definition IS_CREATE :: u8 where "IS_CREATE = 0x02"
definition HAS_LEASE :: u8 where "HAS_LEASE = 0x04"

definition KV_HEADER_SIZE :: nat where "KV_HEADER_SIZE = 9"
definition KV_CRC_SIZE :: nat where "KV_CRC_SIZE = 4"

lemmas flag_defs = DELETED_def IS_CREATE_def HAS_LEASE_def
lemmas size_defs = KV_HEADER_SIZE_def KV_CRC_SIZE_def

record kv_wal_record =
  rec_flags :: u8
  rec_kv_bytes :: bytes
  rec_key_offset :: u16
  rec_mod_rev_offset :: u16
  rec_rec_len :: u32
  rec_crc :: u32

datatype io_error = UnexpectedEof string | InvalidData string | OtherIo string

definition KvWalRecord_new ::
    "libs \<Rightarrow> u8 \<Rightarrow> bytes \<Rightarrow> bytes \<Rightarrow> i64 \<Rightarrow> i64 \<Rightarrow> i64 \<Rightarrow> i64 \<Rightarrow> kv_wal_record" where
  "KvWalRecord_new E flags key val create_revision mod_revision version lease =
     (let (kv_bytes, key_offset, mod_rev_offset) =
            encode_kv key val create_revision mod_revision version lease;
          rec_len = word_of_nat (KV_HEADER_SIZE + length kv_bytes + KV_CRC_SIZE);
          crc = crc32c E [flags];
          crc = crc32c_append E crc (to_le_bytes 2 key_offset);
          crc = crc32c_append E crc (to_le_bytes 2 mod_rev_offset);
          crc = crc32c_append E crc (to_le_bytes 4 rec_len);
          crc = crc32c_append E crc kv_bytes
      in \<lparr>rec_flags = flags, rec_kv_bytes = kv_bytes, rec_key_offset = key_offset,
          rec_mod_rev_offset = mod_rev_offset, rec_rec_len = rec_len, rec_crc = crc\<rparr>)"

definition serialize :: "kv_wal_record \<Rightarrow> bytes" where
  "serialize r =
     [rec_flags r] @ to_le_bytes 2 (rec_key_offset r) @ to_le_bytes 2 (rec_mod_rev_offset r)
       @ to_le_bytes 4 (rec_rec_len r) @ rec_kv_bytes r @ to_le_bytes 4 (rec_crc r)"

definition deserialize :: "libs \<Rightarrow> bytes \<Rightarrow> io_error + kv_wal_record \<times> nat" where
  "deserialize E data =
     (if length data < KV_HEADER_SIZE + KV_CRC_SIZE
      then Inl (UnexpectedEof ''record too short'')
      else
        let flags = data ! 0;
            key_offset = from_le_bytes [data ! 1, data ! 2];
            mod_rev_offset = from_le_bytes [data ! 3, data ! 4];
            rec_len = from_le_bytes [data ! 5, data ! 6, data ! 7, data ! 8] :: u32;
            min_rec_len = KV_HEADER_SIZE + KV_CRC_SIZE
        in
        if unat rec_len < min_rec_len then Inl (InvalidData ''rec_len too small'')
        else if unat rec_len > length data
        then Inl (UnexpectedEof ''record extends past buffer'')
        else
          let kv_len = unat rec_len - KV_HEADER_SIZE - KV_CRC_SIZE;
              kv_start = KV_HEADER_SIZE;
              kv_end = kv_start + kv_len;
              crc_start = kv_end;
              kv_bytes = take kv_len (drop kv_start data);
              stored_crc = from_le_bytes [data ! crc_start, data ! (crc_start + 1),
                             data ! (crc_start + 2), data ! (crc_start + 3)];
              computed = crc32c E (take kv_end data)
          in
          if computed \<noteq> stored_crc then Inl (InvalidData ''CRC mismatch'')
          else if unat key_offset \<ge> length kv_bytes
                  \<or> unat mod_rev_offset + 10 > length kv_bytes
          then Inl (InvalidData ''offset out of bounds'')
          else Inr (\<lparr>rec_flags = flags, rec_kv_bytes = kv_bytes, rec_key_offset = key_offset,
                     rec_mod_rev_offset = mod_rev_offset, rec_rec_len = rec_len,
                     rec_crc = stored_crc\<rparr>, unat rec_len))"

definition rec_key :: "kv_wal_record \<Rightarrow> bytes option" where
  "rec_key r = read_key_from_kv (rec_kv_bytes r) (rec_key_offset r)"

definition rec_mod_revision :: "kv_wal_record \<Rightarrow> i64 option" where
  "rec_mod_revision r = read_mod_revision_from_kv (rec_kv_bytes r) (rec_mod_rev_offset r)"

section \<open>Layout of an encoded key-value\<close>

definition kv_blob :: "bytes \<Rightarrow> bytes \<Rightarrow> i64 \<Rightarrow> i64 \<Rightarrow> i64 \<Rightarrow> i64 \<Rightarrow> bytes" where
  "kv_blob key val create_revision mod_revision version lease =
     fst (encode_kv key val create_revision mod_revision version lease)"

text \<open>The offset of the \<open>mod_revision\<close> field, before it is truncated to 16 bits.\<close>

definition mod_rev_pos :: "bytes \<Rightarrow> i64 \<Rightarrow> nat" where
  "mod_rev_pos key create_revision = 8 + length key + length (encode_varint create_revision)"

lemma kv_blob_eq:
  "kv_blob key val cr mr ver lease =
     0x0a # encode_overlong_u32 (word_of_nat (length key)) @ key
       @ 0x10 # encode_varint cr @ 0x18 # encode_overlong_u64 mr @ 0x20 # encode_varint ver
       @ 0x2a # encode_overlong_u32 (word_of_nat (length val)) @ val @ 0x30 # encode_varint lease"
  by (simp add: kv_blob_def encode_kv_def Let_def)

lemma encode_kv_eq:
  "encode_kv key val cr mr ver lease =
     (kv_blob key val cr mr ver lease, 1, word_of_nat (mod_rev_pos key cr))"
  by (simp add: kv_blob_def encode_kv_def Let_def mod_rev_pos_def algebra_simps)

lemma length_kv_blob:
  "length (kv_blob key val cr mr ver lease) =
     26 + length key + length val + length (encode_varint cr) + length (encode_varint ver)
       + length (encode_varint lease)"
  by (simp add: kv_blob_eq)

text \<open>What precedes and what follows the \<open>mod_revision\<close> field.\<close>

definition kv_before :: "bytes \<Rightarrow> i64 \<Rightarrow> bytes" where
  "kv_before key cr =
     0x0a # encode_overlong_u32 (word_of_nat (length key)) @ key @ 0x10 # encode_varint cr @ [0x18]"

definition kv_after :: "bytes \<Rightarrow> i64 \<Rightarrow> i64 \<Rightarrow> bytes" where
  "kv_after val ver lease =
     0x20 # encode_varint ver @ 0x2a # encode_overlong_u32 (word_of_nat (length val)) @ val
       @ 0x30 # encode_varint lease"

lemma length_kv_before [simp]: "length (kv_before key cr) = mod_rev_pos key cr"
  by (simp add: kv_before_def mod_rev_pos_def)

lemma kv_blob_split:
  "kv_blob key val cr mr ver lease = kv_before key cr @ encode_overlong_u64 mr @ kv_after val ver lease"
  by (simp add: kv_blob_eq kv_before_def kv_after_def)

lemma drop_mod_rev_pos:
  "drop (mod_rev_pos key cr) (kv_blob key val cr mr ver lease) =
     encode_overlong_u64 mr @ kv_after val ver lease"
  by (simp add: kv_blob_split)

lemma mod_rev_pos_le: "mod_rev_pos key cr + 10 \<le> length (kv_blob key val cr mr ver lease)"
  by (simp add: length_kv_blob mod_rev_pos_def)

lemma read_key_kv_blob:
  assumes "length key < 2 ^ 32"
  shows "read_key_from_kv (kv_blob key val cr mr ver lease) 1 = Some key"
proof -
  have "unat (ucast (word_of_nat (length key) :: u32) :: u64) = length key"
    using assms by (simp add: unsigned_ucast_eq unat_of_nat_small take_bit_nat_eq_self
        order_less_trans [OF assms])
  then show ?thesis
    by (simp add: read_key_from_kv_def kv_blob_eq codec_simps Let_def)
qed

lemma read_mod_revision_kv_blob:
  assumes "mod_rev_pos key cr < 2 ^ 16"
  shows "read_mod_revision_from_kv (kv_blob key val cr mr ver lease)
           (word_of_nat (mod_rev_pos key cr)) = Some mr"
  using assms mod_rev_pos_le [of key cr val mr ver lease]
  by (simp add: read_mod_revision_from_kv_def unat_of_nat_small drop_mod_rev_pos codec_simps Let_def)

section \<open>Laws of the library functions\<close>

text \<open>\<open>crc32c_append\<close> continues a checksum, as the crate documents.\<close>

definition crc_law :: "libs \<Rightarrow> bool" where
  "crc_law E \<longleftrightarrow> (\<forall>xs ys. x_crc32c_append E (x_crc32c E xs) ys = x_crc32c E (xs @ ys))"

text \<open>The protobuf decoder accepts the fields in any varint width, overlong ones included, so it
  reads back what \<open>encode_kv\<close> wrote.\<close>

definition prost_law :: "libs \<Rightarrow> bool" where
  "prost_law E \<longleftrightarrow>
     (\<forall>key val cr mr ver lease. length key < 2 ^ 32 \<longrightarrow> length val < 2 ^ 32 \<longrightarrow>
        x_kv_decode E (kv_blob key val cr mr ver lease) =
          Some \<lparr>kv_key = key, kv_create_revision = cr, kv_mod_revision = mr, kv_version = ver,
                kv_value = val, kv_lease = lease\<rparr>)"

section \<open>Well-formed records and the round trip\<close>

definition rec_body :: "kv_wal_record \<Rightarrow> bytes" where
  "rec_body r =
     [rec_flags r] @ to_le_bytes 2 (rec_key_offset r) @ to_le_bytes 2 (rec_mod_rev_offset r)
       @ to_le_bytes 4 (rec_rec_len r) @ rec_kv_bytes r"

definition rec_wf :: "libs \<Rightarrow> kv_wal_record \<Rightarrow> bool" where
  "rec_wf E r \<longleftrightarrow>
     unat (rec_rec_len r) = KV_HEADER_SIZE + length (rec_kv_bytes r) + KV_CRC_SIZE
     \<and> rec_crc r = crc32c E (rec_body r)
     \<and> unat (rec_key_offset r) < length (rec_kv_bytes r)
     \<and> unat (rec_mod_rev_offset r) + 10 \<le> length (rec_kv_bytes r)"

lemma serialize_body: "serialize r = rec_body r @ to_le_bytes 4 (rec_crc r)"
  by (simp add: serialize_def rec_body_def)

lemma length_rec_body: "length (rec_body r) = 9 + length (rec_kv_bytes r)"
  by (simp add: rec_body_def)

lemma length_serialize: "length (serialize r) = 13 + length (rec_kv_bytes r)"
  by (simp add: serialize_def)

lemma rec_wf_len: "rec_wf E r \<Longrightarrow> unat (rec_rec_len r) = 13 + length (rec_kv_bytes r)"
  by (simp add: rec_wf_def size_defs)

lemma length_serialize_wf: "rec_wf E r \<Longrightarrow> length (serialize r) = unat (rec_rec_len r)"
  by (simp add: rec_wf_def length_serialize size_defs)

lemma nth_le_bytes_app:
  "i < n \<Longrightarrow> (to_le_bytes n w @ xs) ! i = to_le_bytes n w ! i"
  by (simp add: nth_append)

lemma four_bytes: "length bs = 4 \<Longrightarrow> [bs ! 0, bs ! 1, bs ! 2, bs ! 3] = bs"
  by (simp add: list_eq_iff_nth_eq less_Suc_eq numeral_eq_Suc)

lemma two_bytes: "length bs = 2 \<Longrightarrow> [bs ! 0, bs ! 1] = bs"
  by (simp add: list_eq_iff_nth_eq less_Suc_eq numeral_eq_Suc)

text \<open>The header and checksum words of a buffer, as slices.\<close>

lemma header_slices:
  assumes "9 \<le> length data"
  shows "[data ! 1, data ! 2] = take 2 (drop 1 data)" "[data ! 3, data ! 4] = take 2 (drop 3 data)"
    "[data ! 5, data ! 6, data ! 7, data ! 8] = take 4 (drop 5 data)"
  using assms two_bytes [of "take 2 (drop 1 data)"] two_bytes [of "take 2 (drop 3 data)"]
    four_bytes [of "take 4 (drop 5 data)"]
  by (simp_all add: numeral_2_eq_2)

lemma crc_slice:
  assumes "k + 4 \<le> length data"
  shows "[data ! k, data ! (k + 1), data ! (k + 2), data ! (k + 3)] = take 4 (drop k data)"
  using assms four_bytes [of "take 4 (drop k data)"] by simp

lemma deserialize_serialize:
  assumes wf: "rec_wf E r"
  shows "deserialize E (serialize r @ rest) = Inr (r, length (serialize r))"
proof -
  define d where "d = serialize r @ rest"
  define n where "n = length (rec_kv_bytes r)"
  have len: "unat (rec_rec_len r) = 13 + n" using wf by (simp add: rec_wf_def size_defs n_def)
  have l: "13 + n \<le> length d" by (simp add: d_def n_def length_serialize)
  have hdr: "d ! 0 = rec_flags r" "take 2 (drop 1 d) = to_le_bytes 2 (rec_key_offset r)"
    "take 2 (drop 3 d) = to_le_bytes 2 (rec_mod_rev_offset r)"
    "take 4 (drop 5 d) = to_le_bytes 4 (rec_rec_len r)"
    by (simp_all add: serialize_def d_def)
  have body: "take n (drop 9 d) = rec_kv_bytes r" "take (9 + n) d = rec_body r"
    "take 4 (drop (9 + n) d) = to_le_bytes 4 (rec_crc r)"
    by (simp add: serialize_def d_def n_def, simp_all add: serialize_body length_rec_body d_def n_def)
  have le: "from_le_bytes (to_le_bytes 2 w) = w" "from_le_bytes (to_le_bytes 4 v) = v"
    for w :: u16 and v :: u32 by (simp_all add: codec_simps)
  have fields: "from_le_bytes [d ! 1, d ! 2] = rec_key_offset r"
    "from_le_bytes [d ! 3, d ! 4] = rec_mod_rev_offset r"
    "from_le_bytes [d ! 5, d ! 6, d ! 7, d ! 8] = rec_rec_len r"
    "from_le_bytes [d ! (9 + n), d ! (9 + n + 1), d ! (9 + n + 2), d ! (9 + n + 3)] = rec_crc r"
    using l by (simp_all only: header_slices crc_slice hdr body le)
  have ok: "rec_crc r = crc32c E (rec_body r)" "\<not> n \<le> unat (rec_key_offset r)"
    "\<not> n < unat (rec_mod_rev_offset r) + 10"
    using wf by (simp_all add: rec_wf_def n_def)
  have n13: "13 + n - 9 - 4 = n" by simp
  have "deserialize E d = Inr (r, 13 + n)"
    unfolding deserialize_def Let_def size_defs fields(1,2,3) len hdr(1) n13 fields(4)
    using l ok by (simp add: body n_def [symmetric])
  then show ?thesis by (simp add: d_def n_def length_serialize)
qed

text \<open>Conversely, whatever is accepted is well-formed and serialises back to the bytes read.\<close>

lemma deserialize_sound:
  assumes "deserialize E d = Inr (r, n)"
  shows "rec_wf E r \<and> n = length (serialize r) \<and> take n d = serialize r"
proof -
  define ko :: u16 where "ko = from_le_bytes [d ! 1, d ! 2]"
  define mo :: u16 where "mo = from_le_bytes [d ! 3, d ! 4]"
  define rl :: u32 where "rl = from_le_bytes [d ! 5, d ! 6, d ! 7, d ! 8]"
  define k where "k = unat rl - 9 - 4"
  define kv where "kv = take k (drop 9 d)"
  define crc :: u32 where
    "crc = from_le_bytes [d ! (9 + k), d ! (9 + k + 1), d ! (9 + k + 2), d ! (9 + k + 3)]"
  note defs = ko_def [symmetric] mo_def [symmetric] rl_def [symmetric] k_def [symmetric]
    kv_def [symmetric] crc_def [symmetric]
  from assms have g: "13 \<le> unat rl" "unat rl \<le> length d" "crc32c E (take (9 + k) d) = crc"
    "unat ko < length kv" "unat mo + 10 \<le> length kv" "n = unat rl"
    "r = \<lparr>rec_flags = d ! 0, rec_kv_bytes = kv, rec_key_offset = ko, rec_mod_rev_offset = mo,
          rec_rec_len = rl, rec_crc = crc\<rparr>"
    unfolding deserialize_def Let_def size_defs defs by (auto split: if_splits)
  have k: "unat rl = 13 + k" "13 + k \<le> length d" using g k_def by simp_all
  then have lkv: "length kv = k" by (simp add: kv_def)
  have le: "to_le_bytes 2 (from_le_bytes (take 2 xs) :: u16) = take 2 xs" if "2 \<le> length xs" for xs
    using that by (simp add: codec_simps)
  have le4: "to_le_bytes 4 (from_le_bytes (take 4 xs) :: u32) = take 4 xs" if "4 \<le> length xs" for xs
    using that by (simp add: codec_simps)
  have words: "to_le_bytes 2 ko = take 2 (drop 1 d)" "to_le_bytes 2 mo = take 2 (drop 3 d)"
    "to_le_bytes 4 rl = take 4 (drop 5 d)" "to_le_bytes 4 crc = take 4 (drop (9 + k) d)"
    unfolding ko_def mo_def rl_def crc_def using k
    by (simp_all only: header_slices crc_slice) (simp_all add: le le4)
  have slice: "take a (drop i d) @ take b (drop j d) = take c (drop i d)"
    if "j = i + a" "c = a + b" for a b c i j
    using that by (simp add: take_add add.commute)
  have body: "rec_body r = take (9 + k) d"
  proof -
    have "[d ! 0] = take 1 d" using k by (cases d) auto
    then have "rec_body r = take 1 d @ take 2 (drop 1 d) @ take 2 (drop 3 d)
        @ take 4 (drop 5 d) @ take k (drop 9 d)"
      by (simp add: rec_body_def g(7) words kv_def)
    also have "\<dots> = take (9 + k) d"
      using slice [of 9 5 4 "4 + k" k] slice [of 5 3 2 "6 + k" "4 + k"]
        slice [of 3 1 2 "8 + k" "6 + k"] slice [of 1 0 1 "9 + k" "8 + k"] by simp
    finally show ?thesis .
  qed
  have "serialize r = take (9 + k) d @ take 4 (drop (9 + k) d)"
    unfolding serialize_body body by (simp add: g(7) words)
  also have "\<dots> = take n d" using slice [of "9 + k" 0 "9 + k" n 4] g(6) k by simp
  finally have "serialize r = take n d" .
  moreover have "rec_wf E r"
    using g k lkv body by (simp add: rec_wf_def size_defs)
  ultimately show ?thesis using g(2,6) by simp
qed

lemma deserialize_consumed:
  "deserialize E d = Inr (r, n) \<Longrightarrow> n = unat (from_le_bytes [d ! 5, d ! 6, d ! 7, d ! 8] :: u32)"
  by (auto simp: deserialize_def Let_def split: if_splits)

lemma rec_wf_new:
  assumes "crc_law E" and "13 + length (kv_blob key val cr mr ver lease) < 2 ^ 32"
  shows "rec_wf E (KvWalRecord_new E flags key val cr mr ver lease)"
proof -
  let ?r = "KvWalRecord_new E flags key val cr mr ver lease"
  have f: "rec_kv_bytes ?r = kv_blob key val cr mr ver lease" "rec_key_offset ?r = 1"
    "rec_mod_rev_offset ?r = word_of_nat (mod_rev_pos key cr)" "rec_flags ?r = flags"
    "rec_rec_len ?r = word_of_nat (13 + length (kv_blob key val cr mr ver lease))"
    by (simp_all add: KvWalRecord_new_def encode_kv_eq Let_def size_defs)
  have "rec_crc ?r = crc32c E (rec_body ?r)"
    using assms(1)
    by (simp add: KvWalRecord_new_def encode_kv_eq Let_def rec_body_def crc_law_def crc32c_def
        crc32c_append_def size_defs)
  moreover have "unat (rec_mod_rev_offset ?r) + 10 \<le> length (rec_kv_bytes ?r)"
    using mod_rev_pos_le [of key cr val mr ver lease]
      unat_of_nat_le [where 'a = 16, of "mod_rev_pos key cr"] by (simp only: f)
  moreover have "unat (rec_rec_len ?r) = 13 + length (rec_kv_bytes ?r)"
    unfolding f using assms(2) by (intro unat_of_nat_small) simp
  moreover have "1 < length (rec_kv_bytes ?r)" by (simp add: f length_kv_blob)
  ultimately show ?thesis by (simp add: rec_wf_def f(2) size_defs)
qed

lemma rec_fields_new [codec_simps]:
  "rec_kv_bytes (KvWalRecord_new E flags key val cr mr ver lease) = kv_blob key val cr mr ver lease"
  "rec_flags (KvWalRecord_new E flags key val cr mr ver lease) = flags"
  "rec_key_offset (KvWalRecord_new E flags key val cr mr ver lease) = 1"
  "rec_mod_rev_offset (KvWalRecord_new E flags key val cr mr ver lease) =
     word_of_nat (mod_rev_pos key cr)"
  by (simp_all add: KvWalRecord_new_def encode_kv_eq Let_def)

lemma rec_key_new [codec_simps]:
  "length key < 2 ^ 32 \<Longrightarrow> rec_key (KvWalRecord_new E flags key val cr mr ver lease) = Some key"
  by (simp add: rec_key_def rec_fields_new read_key_kv_blob)

lemma rec_mod_revision_new [codec_simps]:
  "mod_rev_pos key cr < 2 ^ 16 \<Longrightarrow>
     rec_mod_revision (KvWalRecord_new E flags key val cr mr ver lease) = Some mr"
  by (simp add: rec_mod_revision_def rec_fields_new read_mod_revision_kv_blob)

text \<open>C19. The parser of log records accepts exactly the serialized well-formed records: it returns a record and a length
  precisely when the input starts with the serialization of that record, whose lengths and checksum fit.\<close>

theorem deserialize_exact:
  "deserialize E d = Inr (r, n) \<longleftrightarrow> rec_wf E r \<and> n = length (serialize r) \<and> prefix (serialize r) d"
proof
  assume "deserialize E d = Inr (r, n)"
  from deserialize_sound [OF this] show "rec_wf E r \<and> n = length (serialize r) \<and> prefix (serialize r) d"
    by (metis take_is_prefix)
next
  assume "rec_wf E r \<and> n = length (serialize r) \<and> prefix (serialize r) d"
  then show "deserialize E d = Inr (r, n)" using deserialize_serialize by (auto elim!: prefixE)
qed

end
