(* ===== verification/Kv_Blob.thy ===== *)
theory Kv_Blob
  imports Wal_Record "HOL-Library.Monad_Syntax"
begin

text \<open>
  In-place access to encoded key-values: the key state of \<^verbatim>\<open>src/storage/state.rs\<close> with the
  10-byte patch of \<open>mod_revision\<close>, and the one-pass cursor of \<^verbatim>\<open>src/storage/store.rs\<close> that the
  sort uses.  An index or slice outside the buffer panics in the code; here it is \<open>None\<close>.  The
  lemmas show that the patch produces exactly the re-encoded blob and that the cursor reads back
  every field the encoder wrote.
\<close>

section \<open>Key states\<close>

record key_state =
  ks_value :: bytes
  ks_mod_revision :: u64
  ks_create_revision :: u64
  ks_version :: i64
  ks_lease :: i64
  ks_delete_revision :: u64
  ks_rebirth :: bool
  ks_kv_bytes :: bytes

definition is_alive :: "key_state \<Rightarrow> bool" where
  "is_alive ks \<longleftrightarrow> ks_delete_revision ks = 0"

definition to_key_value :: "libs \<Rightarrow> key_state \<Rightarrow> bytes \<Rightarrow> key_value" where
  "to_key_value E ks key =
     (let fields = \<lparr>kv_key = key, kv_create_revision = ks_create_revision ks,
                    kv_mod_revision = ks_mod_revision ks, kv_version = ks_version ks,
                    kv_value = ks_value ks, kv_lease = ks_lease ks\<rparr>
      in if ks_kv_bytes ks \<noteq> [] then
           (case x_kv_decode E (ks_kv_bytes ks) of
              Some kv \<Rightarrow> kv\<lparr>kv_key := key\<rparr>
            | None \<Rightarrow> fields)
         else fields)"

definition make_kv_bytes :: "bytes \<Rightarrow> key_state \<Rightarrow> bytes" where
  "make_kv_bytes key ks =
     (let (kv_bytes, _, _) = encode_kv key (ks_value ks) (ks_create_revision ks)
            (ks_mod_revision ks) (ks_version ks) (ks_lease ks)
      in kv_bytes)"

section \<open>Patching the revision in place\<close>

text \<open>The loop that advances to the terminating byte of a varint.\<close>

function skip_continuation :: "bytes \<Rightarrow> nat \<Rightarrow> nat option" where
  "skip_continuation kv_bytes i =
     (if i < length kv_bytes then
        if kv_bytes ! i AND 0x80 \<noteq> 0 then skip_continuation kv_bytes (i + 1) else Some i
      else None)"
  by pat_completeness auto
termination
  by (relation "measure (\<lambda>(kv_bytes, i). length kv_bytes - i)") auto

declare skip_continuation.simps [simp del]

definition mod_revision_field_offset :: "bytes \<Rightarrow> nat option" where
  "mod_revision_field_offset kv_bytes =
     (if length kv_bytes < 6 then None
      else
        let key_len = (ucast (kv_bytes ! 1) AND 0x7f :: u32)
              OR push_bit 7 (ucast (kv_bytes ! 2) AND 0x7f)
              OR push_bit 14 (ucast (kv_bytes ! 3) AND 0x7f)
              OR push_bit 21 (ucast (kv_bytes ! 4) AND 0x7f)
              OR push_bit 28 (ucast (kv_bytes ! 5) AND 0x0f);
            i = 1 + 5 + unat key_len + 1
        in map_option (\<lambda>i. i + 2) (skip_continuation kv_bytes i))"

definition with_mod_revision :: "bytes \<Rightarrow> u64 \<Rightarrow> bytes option" where
  "with_mod_revision kv_bytes revision =
     (case mod_revision_field_offset kv_bytes of
        None \<Rightarrow> None
      | Some ofs \<Rightarrow>
          if ofs + 10 > length kv_bytes then None
          else Some (take ofs kv_bytes @ encode_overlong_u64 revision @ drop (ofs + 10) kv_bytes))"

section \<open>The cursor\<close>

text \<open>A cursor is its buffer and its position \<open>i\<close>; each operation returns the new position.\<close>

definition cursor_skip :: "bytes \<Rightarrow> nat \<Rightarrow> nat \<Rightarrow> nat option" where
  "cursor_skip buf i n = (if i + n \<le> length buf then Some (i + n) else None)"

definition cursor_take :: "bytes \<Rightarrow> nat \<Rightarrow> nat \<Rightarrow> (bytes \<times> nat) option" where
  "cursor_take buf i n =
     (if i + n \<le> length buf then Some (take n (drop i buf), i + n) else None)"

definition cursor_varint :: "bytes \<Rightarrow> nat \<Rightarrow> (u64 \<times> nat) option" where
  "cursor_varint buf i =
     (if i \<le> length buf then
        case decode_varint_loop 0 0 0 (drop i buf) of
          None \<Rightarrow> None
        | Some (v, n) \<Rightarrow> Some (v, i + n)
      else None)"

definition cursor_overlong_u32 :: "bytes \<Rightarrow> nat \<Rightarrow> (u32 \<times> nat) option" where
  "cursor_overlong_u32 buf i =
     do { (bs, i) \<leftarrow> cursor_take buf i 5; v \<leftarrow> decode_overlong_u32 bs; Some (v, i) }"

definition cursor_overlong_u64 :: "bytes \<Rightarrow> nat \<Rightarrow> (u64 \<times> nat) option" where
  "cursor_overlong_u64 buf i =
     do { (bs, i) \<leftarrow> cursor_take buf i 10; v \<leftarrow> decode_overlong_u64 bs; Some (v, i) }"

record kv_fields =
  f_key :: bytes
  f_create_revision :: u64
  f_mod_revision :: u64
  f_version :: u64
  f_value :: bytes

definition parse_kv :: "bytes \<Rightarrow> kv_fields option" where
  "parse_kv buf =
     do { i \<leftarrow> cursor_skip buf 0 1;
          (key_len, i) \<leftarrow> cursor_overlong_u32 buf i;
          (key, i) \<leftarrow> cursor_take buf i (unat key_len);
          i \<leftarrow> cursor_skip buf i 1;
          (create_revision, i) \<leftarrow> cursor_varint buf i;
          i \<leftarrow> cursor_skip buf i 1;
          (mod_revision, i) \<leftarrow> cursor_overlong_u64 buf i;
          i \<leftarrow> cursor_skip buf i 1;
          (version, i) \<leftarrow> cursor_varint buf i;
          i \<leftarrow> cursor_skip buf i 1;
          (value_len, i) \<leftarrow> cursor_overlong_u32 buf i;
          (val, i) \<leftarrow> cursor_take buf i (unat value_len);
          Some \<lparr>f_key = key, f_create_revision = create_revision, f_mod_revision = mod_revision,
                f_version = version, f_value = val\<rparr> }"

section \<open>Lemmas\<close>

text \<open>Each cursor operation on a buffer split at its position.\<close>

lemma cursor_skip_at [codec_simps]:
  "length pre = i \<Longrightarrow> cursor_skip (pre @ b # post) i (Suc 0) = Some (i + 1)"
  by (simp add: cursor_skip_def)

lemma cursor_take_at [codec_simps]:
  "length pre = i \<Longrightarrow> length mid = n \<Longrightarrow> cursor_take (pre @ mid @ post) i n = Some (mid, i + n)"
  by (auto simp: cursor_take_def)

lemma cursor_varint_at [codec_simps]:
  "length pre = i \<Longrightarrow> cursor_varint (pre @ encode_varint v @ post) i =
     Some (v, i + length (encode_varint v))"
  using decode_varint_encode [of v post] by (auto simp: cursor_varint_def decode_varint_def)

lemma cursor_overlong_u32_at [codec_simps]:
  "length pre = i \<Longrightarrow> cursor_overlong_u32 (pre @ encode_overlong_u32 v @ post) i = Some (v, i + 5)"
  using decode_overlong_u32_encode [of v "[]"]
  by (simp add: cursor_overlong_u32_def cursor_take_at)

lemma cursor_overlong_u64_at [codec_simps]:
  "length pre = i \<Longrightarrow> cursor_overlong_u64 (pre @ encode_overlong_u64 v @ post) i = Some (v, i + 10)"
  using decode_overlong_u64_encode [of v "[]"]
  by (simp add: cursor_overlong_u64_def cursor_take_at)

lemma make_kv_bytes_eq [codec_simps]:
  "make_kv_bytes key ks = kv_blob key (ks_value ks) (ks_create_revision ks) (ks_mod_revision ks)
     (ks_version ks) (ks_lease ks)"
  by (simp add: make_kv_bytes_def encode_kv_eq)

lemma parse_kv_blob:
  assumes "length key < 2 ^ 32" and "length val < 2 ^ 32"
  shows "parse_kv (kv_blob key val cr mr ver lease) =
     Some \<lparr>f_key = key, f_create_revision = cr, f_mod_revision = mr, f_version = ver, f_value = val\<rparr>"
proof -
  have u: "unat (word_of_nat (length key) :: u32) = length key"
    "unat (word_of_nat (length val) :: u32) = length val"
    using assms by (simp_all add: unat_of_nat_small)
  let ?k = "encode_overlong_u32 (word_of_nat (length key))"
  let ?v = "encode_overlong_u32 (word_of_nat (length val))"
  define b where "b = kv_blob key val cr mr ver lease"
  have b: "b = [] @ 0x0a # ?k @ key @ 0x10 # encode_varint cr @ 0x18 # encode_overlong_u64 mr
      @ 0x20 # encode_varint ver @ 0x2a # ?v @ val @ 0x30 # encode_varint lease"
    by (simp add: b_def kv_blob_eq)
  define p1 where "p1 = [0x0a :: u8]"
  define p2 where "p2 = p1 @ ?k"
  define p3 where "p3 = p2 @ key"
  define p4 where "p4 = p3 @ [0x10]"
  define p5 where "p5 = p4 @ encode_varint cr"
  define p6 where "p6 = p5 @ [0x18]"
  define p7 where "p7 = p6 @ encode_overlong_u64 mr"
  define p8 where "p8 = p7 @ [0x20]"
  define p9 where "p9 = p8 @ encode_varint ver"
  define p10 where "p10 = p9 @ [0x2a]"
  define p11 where "p11 = p10 @ ?v"
  note ps = p1_def p2_def p3_def p4_def p5_def p6_def p7_def p8_def p9_def p10_def p11_def
  have "cursor_skip b 0 1 = Some (length p1)"
    using cursor_skip_at [of "[]" 0] by (simp add: b p1_def)
  moreover have "cursor_overlong_u32 b (length p1) = Some (word_of_nat (length key), length p2)"
    using cursor_overlong_u32_at [of p1 "length p1"] by (simp add: b ps)
  moreover have "cursor_take b (length p2) (length key) = Some (key, length p3)"
    using cursor_take_at [of p2 "length p2" key "length key"] by (simp add: b ps)
  moreover have "cursor_skip b (length p3) 1 = Some (length p4)"
    using cursor_skip_at [of p3 "length p3"] by (simp add: b ps)
  moreover have "cursor_varint b (length p4) = Some (cr, length p5)"
    using cursor_varint_at [of p4 "length p4"] by (simp add: b ps)
  moreover have "cursor_skip b (length p5) 1 = Some (length p6)"
    using cursor_skip_at [of p5 "length p5"] by (simp add: b ps)
  moreover have "cursor_overlong_u64 b (length p6) = Some (mr, length p7)"
    using cursor_overlong_u64_at [of p6 "length p6"] by (simp add: b ps)
  moreover have "cursor_skip b (length p7) 1 = Some (length p8)"
    using cursor_skip_at [of p7 "length p7"] by (simp add: b ps)
  moreover have "cursor_varint b (length p8) = Some (ver, length p9)"
    using cursor_varint_at [of p8 "length p8"] by (simp add: b ps)
  moreover have "cursor_skip b (length p9) 1 = Some (length p10)"
    using cursor_skip_at [of p9 "length p9"] by (simp add: b ps)
  moreover have "cursor_overlong_u32 b (length p10) = Some (word_of_nat (length val), length p11)"
    using cursor_overlong_u32_at [of p10 "length p10"] by (simp add: b ps)
  moreover have "cursor_take b (length p11) (length val) = Some (val, length p11 + length val)"
    using cursor_take_at [of p11 "length p11" val "length val"] by (simp add: b ps)
  ultimately show ?thesis
    by (simp add: parse_kv_def b_def [symmetric] u)
qed

lemma bit_u32_and_7f: "bit (ucast (b :: u8) AND 0x7f :: u32) j \<longleftrightarrow> j < 7 \<and> bit b j"
proof -
  have "(0x7f :: u32) = mask 7" by (simp add: mask_eq_exp_minus_1)
  then show ?thesis by (simp only: bit_and_iff bit_mask_iff) (auto simp: bit_ucast_iff)
qed

lemma bit_u32_and_0f: "bit (ucast (b :: u8) AND 0x0f :: u32) j \<longleftrightarrow> j < 4 \<and> bit b j"
proof -
  have "(0x0f :: u32) = mask 4" by (simp add: mask_eq_exp_minus_1)
  then show ?thesis by (simp only: bit_and_iff bit_mask_iff) (auto simp: bit_ucast_iff)
qed

lemma bit_u8_and_0f: "bit (b AND 0x0f :: u8) j \<longleftrightarrow> j < 4 \<and> bit b j"
proof -
  have "(0x0f :: u8) = mask 4" by (simp add: mask_eq_exp_minus_1)
  then show ?thesis by (simp only: bit_and_iff bit_mask_iff) (auto)
qed

lemma overlong_key_len:
  fixes v :: u32
  defines "bs \<equiv> encode_overlong_u32 v"
  shows "(ucast (bs ! 0) AND 0x7f) OR push_bit 7 (ucast (bs ! 1) AND 0x7f)
     OR push_bit 14 (ucast (bs ! 2) AND 0x7f) OR push_bit 21 (ucast (bs ! 3) AND 0x7f)
     OR push_bit 28 (ucast (bs ! 4) AND 0x0f) = v"
proof (rule bit_word_eqI)
  fix k assume k: "k < LENGTH(32)"
  have nth: "j < 7 \<Longrightarrow> i < 4 \<Longrightarrow> bit (bs ! i) j = bit v (7 * i + j)" for i j
    by (simp add: bs_def encode_overlong_u32_def nth_append bit_septet bit_drop_bit_eq mult.commute)
  have last: "bit (bs ! 4) j \<longleftrightarrow> j < 4 \<and> bit v (28 + j)" for j
    by (auto simp: bs_def encode_overlong_u32_def nth_append bit_u8_and_0f bit_ucast_iff bit_drop_bit_eq simp del: bit_numeral_word_iff)
  have "k < 32" using k by simp
  then show "bit ((ucast (bs ! 0) AND 0x7f :: u32) OR push_bit 7 (ucast (bs ! 1) AND 0x7f)
     OR push_bit 14 (ucast (bs ! 2) AND 0x7f) OR push_bit 21 (ucast (bs ! 3) AND 0x7f)
     OR push_bit 28 (ucast (bs ! 4) AND 0x0f)) k = bit v k" (is "bit ?L k = _")
  proof -
    have e: "bit ?L k \<longleftrightarrow> k < 7 \<and> bit (bs ! 0) k
        \<or> 7 \<le> k \<and> k < 14 \<and> bit (bs ! 1) (k - 7)
        \<or> 14 \<le> k \<and> k < 21 \<and> bit (bs ! 2) (k - 14)
        \<or> 21 \<le> k \<and> k < 28 \<and> bit (bs ! 3) (k - 21)
        \<or> 28 \<le> k \<and> k < 32 \<and> bit (bs ! 4) (k - 28)"
      using k by (simp only: bit_or_iff bit_push_bit_iff bit_u32_and_7f bit_u32_and_0f possible_bit_word less_diff_conv2)
        auto
    consider "k < 7" | "7 \<le> k" "k < 14" | "14 \<le> k" "k < 21" | "21 \<le> k" "k < 28" | "28 \<le> k"
      by linarith
    then show ?thesis unfolding e
      using \<open>k < 32\<close> nth [of k 0] nth [of "k - 7" 1] nth [of "k - 14" 2] nth [of "k - 21" 3]
        last [of "k - 28"]
      by cases (simp_all add: less_diff_conv2)
  qed
qed

lemma skip_continuation_run:
  assumes "\<forall>b \<in> set bs. b AND 0x80 \<noteq> 0" and "e AND 0x80 = 0"
  shows "skip_continuation (pre @ bs @ e # post) (length pre) = Some (length pre + length bs)"
  using assms(1)
proof (induction bs arbitrary: pre)
  case Nil
  then show ?case using assms(2)
    by (simp add: skip_continuation.simps [of "pre @ e # post"])
next
  case (Cons b bs)
  then have "skip_continuation ((pre @ [b]) @ bs @ e # post) (length (pre @ [b])) =
      Some (length (pre @ [b]) + length bs)" by (intro Cons.IH) auto
  with Cons.prems show ?case
    by (simp add: skip_continuation.simps [of "pre @ b # bs @ e # post" "length pre"])
qed

lemma mod_revision_field_offset_blob:
  assumes "length key < 2 ^ 32"
  shows "mod_revision_field_offset (kv_blob key val cr mr ver lease) = Some (mod_rev_pos key cr)"
proof -
  let ?v = "word_of_nat (length key) :: u32"
  define b where "b = kv_blob key val cr mr ver lease"
  obtain bs e where cr: "encode_varint cr = bs @ [e]" "\<forall>b \<in> set bs. b AND 0x80 \<noteq> 0" "e AND 0x80 = 0"
    using encode_varint_shape by blast
  have b: "b = (0x0a # encode_overlong_u32 ?v @ key @ [0x10]) @ bs @ e # 0x18 #
      encode_overlong_u64 mr @ kv_after val ver lease"
    by (simp add: b_def kv_blob_split kv_before_def cr(1))
  have "b ! Suc i = encode_overlong_u32 ?v ! i" if "i < 5" for i
    using that by (simp add: b nth_append)
  from this [of 0] this [of 1] this [of 2] this [of 3] this [of 4]
  have bytes: "b ! 1 = encode_overlong_u32 ?v ! 0" "b ! 2 = encode_overlong_u32 ?v ! 1"
    "b ! 3 = encode_overlong_u32 ?v ! 2" "b ! 4 = encode_overlong_u32 ?v ! 3"
    "b ! 5 = encode_overlong_u32 ?v ! 4" by (simp_all add: numeral_eq_Suc)
  have "skip_continuation b (1 + 5 + length key + 1) = Some (length key + 7 + length bs)"
    using skip_continuation_run [OF cr(2,3), of "0x0a # encode_overlong_u32 ?v @ key @ [0x10]"
        "0x18 # encode_overlong_u64 mr @ kv_after val ver lease"] by (simp add: b)
  moreover have "\<not> length b < 6" by (simp add: b)
  ultimately have "mod_revision_field_offset b = Some (mod_rev_pos key cr)"
    unfolding mod_revision_field_offset_def bytes overlong_key_len Let_def
    using assms by (simp add: unat_of_nat_small mod_rev_pos_def cr(1))
  then show ?thesis by (simp add: b_def)
qed

lemma with_mod_revision_blob:
  assumes "length key < 2 ^ 32"
  shows "with_mod_revision (kv_blob key val cr mr ver lease) r = Some (kv_blob key val cr r ver lease)"
  using mod_rev_pos_le [of key cr val mr ver lease]
  by (simp add: with_mod_revision_def mod_revision_field_offset_blob [OF assms])
    (simp add: kv_blob_split)

end
