(* ===== verification/Wal_File.thy ===== *)
theory Wal_File
  imports Wal_Record
begin

text \<open>
  The log file of \<^verbatim>\<open>src/storage/wal.rs\<close>: appending records, and the streaming scan that start-up,
  historical reads and watch replay share.  A file is its bytes; every \<open>write_all\<close> consumes one
  entry of a script of environment outcomes, so that a failed write may leave any prefix of its
  data behind.  The lemmas show that the scan returns exactly the complete records of a log, also
  when the log ends in a torn record.
\<close>

section \<open>The file and its operations\<close>

text \<open>\<open>wf_content\<close> are the bytes behind the open handle.  Normally that is the file named \<open>wf_path\<close>
  and \<open>wf_detached\<close> is \<open>None\<close>; after a compaction that could not open the log it had just renamed, the
  handle still writes to the old, unlinked file, and \<open>wf_detached\<close> holds the bytes of the file at the
  path.\<close>

record wal_file =
  wf_content :: bytes
  wf_path :: string
  wf_dirty :: bool
  wf_faults :: "nat option list"
  wf_detached :: "bytes option"

definition WalFile_open :: "string \<Rightarrow> bytes option \<Rightarrow> nat option list \<Rightarrow> wal_file" where
  "WalFile_open path existing faults =
     \<lparr>wf_content = (case existing of None \<Rightarrow> [] | Some c \<Rightarrow> c), wf_path = path, wf_dirty = False,
      wf_faults = faults, wf_detached = None\<rparr>"

text \<open>\<open>write_all\<close> of the standard library on a file opened for appending: all bytes, or an error
  after some prefix (\<open>Some n\<close> in the script).\<close>

definition write_all :: "bytes \<Rightarrow> wal_file \<Rightarrow> (io_error + unit) \<times> wal_file" where
  "write_all data f =
     (case wf_faults f of
        [] \<Rightarrow> (Inr (), f\<lparr>wf_content := wf_content f @ data\<rparr>)
      | None # fs \<Rightarrow> (Inr (), f\<lparr>wf_content := wf_content f @ data, wf_faults := fs\<rparr>)
      | Some n # fs \<Rightarrow> (Inl (OtherIo ''write''),
                        f\<lparr>wf_content := wf_content f @ take n data, wf_faults := fs\<rparr>))"

definition append_kv :: "kv_wal_record \<Rightarrow> wal_file \<Rightarrow> (io_error + unit) \<times> wal_file" where
  "append_kv r f =
     (let data = serialize r in
      case write_all data f of
        (Inl e, f) \<Rightarrow> (Inl e, f)
      | (Inr _, f) \<Rightarrow> (Inr (), f\<lparr>wf_dirty := True\<rparr>))"

fun append_kv_batch :: "kv_wal_record list \<Rightarrow> wal_file \<Rightarrow> (io_error + unit) \<times> wal_file" where
  "append_kv_batch [] f = (Inr (), f\<lparr>wf_dirty := True\<rparr>)"
| "append_kv_batch (r # rs) f =
     (case write_all (serialize r) f of
        (Inl e, f) \<Rightarrow> (Inl e, f)
      | (Inr _, f) \<Rightarrow> append_kv_batch rs f)"

text \<open>The outcome of the system call is the argument \<open>synced\<close>.\<close>

definition sync_all :: "io_error + unit \<Rightarrow> wal_file \<Rightarrow> (io_error + unit) \<times> wal_file" where
  "sync_all synced f =
     (case synced of Inl e \<Rightarrow> (Inl e, f) | Inr _ \<Rightarrow> (Inr (), f\<lparr>wf_dirty := False\<rparr>))"

section \<open>Scanning\<close>

text \<open>
  The loop of \<open>scan_kv_file\<close> on the bytes still to be read; \<open>cur\<close> is the offset it reports.  The
  first component lists the records handed to the callback, the second is the function's result.
\<close>

function scan_kv_loop :: "libs \<Rightarrow> bytes \<Rightarrow> nat \<Rightarrow> kv_wal_record list \<times> (io_error + nat)" where
  "scan_kv_loop E buf cur =
     (if length buf < KV_HEADER_SIZE then ([], Inr cur)
      else
        let header = take KV_HEADER_SIZE buf;
            rec_len = unat (from_le_bytes [header ! 5, header ! 6, header ! 7, header ! 8] :: u32)
        in
        if rec_len < KV_HEADER_SIZE + KV_CRC_SIZE
        then ([], Inl (InvalidData ''rec_len too small''))
        else if length buf < rec_len then ([], Inr cur)
        else case deserialize E (take rec_len buf) of
          Inl e \<Rightarrow> ([], Inr cur)
        | Inr (r, consumed) \<Rightarrow>
            (let (rs, res) = scan_kv_loop E (drop rec_len buf) (cur + consumed) in (r # rs, res)))"
  by pat_completeness auto
termination
  by (relation "measure (\<lambda>(E, buf, cur). length buf)") (auto simp: size_defs)

declare scan_kv_loop.simps [simp del]

definition scan_kv_file ::
    "libs \<Rightarrow> bytes \<Rightarrow> nat \<Rightarrow> kv_wal_record list \<times> (io_error + nat)" where
  "scan_kv_file E content offset = scan_kv_loop E (drop offset content) offset"

definition scan_kv :: "libs \<Rightarrow> wal_file \<Rightarrow> nat \<Rightarrow> kv_wal_record list \<times> (io_error + nat)" where
  "scan_kv E f offset = scan_kv_file E (wf_content f) offset"

definition scan_kv_collect :: "libs \<Rightarrow> wal_file \<Rightarrow> io_error + kv_wal_record list" where
  "scan_kv_collect E f =
     (case scan_kv E f 0 of (rs, Inl e) \<Rightarrow> Inl e | (rs, Inr _) \<Rightarrow> Inr rs)"

text \<open>\<open>count_wal_records\<close>: the loop over the offset, on the bytes from that offset on.\<close>

function count_wal_records :: "bytes \<Rightarrow> nat" where
  "count_wal_records data =
     (if KV_HEADER_SIZE + KV_CRC_SIZE \<le> length data then
        let rec_len = unat (from_le_bytes [data ! 5, data ! 6, data ! 7, data ! 8] :: u32) in
        if rec_len < KV_HEADER_SIZE + KV_CRC_SIZE \<or> rec_len > length data then 0
        else 1 + count_wal_records (drop rec_len data)
      else 0)"
  by pat_completeness auto
termination
  by (relation "measure length") (auto simp: size_defs)

declare count_wal_records.simps [simp del]

section \<open>Lemmas\<close>

abbreviation log_bytes :: "kv_wal_record list \<Rightarrow> bytes" where
  "log_bytes rs \<equiv> concat (map serialize rs)"

lemma header_rec_len:
  assumes "9 \<le> n" and "n \<le> length (serialize r)"
  shows "from_le_bytes [(take n (serialize r) @ rest) ! 5, (take n (serialize r) @ rest) ! 6,
           (take n (serialize r) @ rest) ! 7, (take n (serialize r) @ rest) ! 8] = rec_rec_len r"
proof -
  let ?d = "take n (serialize r) @ rest"
  have "drop 5 ?d = take (n - 5) (drop 5 (serialize r)) @ rest" using assms by (simp add: drop_take)
  then have "take 4 (drop 5 ?d) = take 4 (drop 5 (serialize r))" using assms by simp
  also have "\<dots> = to_le_bytes 4 (rec_rec_len r)" by (simp add: serialize_def)
  finally show ?thesis using assms header_slices(3) [of ?d]
    by (simp add: codec_simps)
qed

lemma scan_short: "length buf < 9 \<Longrightarrow> scan_kv_loop E buf cur = ([], Inr cur)"
  by (simp add: scan_kv_loop.simps [of E buf] size_defs)

lemma scan_step:
  assumes "rec_wf E r"
  shows "scan_kv_loop E (serialize r @ rest) cur =
     (let (rs, res) = scan_kv_loop E rest (cur + length (serialize r)) in (r # rs, res))"
proof -
  let ?d = "serialize r @ rest"
  have h: "from_le_bytes [?d ! 5, ?d ! 6, ?d ! 7, ?d ! 8] = rec_rec_len r"
    using header_rec_len [of "length (serialize r)" r rest] by (simp add: length_serialize)
  then have h': "from_le_bytes [serialize r ! 5, serialize r ! 6, serialize r ! 7, serialize r ! 8]
      = rec_rec_len r"
    by (simp add: nth_append length_serialize)
  have l: "unat (rec_rec_len r) = length (serialize r)" "13 \<le> length (serialize r)"
    using assms by (simp_all add: rec_wf_len length_serialize)
  show ?thesis
    using deserialize_serialize [OF assms, of "[]"] l
    by (simp add: scan_kv_loop.simps [of E ?d] h h' size_defs)
qed

lemma scan_log_append:
  assumes "\<forall>r \<in> set rs. rec_wf E r"
  shows "scan_kv_loop E (log_bytes rs @ rest) cur =
     (let (rs', res) = scan_kv_loop E rest (cur + length (log_bytes rs)) in (rs @ rs', res))"
  using assms
proof (induction rs arbitrary: cur)
  case Nil
  then show ?case by simp
next
  case (Cons r rs)
  then show ?case
    by (simp add: scan_step add.assoc split: prod.split)
qed

lemma scan_torn:
  assumes "rec_wf E r" and "n < length (serialize r)"
  shows "scan_kv_loop E (take n (serialize r)) cur = ([], Inr cur)"
proof (cases "n < 9")
  case True
  then show ?thesis by (intro scan_short) simp
next
  case False
  then have "unat (rec_rec_len r) = length (serialize r)" "13 \<le> length (serialize r)"
    using assms(1) by (simp_all add: rec_wf_len length_serialize)
  with False assms(2) show ?thesis
    using header_rec_len [of n r "[]"]
    by (simp add: scan_kv_loop.simps [of E "take n (serialize r)"] size_defs)
qed

lemma scan_kv_loop_Nil [simp]: "scan_kv_loop E [] cur = ([], Inr cur)"
  by (simp add: scan_short)

lemma count_log_append:
  assumes "\<forall>r \<in> set rs. rec_wf E r"
  shows "count_wal_records (log_bytes rs) = length rs"
  using assms
proof (induction rs)
  case Nil
  then show ?case by (simp add: count_wal_records.simps size_defs)
next
  case (Cons r rs)
  let ?d = "serialize r @ log_bytes rs"
  have h: "from_le_bytes [?d ! 5, ?d ! 6, ?d ! 7, ?d ! 8] = rec_rec_len r"
    using header_rec_len [of "length (serialize r)" r "log_bytes rs"] by (simp add: length_serialize)
  have l: "unat (rec_rec_len r) = length (serialize r)" "13 \<le> length (serialize r)"
    using Cons.prems by (auto simp: rec_wf_len length_serialize)
  with Cons show ?case by (simp add: count_wal_records.simps [of ?d] h size_defs)
qed

text \<open>Whatever bytes a file holds, the records the scan reports are well-formed and are exactly the
  bytes up to the offset it returns.\<close>

lemma scan_sound:
  assumes "scan_kv_loop E buf cur = (rs, res)"
  shows "(\<forall>r \<in> set rs. rec_wf E r) \<and> prefix (log_bytes rs) buf
    \<and> (\<forall>c. res = Inr c \<longrightarrow> c = cur + length (log_bytes rs))"
  using assms
proof (induction E buf cur arbitrary: rs res rule: scan_kv_loop.induct)
  case (1 E buf cur)
  define h where "h = take KV_HEADER_SIZE buf"
  define n where "n = unat (from_le_bytes [h ! 5, h ! 6, h ! 7, h ! 8] :: u32)"
  note eq = "1.prems" [unfolded scan_kv_loop.simps [of E buf] Let_def h_def [symmetric]
    n_def [symmetric]]
  consider (stop) "rs = []" "\<forall>c. res = Inr c \<longrightarrow> c = cur"
    | (step) r k where "\<not> length buf < KV_HEADER_SIZE" "\<not> n < KV_HEADER_SIZE + KV_CRC_SIZE"
      "\<not> length buf < n" "deserialize E (take n buf) = Inr (r, k)"
      "(case scan_kv_loop E (drop n buf) (cur + k) of (rs, res) \<Rightarrow> (r # rs, res)) = (rs, res)"
    using eq by (fastforce split: if_splits sum.splits prod.splits)
  then show ?case
  proof cases
    case stop
    then show ?thesis by simp
  next
    case step
    then obtain rs' where rs': "rs = r # rs'" "scan_kv_loop E (drop n buf) (cur + k) = (rs', res)"
      by (auto split: prod.splits)
    from "1.IH" [OF step(1) h_def n_def step(2,3,4) refl rs'(2)]
    have IH: "\<forall>r \<in> set rs'. rec_wf E r" "prefix (log_bytes rs') (drop n buf)"
      "\<forall>c. res = Inr c \<longrightarrow> c = cur + k + length (log_bytes rs')" by auto
    from deserialize_sound [OF step(4)]
    have r: "rec_wf E r" "k = length (serialize r)" "take k (take n buf) = serialize r" by auto
    have "[take n buf ! 5, take n buf ! 6, take n buf ! 7, take n buf ! 8]
        = [h ! 5, h ! 6, h ! 7, h ! 8]" using step(2) by (simp add: h_def size_defs)
    with deserialize_consumed [OF step(4)] have "k = n" by (simp add: n_def)
    with r(3) have "serialize r = take n buf" by simp
    then have split: "serialize r @ drop n buf = buf" by simp
    from IH(2) have "prefix (log_bytes rs) (serialize r @ drop n buf)" by (simp add: rs'(1))
    then have "prefix (log_bytes rs) buf" by (simp only: split)
    with IH r(1,2) rs'(1) show ?thesis by (simp add: add.assoc)
  qed
qed

section \<open>What an append leaves in the file\<close>

lemma append_kv_ok:
  "append_kv r w = (Inr u, w') \<Longrightarrow> wf_content w' = wf_content w @ serialize r"
  by (auto simp: append_kv_def write_all_def Let_def split: prod.splits list.splits option.splits)

lemma append_kv_err:
  "append_kv r w = (Inl e, w') \<Longrightarrow> \<exists>n. wf_content w' = wf_content w @ take n (serialize r)"
  by (auto simp: append_kv_def write_all_def Let_def split: prod.splits list.splits option.splits) blast

lemma append_kv_batch_ok:
  "append_kv_batch rs w = (Inr u, w') \<Longrightarrow> wf_content w' = wf_content w @ log_bytes rs"
  by (induction rs w rule: append_kv_batch.induct)
    (auto simp: write_all_def split: prod.splits list.splits option.splits)

lemma append_kv_batch_err:
  "append_kv_batch rs w = (Inl e, w') \<Longrightarrow>
     \<exists>n r rs' ss. rs = rs' @ r # ss \<and> wf_content w' = wf_content w @ log_bytes rs' @ take n (serialize r)"
proof (induction rs w rule: append_kv_batch.induct)
  case (2 r rs w)
  show ?case
  proof (cases "write_all (serialize r) w")
    case (Pair x w1)
    show ?thesis
    proof (cases x)
      case (Inl e1)
      with Pair "2.prems" have "append_kv r w = (Inl e1, w')" by (simp add: append_kv_def)
      from append_kv_err [OF this] obtain n where
        "wf_content w' = wf_content w @ take n (serialize r)" ..
      then show ?thesis
        by (intro exI [of _ n] exI [of _ r] exI [of _ "[]"] exI [of _ rs]) simp
    next
      case (Inr u)
      with Pair have c: "wf_content w1 = wf_content w @ serialize r"
        by (auto simp: write_all_def split: list.splits option.splits)
      from "2.IH" [OF Pair [symmetric] Inr] "2.prems" Pair Inr obtain n r' rs' ss where
        "rs = rs' @ r' # ss" "wf_content w' = wf_content w1 @ log_bytes rs' @ take n (serialize r')"
        by auto
      with c show ?thesis by (intro exI [of _ n] exI [of _ r'] exI [of _ "r # rs'"] exI [of _ ss]) simp
    qed
  qed
qed simp

text \<open>Without a fault in the script every append succeeds.\<close>

lemma append_kv_batch_no_fault:
  "wf_faults w = [] \<Longrightarrow>
     append_kv_batch rs w = (Inr (), w\<lparr>wf_content := wf_content w @ log_bytes rs, wf_dirty := True\<rparr>)"
  by (induction rs arbitrary: w) (simp_all add: write_all_def)

lemma append_kv_no_fault:
  "wf_faults w = [] \<Longrightarrow>
     append_kv r w = (Inr (), w\<lparr>wf_content := wf_content w @ serialize r, wf_dirty := True\<rparr>)"
  by (simp add: append_kv_def write_all_def Let_def)

lemma scan_stop:
  assumes "fst (scan_kv_loop E buf cur) = []"
  shows "snd (scan_kv_loop E buf cur) =
     (if 9 \<le> length buf \<and> unat (from_le_bytes (take 4 (drop 5 buf)) :: u32) < 13
      then Inl (InvalidData ''rec_len too small'') else Inr cur)"
proof (cases "length buf < 9")
  case True
  then show ?thesis by (simp add: scan_short)
next
  case False
  then have "take 4 (drop 5 buf) = [buf ! 5, buf ! 6, buf ! 7, buf ! 8]"
    by (intro nth_equalityI) (auto simp: nth_Cons numeral_eq_Suc split: nat.splits)
  with False assms show ?thesis
    by (auto simp: scan_kv_loop.simps [of E buf] size_defs Let_def split: if_splits sum.splits prod.splits)
qed

text \<open>C20. The scan of a log is total and exact on any bytes.  Whatever its result, the records it hands out are
  well-formed, there is at most one for every thirteen bytes, their serializations are what follows the offset, and no
  complete well-formed record starts behind them.  The scan fails exactly when a whole header follows that announces a
  record shorter than thirteen bytes; otherwise, also on a torn or damaged end, it reports the position behind the
  records.\<close>

theorem scan_exact:
  "let rs = fst (scan_kv_file E content offset); rest = drop (length (log_bytes rs)) (drop offset content) in
     list_all (rec_wf E) rs \<and> 13 * length rs \<le> length content \<and> drop offset content = log_bytes rs @ rest
     \<and> (\<nexists>r. rec_wf E r \<and> prefix (serialize r) rest)
     \<and> snd (scan_kv_file E content offset) =
         (if 9 \<le> length rest \<and> unat (from_le_bytes (take 4 (drop 5 rest)) :: u32) < 13
          then Inl (InvalidData ''rec_len too small'') else Inr (offset + length (log_bytes rs)))"
proof -
  define buf where "buf = drop offset content"
  obtain rs res where s: "scan_kv_loop E buf offset = (rs, res)" by fastforce
  from scan_sound [OF this] have wf: "\<forall>r \<in> set rs. rec_wf E r" and pre: "prefix (log_bytes rs) buf" by auto
  define rest where "rest = drop (length (log_bytes rs)) buf"
  define cur where "cur = offset + length (log_bytes rs)"
  have buf: "buf = log_bytes rs @ rest" using pre by (auto simp: rest_def elim: prefixE)
  have stop: "fst (scan_kv_loop E rest cur) = []" and res: "res = snd (scan_kv_loop E rest cur)"
    using s scan_log_append [OF wf, of rest offset] by (simp_all add: buf cur_def split: prod.splits)
  have none: "\<not> prefix (serialize r) rest" if "rec_wf E r" for r
    using stop scan_step [OF that, of _ cur] by (auto elim!: prefixE split: prod.splits)
  have "13 * length xs \<le> length (log_bytes xs)" for xs
    by (induction xs) (simp_all add: length_serialize)
  moreover have "length (log_bytes rs) \<le> length content" using prefix_length_le [OF pre] by (simp add: buf_def)
  ultimately have len: "13 * length rs \<le> length content" by (rule order_trans)
  have scan: "scan_kv_file E content offset = (rs, res)" using s by (simp add: scan_kv_file_def buf_def)
  show ?thesis
    unfolding scan Let_def fst_conv snd_conv buf_def [symmetric] rest_def [symmetric]
    using wf len buf none scan_stop [OF stop] res by (auto simp: list_all_iff cur_def)
qed

end
