(* ===== verification/Store_State.thy ===== *)
theory Store_State
  imports Btree Rpc Kv_Blob Wal_File
begin

text \<open>
  The in-memory state of the store (\<^verbatim>\<open>src/storage/state.rs\<close>), the primitive transitions that put
  and delete one key (\<^verbatim>\<open>src/storage/apply.rs\<close>), and the delivery of their events to the
  registered watchers (\<^verbatim>\<open>src/storage/watcher.rs\<close>).  A watcher's unbounded channel is a number; the
  events sent are collected, in order, in the field \<open>st_outbox\<close>.
\<close>

section \<open>State\<close>

datatype event_type = EvPut | EvDelete

record watch_event =
  ev_revision :: u64
  ev_type :: event_type
  ev_key :: bytes
  ev_kv_bytes :: bytes
  ev_prev_kv_bytes :: bytes

record watch_registration =
  wr_key :: bytes
  wr_range_end :: bytes
  wr_start_revision :: u64
  wr_sender :: nat
  wr_watch_id :: i64
  wr_progress_notify :: bool
  wr_filters :: "i32 list"
  wr_prev_kv :: bool
  wr_bound :: range_bound

text \<open>An \<open>Instant\<close> is a number of nanoseconds on the monotonic clock.\<close>

record lease_state =
  ls_id :: i64
  ls_ttl :: i64
  ls_expires_at :: nat
  ls_key_count :: u64

text \<open>\<open>BTreeMap<i64, LeaseState>\<close> is ordered by the signed value of the id, hence the integer keys.
  \<open>st_expiry_notify\<close> is the stored permit of the \<open>Notify\<close> that wakes the expiry task.\<close>

record store_state =
  st_keys :: "(bytes, key_state) btree"
  st_leases :: "(int, lease_state) btree"
  st_watchers :: "watch_registration list"
  st_next_rev :: u64
  st_next_lease_id :: i64
  st_key_count :: u64
  st_compact_rev :: u64
  st_wal :: wal_file
  st_expiry_notify :: bool
  st_outbox :: "(nat \<times> watch_event) list"

definition StoreState_new :: "wal_file \<Rightarrow> store_state" where
  "StoreState_new w =
     \<lparr>st_keys = [], st_leases = [], st_watchers = [], st_next_rev = 1, st_next_lease_id = 1,
      st_key_count = 0, st_compact_rev = 0, st_wal = w, st_expiry_notify = False, st_outbox = []\<rparr>"

definition alloc_revision :: "store_state \<Rightarrow> u64 \<times> store_state" where
  "alloc_revision s = (let r = st_next_rev s in (r, s\<lparr>st_next_rev := st_next_rev s + 1\<rparr>))"

definition current_revision :: "store_state \<Rightarrow> u64" where
  "current_revision s = (if st_next_rev s = 0 then 0 else st_next_rev s - 1)"

definition alloc_lease_id :: "store_state \<Rightarrow> i64 \<times> store_state" where
  "alloc_lease_id s =
     (let lease_id = st_next_lease_id s in (lease_id, s\<lparr>st_next_lease_id := st_next_lease_id s + 1\<rparr>))"

definition header :: "store_state \<Rightarrow> response_header" where
  "header s = \<lparr>cluster_id = 1, member_id = 1, hdr_revision = current_revision s, raft_term = 1\<rparr>"

definition get_alive :: "store_state \<Rightarrow> bytes \<Rightarrow> key_state option" where
  "get_alive s key =
     (case bt_get (st_keys s) key of
        Some ks \<Rightarrow> if is_alive ks then Some ks else None
      | None \<Rightarrow> None)"

section \<open>Watchers\<close>

definition register_watcher :: "watch_registration \<Rightarrow> store_state \<Rightarrow> i64 \<times> store_state" where
  "register_watcher reg s =
     (let watch_id = wr_watch_id reg in (watch_id, s\<lparr>st_watchers := st_watchers s @ [reg]\<rparr>))"

definition cancel_watcher :: "i64 \<Rightarrow> store_state \<Rightarrow> bool \<times> store_state" where
  "cancel_watcher watch_id s =
     (let len_before = length (st_watchers s);
          s' = s\<lparr>st_watchers := filter (\<lambda>w. wr_watch_id w \<noteq> watch_id) (st_watchers s)\<rparr>
      in (len_before \<noteq> length (st_watchers s'), s'))"

text \<open>The loop over a watcher's filters: 0 drops puts, 1 drops deletes.\<close>

fun filters_pass :: "i32 list \<Rightarrow> event_type \<Rightarrow> bool" where
  "filters_pass [] t = True"
| "filters_pass (f # fs) t =
     (if f = 0 \<and> t = EvPut then False
      else if f = 1 \<and> t = EvDelete then False
      else filters_pass fs t)"

fun notify_loop :: "watch_event \<Rightarrow> watch_registration list \<Rightarrow> (nat \<times> watch_event) list" where
  "notify_loop ev [] = []"
| "notify_loop ev (w # ws) =
     (if \<not> matches_range (wr_bound w) (ev_key ev) then notify_loop ev ws
      else if ev_revision ev < wr_start_revision w then notify_loop ev ws
      else if \<not> filters_pass (wr_filters w) (ev_type ev) then notify_loop ev ws
      else (wr_sender w, if wr_prev_kv w then ev else ev\<lparr>ev_prev_kv_bytes := []\<rparr>)
             # notify_loop ev ws)"

definition notify_watchers :: "watch_event \<Rightarrow> store_state \<Rightarrow> store_state" where
  "notify_watchers ev s = s\<lparr>st_outbox := st_outbox s @ notify_loop ev (st_watchers s)\<rparr>"

section \<open>Applying a put and a delete\<close>

definition apply_put ::
    "bytes \<Rightarrow> bytes \<Rightarrow> i64 \<Rightarrow> u64 \<Rightarrow> bytes option \<Rightarrow> store_state \<Rightarrow> key_state option \<times> store_state"
where
  "apply_put key val lease revision kv_bytes s =
     (let prev = get_alive s key;
          is_new = (prev = None);
          rebirth = (case bt_get (st_keys s) key of
                       None \<Rightarrow> False | Some k \<Rightarrow> ks_delete_revision k \<noteq> 0);
          entry = \<lparr>ks_value = val, ks_mod_revision = revision,
                   ks_create_revision =
                     (case prev of Some k \<Rightarrow> ks_create_revision k | None \<Rightarrow> revision),
                   ks_version = (case prev of Some k \<Rightarrow> ks_version k + 1 | None \<Rightarrow> 1),
                   ks_lease = lease, ks_delete_revision = 0, ks_rebirth = rebirth,
                   ks_kv_bytes = []\<rparr>;
          entry = entry\<lparr>ks_kv_bytes :=
                    (case kv_bytes of Some b \<Rightarrow> b | None \<Rightarrow> make_kv_bytes key entry)\<rparr>;
          s = s\<lparr>st_keys := bt_insert key entry (st_keys s)\<rparr>;
          s = (if is_new then s\<lparr>st_key_count := st_key_count s + 1\<rparr> else s);
          ev = \<lparr>ev_revision = revision, ev_type = EvPut, ev_key = key,
                ev_kv_bytes = ks_kv_bytes entry,
                ev_prev_kv_bytes = (case prev of Some p \<Rightarrow> ks_kv_bytes p | None \<Rightarrow> [])\<rparr>
      in (prev, notify_watchers ev s))"

definition apply_delete ::
    "bytes \<Rightarrow> u64 \<Rightarrow> store_state \<Rightarrow> key_state option res \<times> store_state" where
  "apply_delete key revision s =
     (case bt_get (st_keys s) key of
        None \<Rightarrow> (Ok None, s)
      | Some entry \<Rightarrow>
          if ks_delete_revision entry \<noteq> 0 then (Ok None, s)
          else
            let prev = entry;
                s = s\<lparr>st_keys :=
                      bt_insert key (entry\<lparr>ks_delete_revision := revision\<rparr>) (st_keys s)\<rparr>;
                s = s\<lparr>st_key_count :=
                      (if st_key_count s = 0 then 0 else st_key_count s - 1)\<rparr>
            in case with_mod_revision (ks_kv_bytes prev) revision of
                 None \<Rightarrow> (Panic, s)
               | Some tombstone_bytes \<Rightarrow>
                   let ev = \<lparr>ev_revision = revision, ev_type = EvDelete, ev_key = key,
                             ev_kv_bytes = tombstone_bytes, ev_prev_kv_bytes = ks_kv_bytes prev\<rparr>
                   in (Ok (Some prev), notify_watchers ev s))"

text \<open>The loop \<open>for key in &keys_to_delete { self.apply_delete(..) }\<close>.\<close>

fun apply_deletes :: "bytes list \<Rightarrow> u64 \<Rightarrow> store_state \<Rightarrow> unit res \<times> store_state" where
  "apply_deletes [] revision s = (Ok (), s)"
| "apply_deletes (key # keys) revision s =
     (case apply_delete key revision s of
        (Ok _, s) \<Rightarrow> apply_deletes keys revision s
      | (Err e, s) \<Rightarrow> (Err e, s)
      | (Panic, s) \<Rightarrow> (Panic, s))"

text \<open>The tombstone record of a key that is alive.\<close>

definition delete_record :: "libs \<Rightarrow> bytes \<Rightarrow> u64 \<Rightarrow> key_state \<Rightarrow> kv_wal_record" where
  "delete_record E key revision p =
     (let flags = DELETED;
          flags = (if ks_lease p \<noteq> 0 then flags OR HAS_LEASE else flags)
      in KvWalRecord_new E flags key (ks_value p) (ks_create_revision p) revision
           (ks_version p) (ks_lease p))"

text \<open>The records of the keys that are still alive, in the order of \<open>keys_to_delete\<close>.\<close>

fun delete_records :: "libs \<Rightarrow> bytes list \<Rightarrow> u64 \<Rightarrow> store_state \<Rightarrow> kv_wal_record list" where
  "delete_records E [] revision s = []"
| "delete_records E (key # keys) revision s =
     (case get_alive s key of
        Some p \<Rightarrow> delete_record E key revision p # delete_records E keys revision s
      | None \<Rightarrow> delete_records E keys revision s)"

definition delete_keys_for_lease :: "libs \<Rightarrow> i64 \<Rightarrow> store_state \<Rightarrow> unit res \<times> store_state" where
  "delete_keys_for_lease E lease_id s =
     (let keys_to_delete = map fst (filter (\<lambda>e. ks_lease (snd e) = lease_id \<and> is_alive (snd e))
                                      (bt_iter (st_keys s)))
      in if keys_to_delete = [] then (Ok (), s)
         else
           let (revision, s) = alloc_revision s;
               records = delete_records E keys_to_delete revision s
           in case append_kv_batch records (st_wal s) of
                (Inl e, w) \<Rightarrow>
                  (Err (Status Internal ''WAL write failed during lease key deletion''),
                   s\<lparr>st_wal := w\<rparr>)
              | (Inr _, w) \<Rightarrow> apply_deletes keys_to_delete revision (s\<lparr>st_wal := w\<rparr>))"

text \<open>Start-up replay of one record.\<close>

definition apply_record :: "libs \<Rightarrow> kv_wal_record \<Rightarrow> store_state \<Rightarrow> unit res \<times> store_state" where
  "apply_record E r s =
     (let deleted = (rec_flags r AND DELETED \<noteq> 0);
          revision = (case rec_mod_revision r of Some v \<Rightarrow> v | None \<Rightarrow> 0)
      in if deleted then
           (let key = (case rec_key r of Some k \<Rightarrow> k | None \<Rightarrow> [])
            in case apply_delete key revision s of
                 (Ok _, s) \<Rightarrow> (Ok (), s)
               | (Err e, s) \<Rightarrow> (Err e, s)
               | (Panic, s) \<Rightarrow> (Panic, s))
         else (case x_kv_decode E (rec_kv_bytes r) of
                 Some kv \<Rightarrow>
                   (Ok (), snd (apply_put (kv_key kv) (kv_value kv) (kv_lease kv) revision
                                  (Some (rec_kv_bytes r)) s))
               | None \<Rightarrow> (Ok (), s)))"

end
