(* ===== verification/Store_Invariant.thy ===== *)
theory Store_Invariant
  imports Store_State
begin

text \<open>
  The well-formedness of the store's state and its abstraction.  \<open>store_ok\<close> says what the code
  relies on: the maps are ordered, every entry carries the encoding of its own fields, revisions
  lie below the next one, and \<open>key_count\<close> counts the live keys (as long as the number of entries
  fits a machine word, which every map in memory does).  \<open>view_of\<close> forgets tombstones
  and encodings: it is the key space a client sees.  The lemmas give the effect of \<open>apply\<close> and
  \<open>apply_delete\<close> on both; every later component uses them instead of unfolding the operations.
\<close>

section \<open>The invariant\<close>

definition entry_ok :: "u64 \<Rightarrow> bytes \<Rightarrow> key_state \<Rightarrow> bool" where
  "entry_ok nr k ks \<longleftrightarrow>
     length k < 2 ^ 32 \<and> length (ks_value ks) < 2 ^ 32
     \<and> (\<exists>cr ver. ks_kv_bytes ks = kv_blob k (ks_value ks) cr (ks_mod_revision ks) ver (ks_lease ks))
     \<and> 0 < ks_create_revision ks \<and> ks_create_revision ks \<le> ks_mod_revision ks
     \<and> ks_mod_revision ks < nr
     \<and> (ks_delete_revision ks \<noteq> 0 \<longrightarrow>
          ks_mod_revision ks \<le> ks_delete_revision ks \<and> ks_delete_revision ks < nr)"

definition alive_count :: "(bytes, key_state) btree \<Rightarrow> nat" where
  "alive_count m = length (filter (\<lambda>e. is_alive (snd e)) (bt_iter m))"

definition keys_ok :: "store_state \<Rightarrow> bool" where
  "keys_ok s \<longleftrightarrow>
     bt_ok (st_keys s)
     \<and> (\<forall>k ks. bt_get (st_keys s) k = Some ks \<longrightarrow> entry_ok (st_next_rev s) k ks)
     \<and> (length (st_keys s) < 2 ^ 64 \<longrightarrow> st_key_count s = word_of_nat (alive_count (st_keys s)))"

definition leases_ok :: "store_state \<Rightarrow> bool" where
  "leases_ok s \<longleftrightarrow>
     bt_ok (st_leases s)
     \<and> (\<forall>i l. bt_get (st_leases s) i = Some l \<longrightarrow> i = sint (ls_id l) \<and> 2 \<le> sint (ls_ttl l)
            \<and> sint (ls_ttl l) \<le> 9223372035)"

definition store_ok :: "store_state \<Rightarrow> bool" where
  "store_ok s \<longleftrightarrow> keys_ok s \<and> leases_ok s \<and> 0 < st_next_rev s \<and> st_compact_rev s < st_next_rev s"

lemma alive_count_le: "alive_count m \<le> length m"
  by (simp add: alive_count_def bt_iter_def)

lemma length_bt_insert: "length m \<le> length (bt_insert k v m)"
  by (induction k v m rule: bt_insert.induct) auto

lemma length_bt_update: "bt_ok m \<Longrightarrow> bt_get m k = Some w \<Longrightarrow> length (bt_insert k v m) = length m"
proof (induction k v m rule: bt_insert.induct)
  case (2 k v k' v' m)
  moreover have "\<not> k < k'"
  proof
    assume "k < k'"
    with "2.prems"(2) have "(k, w) \<in> set m"
      by (auto simp: bt_get_def dest: map_of_SomeD split: if_splits)
    with "2.prems"(1) have "k' < k" by auto
    with \<open>k < k'\<close> show False by simp
  qed
  ultimately show ?case by (auto simp: bt_get_def)
qed (simp add: bt_get_def)

lemma alive_count_insert:
  assumes "bt_ok m"
  shows "alive_count (bt_insert k v m) + (case bt_get m k of Some w \<Rightarrow> of_bool (is_alive w) | None \<Rightarrow> 0)
    = alive_count m + of_bool (is_alive v)"
  using bt.count_insert [OF assms, of "\<lambda>_. is_alive"] by (simp add: alive_count_def)

section \<open>The abstract key space\<close>

record abs_kv =
  a_value :: bytes
  a_create :: u64
  a_mod :: u64
  a_version :: i64
  a_lease :: i64

definition abs_entry :: "key_state \<Rightarrow> abs_kv" where
  "abs_entry ks = \<lparr>a_value = ks_value ks, a_create = ks_create_revision ks,
     a_mod = ks_mod_revision ks, a_version = ks_version ks, a_lease = ks_lease ks\<rparr>"

definition view_of :: "store_state \<Rightarrow> bytes \<Rightarrow> abs_kv option" where
  "view_of s k = map_option abs_entry (get_alive s k)"

text \<open>Reads return the stored encoding of a row.  It is exact when the creation revision and the version inside
  it are those of the row, which \<open>view_of\<close> shows; \<open>entry_ok\<close> leaves these two open, because start-up
  takes the encoding of a row from the log while it recomputes its fields.\<close>

definition exact_entry :: "bytes \<Rightarrow> key_state \<Rightarrow> bool" where
  "exact_entry k ks \<longleftrightarrow> ks_kv_bytes ks =
     kv_blob k (ks_value ks) (ks_create_revision ks) (ks_mod_revision ks) (ks_version ks) (ks_lease ks)"

definition exact_blobs :: "store_state \<Rightarrow> bool" where
  "exact_blobs s \<longleftrightarrow> (\<forall>k ks. get_alive s k = Some ks \<longrightarrow> exact_entry k ks)"

text \<open>What a put at a revision means for the key space.\<close>

definition spec_put ::
    "bytes \<Rightarrow> bytes \<Rightarrow> i64 \<Rightarrow> u64 \<Rightarrow> (bytes \<Rightarrow> abs_kv option) \<Rightarrow> bytes \<Rightarrow> abs_kv option" where
  "spec_put key val lease r m =
     m(key := Some (case m key of
         Some p \<Rightarrow> \<lparr>a_value = val, a_create = a_create p, a_mod = r, a_version = a_version p + 1,
                     a_lease = lease\<rparr>
       | None \<Rightarrow> \<lparr>a_value = val, a_create = r, a_mod = r, a_version = 1, a_lease = lease\<rparr>))"

definition spec_delete ::
    "bytes set \<Rightarrow> (bytes \<Rightarrow> abs_kv option) \<Rightarrow> bytes \<Rightarrow> abs_kv option" where
  "spec_delete K m = m |` (- K)"

lemma spec_delete_empty [simp]: "spec_delete {} m = m"
  by (simp add: spec_delete_def restrict_map_def)

section \<open>What a put does\<close>

definition put_entry ::
    "bytes \<Rightarrow> bytes \<Rightarrow> i64 \<Rightarrow> u64 \<Rightarrow> bytes option \<Rightarrow> store_state \<Rightarrow> key_state" where
  "put_entry key val lease r kb s =
     (let prev = get_alive s key;
          cr = (case prev of Some k \<Rightarrow> ks_create_revision k | None \<Rightarrow> r);
          ver = (case prev of Some k \<Rightarrow> ks_version k + 1 | None \<Rightarrow> 1)
      in \<lparr>ks_value = val, ks_mod_revision = r, ks_create_revision = cr, ks_version = ver,
          ks_lease = lease, ks_delete_revision = 0,
          ks_rebirth = (case bt_get (st_keys s) key of
                          None \<Rightarrow> False | Some k \<Rightarrow> ks_delete_revision k \<noteq> 0),
          ks_kv_bytes = (case kb of Some b \<Rightarrow> b | None \<Rightarrow> kv_blob key val cr r ver lease)\<rparr>)"

lemma put_entry_simps [simp]:
  "ks_value (put_entry key val lease r kb s) = val"
  "ks_mod_revision (put_entry key val lease r kb s) = r"
  "ks_lease (put_entry key val lease r kb s) = lease"
  "ks_delete_revision (put_entry key val lease r kb s) = 0"
  "is_alive (put_entry key val lease r kb s)"
  "ks_create_revision (put_entry key val lease r kb s) =
     (case get_alive s key of Some k \<Rightarrow> ks_create_revision k | None \<Rightarrow> r)"
  "ks_version (put_entry key val lease r kb s) =
     (case get_alive s key of Some k \<Rightarrow> ks_version k + 1 | None \<Rightarrow> 1)"
  by (simp_all add: put_entry_def Let_def is_alive_def)

lemma exact_entry_put: "exact_entry key (put_entry key val lease r None s)"
  by (simp add: exact_entry_def put_entry_def Let_def)

lemma notify_watchers_simps [simp]:
  "st_keys (notify_watchers ev s) = st_keys s"
  "st_leases (notify_watchers ev s) = st_leases s"
  "st_watchers (notify_watchers ev s) = st_watchers s"
  "st_next_rev (notify_watchers ev s) = st_next_rev s"
  "st_next_lease_id (notify_watchers ev s) = st_next_lease_id s"
  "st_key_count (notify_watchers ev s) = st_key_count s"
  "st_compact_rev (notify_watchers ev s) = st_compact_rev s"
  "st_wal (notify_watchers ev s) = st_wal s"
  "st_expiry_notify (notify_watchers ev s) = st_expiry_notify s"
  "st_outbox (notify_watchers ev s) = st_outbox s @ notify_loop ev (st_watchers s)"
  by (simp_all add: notify_watchers_def)

definition put_event ::
    "bytes \<Rightarrow> bytes \<Rightarrow> i64 \<Rightarrow> u64 \<Rightarrow> bytes option \<Rightarrow> store_state \<Rightarrow> watch_event" where
  "put_event key val lease r kb s =
     \<lparr>ev_revision = r, ev_type = EvPut, ev_key = key,
      ev_kv_bytes = ks_kv_bytes (put_entry key val lease r kb s),
      ev_prev_kv_bytes = (case get_alive s key of Some p \<Rightarrow> ks_kv_bytes p | None \<Rightarrow> [])\<rparr>"

lemma apply_put_eq:
  "apply_put key val lease r kb s =
     (get_alive s key,
      notify_watchers (put_event key val lease r kb s)
        (s\<lparr>st_keys := bt_insert key (put_entry key val lease r kb s) (st_keys s),
           st_key_count := st_key_count s + of_bool (get_alive s key = None)\<rparr>))"
proof -
  have e: "(\<lparr>ks_value = val, ks_mod_revision = r,
        ks_create_revision = (case get_alive s key of Some k \<Rightarrow> ks_create_revision k | None \<Rightarrow> r),
        ks_version = (case get_alive s key of Some k \<Rightarrow> ks_version k + 1 | None \<Rightarrow> 1),
        ks_lease = lease, ks_delete_revision = 0,
        ks_rebirth = (case bt_get (st_keys s) key of
                        None \<Rightarrow> False | Some k \<Rightarrow> ks_delete_revision k \<noteq> 0), ks_kv_bytes = []\<rparr>)
      \<lparr>ks_kv_bytes := (case kb of Some b \<Rightarrow> b | None \<Rightarrow> make_kv_bytes key
         \<lparr>ks_value = val, ks_mod_revision = r,
        ks_create_revision = (case get_alive s key of Some k \<Rightarrow> ks_create_revision k | None \<Rightarrow> r),
        ks_version = (case get_alive s key of Some k \<Rightarrow> ks_version k + 1 | None \<Rightarrow> 1),
        ks_lease = lease, ks_delete_revision = 0,
        ks_rebirth = (case bt_get (st_keys s) key of
                        None \<Rightarrow> False | Some k \<Rightarrow> ks_delete_revision k \<noteq> 0), ks_kv_bytes = []\<rparr>)\<rparr>
    = put_entry key val lease r kb s"
    by (cases kb) (simp_all add: put_entry_def Let_def make_kv_bytes_eq)
  show ?thesis
    unfolding apply_put_def Let_def e put_event_def
    by (cases "get_alive s key") simp_all
qed

lemma get_alive_insert:
  "get_alive (s\<lparr>st_keys := bt_insert key ks (st_keys s), st_key_count := c\<rparr>) k =
     (if k = key then if is_alive ks then Some ks else None else get_alive s k)"
  by (simp add: get_alive_def bt_get_insert)

lemma get_alive_notify [simp]: "get_alive (notify_watchers ev s) k = get_alive s k"
  by (simp add: get_alive_def)

lemma get_alive_Some: "get_alive s k = Some ks \<longleftrightarrow> bt_get (st_keys s) k = Some ks \<and> is_alive ks"
  by (auto simp: get_alive_def split: option.splits)

lemma get_alive_None: "get_alive s k = None \<longleftrightarrow> (\<forall>ks. bt_get (st_keys s) k = Some ks \<longrightarrow> \<not> is_alive ks)"
  by (auto simp: get_alive_def split: option.splits)

lemma view_apply_put:
  "view_of (snd (apply_put key val lease r kb s)) = spec_put key val lease r (view_of s)"
proof
  fix k
  have "abs_entry (put_entry key val lease r kb s) = the (spec_put key val lease r (view_of s) key)"
    by (cases "get_alive s key")
      (simp_all add: view_of_def spec_put_def abs_entry_def)
  then show "view_of (snd (apply_put key val lease r kb s)) k = spec_put key val lease r (view_of s) k"
    by (simp add: view_of_def apply_put_eq get_alive_insert spec_put_def)
qed

lemma get_alive_apply_put:
  "get_alive (snd (apply_put key val lease r kb s)) k =
     (if k = key then Some (put_entry key val lease r kb s) else get_alive s k)"
  by (simp add: apply_put_eq get_alive_insert)

lemma keys_ok_get_alive:
  "keys_ok s \<Longrightarrow> get_alive s k = Some ks \<Longrightarrow> entry_ok (st_next_rev s) k ks"
  by (auto simp: keys_ok_def get_alive_Some)

text \<open>\<open>r\<close> is the revision allocated last: writes are applied at it.\<close>

definition at_rev :: "u64 \<Rightarrow> store_state \<Rightarrow> bool" where
  "at_rev r s \<longleftrightarrow> 0 < r \<and> r \<noteq> - 1 \<and> st_next_rev s = r + 1"

lemma at_rev_less: "at_rev r s \<Longrightarrow> x < st_next_rev s \<longleftrightarrow> x \<le> r"
  by (simp add: at_rev_def word_le_less_succ)

text \<open>What an application at \<open>r\<close> needs of the revisions: \<open>r\<close> is below the next one and not before
  the last write of the same key.  The last revision allocated always qualifies.\<close>

definition rev_ok :: "u64 \<Rightarrow> bytes \<Rightarrow> store_state \<Rightarrow> bool" where
  "rev_ok r key s \<longleftrightarrow>
     0 < r \<and> r < st_next_rev s \<and> (\<forall>p. get_alive s key = Some p \<longrightarrow> ks_mod_revision p \<le> r)"

lemma at_rev_ok: "keys_ok s \<Longrightarrow> at_rev r s \<Longrightarrow> rev_ok r key s"
  using keys_ok_get_alive [of s key]
  by (auto simp: rev_ok_def entry_ok_def at_rev_less) (simp add: at_rev_def)

lemma entry_ok_put:
  assumes "keys_ok s" and "length key < 2 ^ 32" and "length val < 2 ^ 32" and r: "rev_ok r key s"
    and "kb = None \<or> (\<exists>cr ver. kb = Some (kv_blob key val cr r ver lease))"
  shows "entry_ok (st_next_rev s) key (put_entry key val lease r kb s)"
proof -
  have "0 < ks_create_revision (put_entry key val lease r kb s)
      \<and> ks_create_revision (put_entry key val lease r kb s) \<le> r"
  proof (cases "get_alive s key")
    case None
    then show ?thesis using r by (simp add: rev_ok_def)
  next
    case (Some p)
    from keys_ok_get_alive [OF assms(1) Some] have "0 < ks_create_revision p"
      "ks_create_revision p \<le> ks_mod_revision p" by (simp_all add: entry_ok_def)
    then show ?thesis using Some r by (auto simp: rev_ok_def)
  qed
  moreover have "\<exists>cr ver. ks_kv_bytes (put_entry key val lease r kb s) = kv_blob key val cr r ver lease"
    using assms(5) unfolding put_entry_def Let_def by (auto split: option.splits)
  ultimately show ?thesis using assms by (simp add: entry_ok_def rev_ok_def)
qed

lemma keys_ok_apply_put:
  assumes "keys_ok s" and "length key < 2 ^ 32" and "length val < 2 ^ 32" and "rev_ok r key s"
    and "kb = None \<or> (\<exists>cr ver. kb = Some (kv_blob key val cr r ver lease))"
  shows "keys_ok (snd (apply_put key val lease r kb s))"
proof -
  let ?e = "put_entry key val lease r kb s"
  have ok: "bt_ok (st_keys s)" using assms(1) by (simp add: keys_ok_def)
  have "alive_count (bt_insert key ?e (st_keys s)) = alive_count (st_keys s) + of_bool (get_alive s key = None)"
    using alive_count_insert [OF ok, of key ?e]
    by (auto simp: get_alive_def split: option.splits if_splits)
  then have "word_of_nat (alive_count (bt_insert key ?e (st_keys s))) =
      st_key_count s + of_bool (get_alive s key = None)"
    if "length (bt_insert key ?e (st_keys s)) < 2 ^ 64"
    using assms(1) that length_bt_insert [of "st_keys s" key ?e] by (simp add: keys_ok_def)
  with entry_ok_put [OF assms] assms(1) show ?thesis
    by (simp add: apply_put_eq keys_ok_def bt_ok_insert bt_get_insert)
qed

section \<open>What a delete does\<close>

definition delete_event :: "bytes \<Rightarrow> u64 \<Rightarrow> key_state \<Rightarrow> watch_event" where
  "delete_event key r p =
     \<lparr>ev_revision = r, ev_type = EvDelete, ev_key = key,
      ev_kv_bytes = the (with_mod_revision (ks_kv_bytes p) r), ev_prev_kv_bytes = ks_kv_bytes p\<rparr>"

lemma with_mod_revision_entry:
  assumes "entry_ok nr k ks"
  shows "\<exists>cr ver. ks_kv_bytes ks = kv_blob k (ks_value ks) cr (ks_mod_revision ks) ver (ks_lease ks)
    \<and> with_mod_revision (ks_kv_bytes ks) r = Some (kv_blob k (ks_value ks) cr r ver (ks_lease ks))"
  using assms with_mod_revision_blob [of k] unfolding entry_ok_def by metis

text \<open>On a well-formed state \<open>apply_delete\<close> never panics.\<close>

lemma apply_delete_eq:
  assumes "keys_ok s"
  shows "apply_delete key r s =
     (case get_alive s key of
        None \<Rightarrow> (Ok None, s)
      | Some p \<Rightarrow>
          (Ok (Some p),
           notify_watchers (delete_event key r p)
             (s\<lparr>st_keys := bt_insert key (p\<lparr>ks_delete_revision := r\<rparr>) (st_keys s),
                st_key_count := (if st_key_count s = 0 then 0 else st_key_count s - 1)\<rparr>)))"
proof (cases "get_alive s key")
  case None
  then show ?thesis
    by (auto simp: apply_delete_def get_alive_def is_alive_def split: option.splits if_splits)
next
  case (Some p)
  then have g: "bt_get (st_keys s) key = Some p" "ks_delete_revision p = 0"
    by (simp_all add: get_alive_Some is_alive_def)
  from with_mod_revision_entry [OF keys_ok_get_alive [OF assms Some], of r]
  obtain b where "with_mod_revision (ks_kv_bytes p) r = Some b" by auto
  with Some g show ?thesis by (simp add: apply_delete_def delete_event_def Let_def)
qed

lemma apply_delete_ok: "keys_ok s \<Longrightarrow> apply_delete key r s = (Ok (get_alive s key), snd (apply_delete key r s))"
  by (simp add: apply_delete_eq split: option.splits)

lemma get_alive_apply_delete:
  assumes "keys_ok s" and "r \<noteq> 0"
  shows "get_alive (snd (apply_delete key r s)) k = (if k = key then None else get_alive s k)"
  using assms by (auto simp: apply_delete_eq get_alive_insert is_alive_def split: option.splits)

lemma view_apply_delete:
  assumes "keys_ok s" and "r \<noteq> 0"
  shows "view_of (snd (apply_delete key r s)) = spec_delete {key} (view_of s)"
  by (rule ext) (simp add: view_of_def get_alive_apply_delete [OF assms] spec_delete_def restrict_map_def)

lemma keys_ok_apply_delete:
  assumes "keys_ok s" and r: "rev_ok r key s"
  shows "keys_ok (snd (apply_delete key r s))"
proof (cases "get_alive s key")
  case None
  then show ?thesis using assms(1) by (simp add: apply_delete_eq)
next
  case (Some p)
  let ?e = "p\<lparr>ks_delete_revision := r\<rparr>"
  let ?m = "bt_insert key ?e (st_keys s)"
  have ok: "bt_ok (st_keys s)" using assms(1) by (simp add: keys_ok_def)
  have e: "entry_ok (st_next_rev s) key ?e"
    using keys_ok_get_alive [OF assms(1) Some] r Some by (simp add: entry_ok_def rev_ok_def)
  have g: "bt_get (st_keys s) key = Some p" "is_alive p" using Some by (simp_all add: get_alive_Some)
  have c: "alive_count ?m + 1 = alive_count (st_keys s)"
    using alive_count_insert [OF ok, of key ?e] g r by (simp add: is_alive_def rev_ok_def word_gt_0)
  have "(if st_key_count s = 0 then 0 else st_key_count s - 1) = word_of_nat (alive_count ?m)"
    if mem: "length (st_keys s) < 2 ^ 64"
  proof -
    have "unat (word_of_nat (alive_count (st_keys s)) :: u64) = alive_count (st_keys s)"
      using mem alive_count_le [of "st_keys s"] by (intro unat_of_nat_small) simp
    with c have "(word_of_nat (alive_count (st_keys s)) :: u64) \<noteq> 0"
      by (metis add_is_0 unat_0 zero_neq_one)
    moreover have "word_of_nat (alive_count (st_keys s)) = (word_of_nat (alive_count ?m) + 1 :: u64)"
      unfolding c [symmetric] by simp
    ultimately show ?thesis using assms(1) mem by (simp add: keys_ok_def)
  qed
  then show ?thesis
    using assms(1) e Some length_bt_update [OF ok g(1)]
    by (simp add: apply_delete_eq keys_ok_def bt_ok_insert bt_get_insert)
qed

section \<open>Sequences of deletes\<close>

text \<open>The fields an application of writes leaves alone.\<close>

definition same_env :: "store_state \<Rightarrow> store_state \<Rightarrow> bool" where
  "same_env s s' \<longleftrightarrow>
     st_leases s' = st_leases s \<and> st_watchers s' = st_watchers s \<and> st_next_rev s' = st_next_rev s
     \<and> st_next_lease_id s' = st_next_lease_id s \<and> st_compact_rev s' = st_compact_rev s
     \<and> st_expiry_notify s' = st_expiry_notify s"

lemma same_env_refl [simp]: "same_env s s"
  by (simp add: same_env_def)

lemma same_env_trans: "same_env s t \<Longrightarrow> same_env t u \<Longrightarrow> same_env s u"
  by (simp add: same_env_def)

lemma same_env_at_rev: "same_env s s' \<Longrightarrow> at_rev r s' \<longleftrightarrow> at_rev r s"
  by (simp add: same_env_def at_rev_def)

lemma same_env_apply_put: "same_env s (snd (apply_put key val lease r kb s))"
  by (simp add: same_env_def apply_put_eq)

lemma same_env_apply_delete: "keys_ok s \<Longrightarrow> same_env s (snd (apply_delete key r s))"
  by (simp add: same_env_def apply_delete_eq split: option.splits)

lemma wal_apply_put [simp]: "st_wal (snd (apply_put key val lease r kb s)) = st_wal s"
  by (simp add: apply_put_eq)

lemma wal_apply_delete [simp]: "keys_ok s \<Longrightarrow> st_wal (snd (apply_delete key r s)) = st_wal s"
  by (simp add: apply_delete_eq split: option.splits)

lemma length_apply_delete:
  "keys_ok s \<Longrightarrow> length (st_keys (snd (apply_delete key r s))) = length (st_keys s)"
  by (auto simp: apply_delete_eq keys_ok_def get_alive_Some length_bt_update split: option.splits)

lemma apply_deletes_correct:
  assumes "keys_ok s" and "at_rev r s"
  shows "fst (apply_deletes keys r s) = Ok () \<and> keys_ok (snd (apply_deletes keys r s))
    \<and> view_of (snd (apply_deletes keys r s)) = spec_delete (set keys) (view_of s)
    \<and> same_env s (snd (apply_deletes keys r s))
    \<and> st_wal (snd (apply_deletes keys r s)) = st_wal s
    \<and> length (st_keys (snd (apply_deletes keys r s))) = length (st_keys s)"
  using assms
proof (induction keys arbitrary: s)
  case Nil
  then show ?case by (simp add: spec_delete_def)
next
  case (Cons key keys)
  define t where "t = snd (apply_delete key r s)"
  have r: "r \<noteq> 0" using Cons.prems(2) by (auto simp: at_rev_def)
  have e: "apply_delete key r s = (Ok (get_alive s key), t)"
    using apply_delete_ok [OF Cons.prems(1)] by (simp add: t_def)
  have t: "keys_ok t" "same_env s t" "st_wal t = st_wal s" "length (st_keys t) = length (st_keys s)"
    "view_of t = spec_delete {key} (view_of s)"
    using keys_ok_apply_delete [OF Cons.prems(1) at_rev_ok [OF Cons.prems]] same_env_apply_delete [OF Cons.prems(1)]
      length_apply_delete [OF Cons.prems(1)] view_apply_delete [OF Cons.prems(1) r] Cons.prems(1)
    by (simp_all add: t_def)
  have v: "spec_delete (set keys) (spec_delete {key} m) = spec_delete (set (key # keys)) m" for m
    by (auto simp: spec_delete_def restrict_map_def)
  from Cons.IH [of t] t Cons.prems(2) show ?case
    by (auto simp: e v same_env_at_rev intro: same_env_trans)
qed

text \<open>The records logged for a list of keys: one tombstone per key that is alive.\<close>

lemma delete_records_eq:
  "delete_records E keys r s =
     map (\<lambda>k. delete_record E k r (the (get_alive s k))) (filter (\<lambda>k. get_alive s k \<noteq> None) keys)"
  by (induction keys) (auto split: option.splits)

section \<open>Allocating a revision\<close>

lemma alloc_revision_at:
  assumes "store_ok s" and "st_next_rev s \<noteq> - 1"
  shows "at_rev (st_next_rev s) (snd (alloc_revision s))" and "store_ok (snd (alloc_revision s))"
proof -
  have n: "0 < st_next_rev s" using assms(1) by (simp add: store_ok_def)
  then show "at_rev (st_next_rev s) (snd (alloc_revision s))"
    using assms(2) by (simp add: alloc_revision_def Let_def at_rev_def)
  have up: "x < st_next_rev s \<Longrightarrow> x < st_next_rev s + 1" for x
    using assms(2) word_less_succ [of "st_next_rev s"] by simp
  show "store_ok (snd (alloc_revision s))"
    using assms(1) n up unfolding store_ok_def keys_ok_def leases_ok_def entry_ok_def alloc_revision_def
    by (simp add: Let_def)
qed

lemma alloc_revision_simps [simp]:
  "fst (alloc_revision s) = st_next_rev s"
  "st_keys (snd (alloc_revision s)) = st_keys s"
  "st_leases (snd (alloc_revision s)) = st_leases s"
  "st_wal (snd (alloc_revision s)) = st_wal s"
  "st_watchers (snd (alloc_revision s)) = st_watchers s"
  "st_outbox (snd (alloc_revision s)) = st_outbox s"
  "st_compact_rev (snd (alloc_revision s)) = st_compact_rev s"
  "st_next_rev (snd (alloc_revision s)) = st_next_rev s + 1"
  "get_alive (snd (alloc_revision s)) k = get_alive s k"
  "view_of (snd (alloc_revision s)) = view_of s"
  by (simp_all add: alloc_revision_def Let_def get_alive_def view_of_def fun_eq_iff)

lemma wal_update_simps [simp]:
  "get_alive (s\<lparr>st_wal := w\<rparr>) k = get_alive s k"
  "view_of (s\<lparr>st_wal := w\<rparr>) = view_of s"
  "keys_ok (s\<lparr>st_wal := w\<rparr>) \<longleftrightarrow> keys_ok s"
  "store_ok (s\<lparr>st_wal := w\<rparr>) \<longleftrightarrow> store_ok s"
  "at_rev r (s\<lparr>st_wal := w\<rparr>) \<longleftrightarrow> at_rev r s"
  "same_env s (s\<lparr>st_wal := w\<rparr>)"
  by (simp_all add: get_alive_def view_of_def keys_ok_def leases_ok_def store_ok_def at_rev_def
      same_env_def fun_eq_iff)

lemma store_ok_keys:
  "store_ok s \<Longrightarrow> same_env s s' \<Longrightarrow> keys_ok s' \<Longrightarrow> store_ok s'"
  by (simp add: store_ok_def leases_ok_def same_env_def)

lemma store_ok_new: "store_ok (StoreState_new w)"
  by (simp add: store_ok_def keys_ok_def leases_ok_def StoreState_new_def bt_get_def alive_count_def
      bt_iter_def)

end
