(* ===== verification/Crc32c.thy ===== *)
theory Crc32c
  imports Kv_Blob
begin

text \<open>
  The bitwise CRC-32C that the log tools carry (\<^verbatim>\<open>src/bin/walverify.rs\<close>, \<^verbatim>\<open>waldoctor.rs\<close>,
  \<^verbatim>\<open>walrecover.rs\<close>), and with it concrete instances of the functions the server takes from its
  libraries: the checksum that continues an earlier one, and a decoder of encoded key-values.  The
  laws \<open>crc_law\<close> and \<open>prost_law\<close> are proved for them, so both are satisfiable.
\<close>

section \<open>The checksum\<close>

definition crc32c_bit :: "u32 \<Rightarrow> u32" where
  "crc32c_bit crc = (if crc AND 1 \<noteq> 0 then drop_bit 1 crc XOR 0x82F63B78 else drop_bit 1 crc)"

definition crc32c_byte :: "u32 \<Rightarrow> u8 \<Rightarrow> u32" where
  "crc32c_byte crc byte = (crc32c_bit ^^ 8) (crc XOR ucast byte)"

definition crc32c_bitwise :: "bytes \<Rightarrow> u32" where
  "crc32c_bitwise data = foldl crc32c_byte 0xFFFFFFFF data XOR 0xFFFFFFFF"

section \<open>Concrete library functions\<close>

definition crc32c_continue :: "u32 \<Rightarrow> bytes \<Rightarrow> u32" where
  "crc32c_continue crc data = foldl crc32c_byte (crc XOR 0xFFFFFFFF) data XOR 0xFFFFFFFF"

text \<open>The fields of an encoded key-value, the lease included, which follows the value.\<close>

definition kv_decode_ref :: "bytes \<Rightarrow> key_value option" where
  "kv_decode_ref buf =
     do { f \<leftarrow> parse_kv buf;
          let i = 26 + length (f_key f) + length (encode_varint (f_create_revision f))
                  + length (encode_varint (f_version f)) + length (f_value f);
          (lease, _) \<leftarrow> cursor_varint buf i;
          Some \<lparr>kv_key = f_key f, kv_create_revision = f_create_revision f,
                kv_mod_revision = f_mod_revision f, kv_version = f_version f,
                kv_value = f_value f, kv_lease = lease\<rparr> }"

definition ref_libs :: libs where
  "ref_libs = \<lparr>x_crc32c = crc32c_bitwise, x_crc32c_append = crc32c_continue,
               x_kv_decode = kv_decode_ref\<rparr>"

section \<open>The laws hold\<close>

lemma crc_law_ref: "crc_law ref_libs"
  by (simp add: crc_law_def ref_libs_def crc32c_continue_def crc32c_bitwise_def ac_simps)

lemma prost_law_ref: "prost_law ref_libs"
proof -
  have "kv_decode_ref (kv_blob key val cr mr ver lease) =
      Some \<lparr>kv_key = key, kv_create_revision = cr, kv_mod_revision = mr, kv_version = ver,
            kv_value = val, kv_lease = lease\<rparr>"
    if "length key < 2 ^ 32" "length val < 2 ^ 32" for key val cr mr ver lease
  proof -
    define pre where "pre = 0x0a # encode_overlong_u32 (word_of_nat (length key)) @ key
       @ 0x10 # encode_varint cr @ 0x18 # encode_overlong_u64 mr @ 0x20 # encode_varint ver
       @ 0x2a # encode_overlong_u32 (word_of_nat (length val)) @ val @ [0x30 :: u8]"
    have "kv_blob key val cr mr ver lease = pre @ encode_varint lease @ []"
      by (simp add: pre_def kv_blob_eq)
    moreover have "length pre = 26 + length key + length (encode_varint cr)
        + length (encode_varint ver) + length val"
      by (simp add: pre_def)
    ultimately show ?thesis
      using cursor_varint_at [of pre "length pre" lease "[]"] parse_kv_blob [OF that, of cr mr ver lease]
      by (simp add: kv_decode_ref_def)
  qed
  then show ?thesis by (simp add: prost_law_def ref_libs_def)
qed

end
