(* ===== verification/Kv_Ops.thy ===== *)
theory Kv_Ops
  imports Store_Invariant Crc32c
begin

text \<open>
  The write operations of the key-value API (\<^verbatim>\<open>src/storage/store.rs\<close>): validation of a put, put and
  delete-range at a given revision, the \<open>put\<close>, \<open>delete_range\<close> and \<open>compact\<close> requests, and the
  counters.  Each request runs under one write lock, so it is one function from state to result and
  state; a write-ahead-log failure is a result, with the bytes that reached the file kept.
\<close>

section \<open>Validation\<close>

definition LEASE_MAX_TTL :: int where "LEASE_MAX_TTL = (2 ^ 63 - 1) div 1000000000 - 1"
definition LEASE_MIN_TTL :: int where "LEASE_MIN_TTL = 2"

definition check_key :: "bytes \<Rightarrow> unit res" where
  "check_key key =
     (if key = [] then Err (Status InvalidArgument ''etcdserver: key is not provided'') else Ok ())"

definition check_lease_ttl :: "i64 \<Rightarrow> i64 res" where
  "check_lease_ttl ttl =
     (if sint ttl > LEASE_MAX_TTL
      then Err (Status OutOfRange ''etcdserver: too large lease TTL'')
      else Ok (word_of_int (max (sint ttl) LEASE_MIN_TTL)))"

definition has_lease :: "store_state \<Rightarrow> i64 \<Rightarrow> bool" where
  "has_lease s lease_id \<longleftrightarrow> bt_get (st_leases s) (sint lease_id) \<noteq> None"

definition validate_put :: "put_request \<Rightarrow> store_state \<Rightarrow> unit res" where
  "validate_put req s =
     (case check_key (pr_key req) of
        Err e \<Rightarrow> Err e
      | Panic \<Rightarrow> Panic
      | Ok _ \<Rightarrow>
          if pr_ignore_value req \<and> pr_value req \<noteq> [] then
            Err (Status InvalidArgument ''etcdserver: value is provided'')
          else if pr_ignore_lease req \<and> pr_lease req \<noteq> 0 then
            Err (Status InvalidArgument ''etcdserver: lease is provided'')
          else
            let prev_alive = get_alive s (pr_key req) in
            if (pr_ignore_value req \<or> pr_ignore_lease req) \<and> prev_alive = None then
              Err (Status InvalidArgument ''etcdserver: key not found'')
            else
              let lease = (if pr_ignore_lease req then
                             (case prev_alive of Some k \<Rightarrow> ks_lease k | None \<Rightarrow> pr_lease req)
                           else pr_lease req)
              in if lease \<noteq> 0 \<and> \<not> has_lease s lease then
                   Err (Status NotFound ''etcdserver: requested lease not found'')
                 else Ok ())"

section \<open>Writes at a revision\<close>

definition put_at ::
    "libs \<Rightarrow> put_request \<Rightarrow> u64 \<Rightarrow> store_state \<Rightarrow> put_response res \<times> store_state" where
  "put_at E req revision s =
     (let key = pr_key req;
          prev_alive = get_alive s key
      in if (pr_ignore_value req \<or> pr_ignore_lease req) \<and> prev_alive = None then
           (Err (Status InvalidArgument ''etcdserver: key not found''), s)
         else
           let val = (if pr_ignore_value req then
                        (case prev_alive of Some k \<Rightarrow> ks_value k | None \<Rightarrow> [])
                      else pr_value req);
               lease = (if pr_ignore_lease req then
                          (case prev_alive of Some k \<Rightarrow> ks_lease k | None \<Rightarrow> pr_lease req)
                        else pr_lease req)
           in if lease \<noteq> 0 \<and> \<not> has_lease s lease then
                (Err (Status NotFound ''etcdserver: requested lease not found''), s)
              else
                let prev = prev_alive;
                    flags = (0 :: u8);
                    flags = (if prev = None then flags OR IS_CREATE else flags);
                    flags = (if lease \<noteq> 0 then flags OR HAS_LEASE else flags);
                    create_revision =
                      (case prev of Some k \<Rightarrow> ks_create_revision k | None \<Rightarrow> revision);
                    version = (case prev of Some k \<Rightarrow> ks_version k + 1 | None \<Rightarrow> 1);
                    record = KvWalRecord_new E flags key val create_revision revision version lease
                in case append_kv record (st_wal s) of
                     (Inl e, w) \<Rightarrow>
                       (Err (Status Internal ''etcdserver: wal write failed''), s\<lparr>st_wal := w\<rparr>)
                   | (Inr _, w) \<Rightarrow>
                       let (prev, s) = apply_put key val lease revision None (s\<lparr>st_wal := w\<rparr>);
                           prev_kv = (if pr_prev_kv req then
                                        (case prev of Some p \<Rightarrow> ks_kv_bytes p | None \<Rightarrow> [])
                                      else [])
                       in (Ok \<lparr>ps_header = Some (header s), ps_prev_kv = prev_kv\<rparr>, s))"

text \<open>The live keys a bound selects; \<open>None\<close> when the library panics on the bounds.\<close>

fun delete_targets :: "range_bound \<Rightarrow> store_state \<Rightarrow> bytes list option" where
  "delete_targets (Point k) s =
     Some (case get_alive s k of Some _ \<Rightarrow> [k] | None \<Rightarrow> [])"
| "delete_targets (From k) s =
     map_option (\<lambda>es. map fst (filter (\<lambda>e. is_alive (snd e)) es)) (bt_range (Some k) None (st_keys s))"
| "delete_targets (Prefix p) s =
     map_option (\<lambda>es. map fst (filter (\<lambda>e. is_alive (snd e)) (takeWhile (\<lambda>e. prefix p (fst e)) es)))
       (bt_range (Some p) None (st_keys s))"
| "delete_targets (Range start end) s =
     map_option (\<lambda>es. map fst (filter (\<lambda>e. is_alive (snd e)) es))
       (bt_range (Some start) (Some end) (st_keys s))"
| "delete_targets All s = Some (map fst (filter (\<lambda>e. is_alive (snd e)) (bt_iter (st_keys s))))"

definition delete_range_at ::
    "libs \<Rightarrow> delete_range_request \<Rightarrow> u64 \<Rightarrow> store_state \<Rightarrow> delete_range_response res \<times> store_state"
where
  "delete_range_at E req revision s =
     (case delete_targets (resolve_range (dr_key req) (dr_range_end req)) s of
        None \<Rightarrow> (Panic, s)
      | Some keys_to_delete \<Rightarrow>
          let prevs = map (get_alive s) keys_to_delete;
              records = delete_records E keys_to_delete revision s
          in case append_kv_batch records (st_wal s) of
               (Inl e, w) \<Rightarrow>
                 (Err (Status Internal ''etcdserver: wal write failed''), s\<lparr>st_wal := w\<rparr>)
             | (Inr _, w) \<Rightarrow>
                 (case apply_deletes keys_to_delete revision (s\<lparr>st_wal := w\<rparr>) of
                    (Ok _, s) \<Rightarrow>
                      (Ok \<lparr>ds_header = Some (header s),
                           ds_deleted = word_of_nat (length keys_to_delete),
                           ds_prev_kvs =
                             (if dr_prev_kv req then
                                map ks_kv_bytes (List.map_filter (\<lambda>p. p) prevs)
                              else [])\<rparr>, s)
                  | (Err e, s) \<Rightarrow> (Err e, s)
                  | (Panic, s) \<Rightarrow> (Panic, s)))"

section \<open>Requests\<close>

definition put :: "libs \<Rightarrow> put_request \<Rightarrow> store_state \<Rightarrow> put_response res \<times> store_state" where
  "put E req s =
     (case validate_put req s of
        Err e \<Rightarrow> (Err e, s)
      | Panic \<Rightarrow> (Panic, s)
      | Ok _ \<Rightarrow> let (revision, s) = alloc_revision s in put_at E req revision s)"

definition delete_range ::
    "libs \<Rightarrow> delete_range_request \<Rightarrow> store_state \<Rightarrow> delete_range_response res \<times> store_state" where
  "delete_range E req s =
     (case check_key (dr_key req) of
        Err e \<Rightarrow> (Err e, s)
      | Panic \<Rightarrow> (Panic, s)
      | Ok _ \<Rightarrow> let (revision, s) = alloc_revision s in delete_range_at E req revision s)"

text \<open>\<open>compact\<close>: the request carries a signed revision and the response only a header.\<close>

definition compact :: "i64 \<Rightarrow> store_state \<Rightarrow> response_header res \<times> store_state" where
  "compact req_revision s =
     (let revision = req_revision :: u64;
          current = current_revision s
      in if revision > current then
           (Err (Status OutOfRange ''etcdserver: mvcc: required revision is a future revision''), s)
         else if revision \<le> st_compact_rev s then
           (Err (Status OutOfRange ''etcdserver: mvcc: required revision has been compacted''), s)
         else let s = s\<lparr>st_compact_rev := revision\<rparr> in (Ok (header s), s))"

record store_stats =
  stat_revision :: u64
  stat_keys :: u64
  stat_watchers :: u64
  stat_leases :: u64

definition stats :: "store_state \<Rightarrow> store_stats" where
  "stats s =
     \<lparr>stat_revision = current_revision s, stat_keys = st_key_count s,
      stat_watchers = word_of_nat (length (st_watchers s)),
      stat_leases = word_of_nat (length (st_leases s))\<rparr>"

section \<open>Lemmas on puts\<close>

text \<open>The value and the lease a put stores, and the record it logs.\<close>

definition put_value :: "put_request \<Rightarrow> store_state \<Rightarrow> bytes" where
  "put_value req s =
     (if pr_ignore_value req then
        (case get_alive s (pr_key req) of Some k \<Rightarrow> ks_value k | None \<Rightarrow> [])
      else pr_value req)"

definition put_lease :: "put_request \<Rightarrow> store_state \<Rightarrow> i64" where
  "put_lease req s =
     (if pr_ignore_lease req then
        (case get_alive s (pr_key req) of Some k \<Rightarrow> ks_lease k | None \<Rightarrow> pr_lease req)
      else pr_lease req)"

definition put_record :: "libs \<Rightarrow> put_request \<Rightarrow> u64 \<Rightarrow> store_state \<Rightarrow> kv_wal_record" where
  "put_record E req r s =
     KvWalRecord_new E
       ((if get_alive s (pr_key req) = None then IS_CREATE else 0)
          OR (if put_lease req s \<noteq> 0 then HAS_LEASE else 0))
       (pr_key req) (put_value req s)
       (case get_alive s (pr_key req) of Some k \<Rightarrow> ks_create_revision k | None \<Rightarrow> r) r
       (case get_alive s (pr_key req) of Some k \<Rightarrow> ks_version k + 1 | None \<Rightarrow> 1)
       (put_lease req s)"

text \<open>When a put is applied, and what the two refusals are.\<close>

definition put_reuses_missing :: "put_request \<Rightarrow> store_state \<Rightarrow> bool" where
  "put_reuses_missing req s \<longleftrightarrow>
     (pr_ignore_value req \<or> pr_ignore_lease req) \<and> get_alive s (pr_key req) = None"

definition put_lease_missing :: "put_request \<Rightarrow> store_state \<Rightarrow> bool" where
  "put_lease_missing req s \<longleftrightarrow> put_lease req s \<noteq> 0 \<and> \<not> has_lease s (put_lease req s)"

lemma put_at_eq:
  "put_at E req r s =
     (if put_reuses_missing req s then
        (Err (Status InvalidArgument ''etcdserver: key not found''), s)
      else if put_lease_missing req s then
        (Err (Status NotFound ''etcdserver: requested lease not found''), s)
      else case append_kv (put_record E req r s) (st_wal s) of
        (Inl e, w) \<Rightarrow> (Err (Status Internal ''etcdserver: wal write failed''), s\<lparr>st_wal := w\<rparr>)
      | (Inr _, w) \<Rightarrow>
          let s' = snd (apply_put (pr_key req) (put_value req s) (put_lease req s) r None
                      (s\<lparr>st_wal := w\<rparr>))
          in (Ok \<lparr>ps_header = Some (header s'),
                  ps_prev_kv = (if pr_prev_kv req then
                                  (case get_alive s (pr_key req) of
                                     Some p \<Rightarrow> ks_kv_bytes p | None \<Rightarrow> [])
                                else [])\<rparr>, s'))"
proof -
  have f: "(if get_alive s (pr_key req) = None then (0 :: u8) OR IS_CREATE else 0) =
      (if get_alive s (pr_key req) = None then IS_CREATE else 0)" by simp
  have g: "(if l \<noteq> 0 then x OR HAS_LEASE else x) = x OR (if l \<noteq> 0 then HAS_LEASE else 0)"
    for x and l :: i64 by simp
  show ?thesis
    unfolding put_at_def Let_def f g put_value_def [symmetric] put_lease_def [symmetric]
      put_record_def [symmetric] put_reuses_missing_def [symmetric] put_lease_missing_def [symmetric]
    by (simp add: apply_put_eq split: sum.splits prod.splits)
qed

text \<open>Requests whose key and value fit a gRPC frame.\<close>

definition put_small :: "put_request \<Rightarrow> bool" where
  "put_small req \<longleftrightarrow> length (pr_key req) < 2 ^ 32 \<and> length (pr_value req) < 2 ^ 32"

lemma length_put_value:
  assumes "keys_ok s" and "put_small req"
  shows "length (put_value req s) < 2 ^ 32"
  using assms keys_ok_get_alive [OF assms(1), of "pr_key req"]
  by (auto simp: put_value_def put_small_def entry_ok_def split: option.splits)

text \<open>Every outcome of a put at a revision: the state stays well-formed, and the key space changes as
  specified exactly when the put succeeds.\<close>

lemma put_at_correct:
  assumes "keys_ok s" and "at_rev r s" and "put_small req"
  shows "keys_ok (snd (put_at E req r s)) \<and> same_env s (snd (put_at E req r s))
    \<and> fst (put_at E req r s) \<noteq> Panic
    \<and> view_of (snd (put_at E req r s)) =
        (if is_ok (fst (put_at E req r s))
         then spec_put (pr_key req) (put_value req s) (put_lease req s) r (view_of s)
         else view_of s)"
proof -
  have 1: "keys_ok (snd (apply_put (pr_key req) (put_value req s) (put_lease req s) r None (s\<lparr>st_wal := w\<rparr>)))"
    for w using assms length_put_value [OF assms(1,3)]
    by (intro keys_ok_apply_put) (simp_all add: put_small_def at_rev_ok)
  have 2: "same_env s (snd (apply_put k v l r None (s\<lparr>st_wal := w\<rparr>)))" for w k v l
    using same_env_apply_put [of "s\<lparr>st_wal := w\<rparr>" k v l r None] by (simp add: same_env_def)
  show ?thesis
    using assms(1) 1 2 by (auto simp: put_at_eq Let_def view_apply_put split: prod.splits sum.splits)
qed

lemma put_at_log:
  assumes "is_ok (fst (put_at E req r s))"
  shows "wf_content (st_wal (snd (put_at E req r s))) =
    wf_content (st_wal s) @ serialize (put_record E req r s)"
  using assms
  by (auto simp: put_at_eq Let_def dest: append_kv_ok split: prod.splits sum.splits if_splits)

section \<open>Lemmas on deletes\<close>

text \<open>The bounds the library refuses.\<close>

fun bad_bound :: "range_bound \<Rightarrow> bool" where
  "bad_bound (Range start end) \<longleftrightarrow> end < start"
| "bad_bound _ \<longleftrightarrow> False"

definition live_in :: "range_bound \<Rightarrow> store_state \<Rightarrow> bytes list" where
  "live_in b s = map fst (filter (\<lambda>e. matches_range b (fst e) \<and> is_alive (snd e)) (st_keys s))"

lemma filter_key:
  assumes "bt_ok m"
  shows "filter (\<lambda>e. fst e = k \<and> P (snd e)) m =
     (case bt_get m k of Some v \<Rightarrow> if P v then [(k, v)] else [] | None \<Rightarrow> [])"
  using assms
proof (induction m)
  case (Cons e m)
  have "filter (\<lambda>e. fst e = fst e' \<and> P (snd e)) m = []" if "\<forall>x \<in> set m. fst e' < fst x" for e' :: "'a \<times> 'b"
    using that by (auto simp: filter_empty_conv)
  with Cons show ?case by (cases e) (auto simp: bt_get_def split: option.splits)
qed (simp add: bt_get_def)

lemma delete_targets_eq:
  assumes "bt_ok (st_keys s)"
  shows "delete_targets b s = (if bad_bound b then None else Some (live_in b s))"
proof (cases b)
  case (Point k)
  then show ?thesis
    using filter_key [OF assms, of k is_alive]
    by (auto simp: live_in_def get_alive_def split: option.splits)
next
  case (Prefix p)
  then show ?thesis
    using takeWhile_prefix [OF assms, of p]
    by (simp add: live_in_def bt_range_def conj_commute)
qed (auto simp: live_in_def bt_range_def bt_iter_def conj_commute)

lemma set_live_in:
  assumes "bt_ok (st_keys s)"
  shows "k \<in> set (live_in b s) \<longleftrightarrow> matches_range b k \<and> get_alive s k \<noteq> None"
  using bt.iter_get [OF assms, of k] by (force simp: live_in_def get_alive_def bt_iter_def split: option.splits)

lemma spec_delete_live:
  assumes "bt_ok (st_keys s)"
  shows "spec_delete (set (live_in b s)) (view_of s) = spec_delete {k. matches_range b k} (view_of s)"
  by (rule ext) (auto simp: spec_delete_def restrict_map_def set_live_in [OF assms] view_of_def)

abbreviation dr_bound :: "delete_range_request \<Rightarrow> range_bound" where
  "dr_bound req \<equiv> resolve_range (dr_key req) (dr_range_end req)"

lemma delete_range_at_correct:
  assumes "keys_ok s" and "at_rev r s"
  shows "keys_ok (snd (delete_range_at E req r s)) \<and> same_env s (snd (delete_range_at E req r s))
    \<and> length (st_keys (snd (delete_range_at E req r s))) = length (st_keys s)
    \<and> (fst (delete_range_at E req r s) = Panic \<longleftrightarrow> bad_bound (dr_bound req))
    \<and> view_of (snd (delete_range_at E req r s)) =
        (if is_ok (fst (delete_range_at E req r s))
         then spec_delete {k. matches_range (dr_bound req) k} (view_of s)
         else view_of s)"
proof -
  have ok: "bt_ok (st_keys s)" using assms(1) by (simp add: keys_ok_def)
  define ks where "ks = live_in (dr_bound req) s"
  have 1: "fst (apply_deletes ks r (s\<lparr>st_wal := w\<rparr>)) = Ok ()
      \<and> keys_ok (snd (apply_deletes ks r (s\<lparr>st_wal := w\<rparr>)))
      \<and> view_of (snd (apply_deletes ks r (s\<lparr>st_wal := w\<rparr>))) =
          spec_delete {k. matches_range (dr_bound req) k} (view_of s)
      \<and> same_env s (snd (apply_deletes ks r (s\<lparr>st_wal := w\<rparr>)))
      \<and> length (st_keys (snd (apply_deletes ks r (s\<lparr>st_wal := w\<rparr>)))) = length (st_keys s)" for w
    using apply_deletes_correct [of "s\<lparr>st_wal := w\<rparr>" r ks] assms
    by (auto simp: ks_def spec_delete_live [OF ok] same_env_def)
  have 2: "\<exists>s'. apply_deletes ks r (s\<lparr>st_wal := w\<rparr>) = (Ok (), s')" for w
    using 1 [of w] by (metis prod.collapse)
  show ?thesis
  proof (cases "bad_bound (dr_bound req)")
    case True
    then show ?thesis using assms(1) by (simp add: delete_range_at_def delete_targets_eq [OF ok])
  next
    case False
    then show ?thesis
      using assms(1) 1 2
      by (auto simp: delete_range_at_def delete_targets_eq [OF ok] ks_def [symmetric] Let_def
          split: prod.splits sum.splits res.splits) (metis fst_conv snd_conv res.distinct)+
  qed
qed

section \<open>Properties of the requests\<close>

lemma validate_put_ok:
  "validate_put req s = Ok () \<longleftrightarrow>
     pr_key req \<noteq> [] \<and> \<not> (pr_ignore_value req \<and> pr_value req \<noteq> [])
     \<and> \<not> (pr_ignore_lease req \<and> pr_lease req \<noteq> 0)
     \<and> \<not> put_reuses_missing req s \<and> \<not> put_lease_missing req s"
  unfolding validate_put_def check_key_def Let_def put_lease_def [symmetric]
    put_reuses_missing_def [symmetric] put_lease_missing_def [symmetric]
  by simp

lemma validate_put_no_panic: "validate_put req s \<noteq> Panic"
  by (auto simp: validate_put_def check_key_def Let_def)

lemma put_unfold:
  "put E req s =
     (case validate_put req s of
        Ok _ \<Rightarrow> put_at E req (st_next_rev s) (snd (alloc_revision s))
      | Err e \<Rightarrow> (Err e, s) | Panic \<Rightarrow> (Panic, s))"
  by (simp add: put_def alloc_revision_def Let_def split: res.splits)

lemma put_helpers_alloc [simp]:
  "put_value req (snd (alloc_revision s)) = put_value req s"
  "put_lease req (snd (alloc_revision s)) = put_lease req s"
  "put_record E req r (snd (alloc_revision s)) = put_record E req r s"
  "put_reuses_missing req (snd (alloc_revision s)) = put_reuses_missing req s"
  "put_lease_missing req (snd (alloc_revision s)) = put_lease_missing req s"
  by (simp_all add: put_value_def put_lease_def put_record_def put_reuses_missing_def
      put_lease_missing_def has_lease_def)

lemma put_correct:
  assumes "store_ok s" and "st_next_rev s \<noteq> - 1" and "put_small req"
  shows "store_ok (snd (put E req s)) \<and> fst (put E req s) \<noteq> Panic
    \<and> view_of (snd (put E req s)) =
        (if is_ok (fst (put E req s))
         then spec_put (pr_key req) (put_value req s) (put_lease req s) (st_next_rev s) (view_of s)
         else view_of s)"
proof (cases "validate_put req s")
  case (Ok u)
  let ?t = "snd (alloc_revision s)"
  from alloc_revision_at [OF assms(1,2)] have t: "at_rev (st_next_rev s) ?t" "store_ok ?t" .
  with put_at_correct [of ?t "st_next_rev s" req E] assms(3) show ?thesis
    by (auto simp: put_unfold Ok store_ok_def [of ?t] intro: store_ok_keys [OF t(2)])
qed (use assms validate_put_no_panic in \<open>auto simp: put_unfold\<close>)

lemma put_encodings:
  assumes "get_alive (snd (put E req s)) k = Some ks"
  shows "get_alive s k = Some ks \<or> exact_entry k ks"
proof -
  have w: "get_alive (t\<lparr>st_wal := w\<rparr>) k = get_alive t k" for w t by (simp add: get_alive_def)
  have a: "get_alive (snd (alloc_revision s)) k = get_alive s k" by (simp add: alloc_revision_def Let_def get_alive_def)
  show ?thesis
    using assms
    by (auto simp: put_unfold put_at_eq Let_def get_alive_apply_put exact_entry_put w a
        split: res.splits prod.splits sum.splits if_splits)
qed

text \<open>C2. A put refines the abstract key space: from a well-formed state it never panics, keeps the
  state well-formed, and changes what clients see exactly as the specification of a put at the next
  revision says, or not at all when it is refused.  The encoding that reads return for the key it wrote has
  the creation revision and the version of the specification too: every live row afterwards is a row of
  before, or its encoding is exactly that of its fields.\<close>

theorem put_refines:
  assumes "store_ok s" and "st_next_rev s \<noteq> - 1" and "put_small req"
  shows "store_ok (snd (put E req s)) \<and> fst (put E req s) \<noteq> Panic
    \<and> view_of (snd (put E req s)) =
        (if is_ok (fst (put E req s))
         then spec_put (pr_key req) (put_value req s) (put_lease req s) (st_next_rev s) (view_of s)
         else view_of s)
    \<and> (\<forall>k ks. get_alive (snd (put E req s)) k = Some ks \<longrightarrow> get_alive s k = Some ks \<or> exact_entry k ks)"
  using put_correct [OF assms] put_encodings by blast

definition demo_wal :: wal_file where
  "demo_wal = \<lparr>wf_content = [], wf_path = ''wal'', wf_dirty = False, wf_faults = [], wf_detached = None\<rparr>"

definition demo_put :: "bytes \<Rightarrow> bytes \<Rightarrow> put_request" where
  "demo_put k v = \<lparr>pr_key = k, pr_value = v, pr_lease = 0, pr_prev_kv = False,
     pr_ignore_value = False, pr_ignore_lease = False\<rparr>"

lemma demo_put_ok: "is_ok (fst (put ref_libs (demo_put [1] [2]) (StoreState_new demo_wal)))"
  by (simp add: put_unfold put_at_eq validate_put_def check_key_def demo_put_def
      put_reuses_missing_def put_lease_missing_def put_lease_def Let_def append_kv_no_fault
      StoreState_new_def demo_wal_def)

lemma demo_view:
  "view_of (snd (put ref_libs (demo_put [1] [2]) (StoreState_new demo_wal))) = spec_put [1] [2] 0 1 (\<lambda>_. None)"
proof -
  have "view_of (StoreState_new demo_wal) = (\<lambda>_. None)"
    by (rule ext) (simp add: view_of_def get_alive_def StoreState_new_def bt_get_def)
  then show ?thesis
    using put_correct [OF store_ok_new, of demo_wal "demo_put [1] [2]" ref_libs] demo_put_ok
    by (simp add: put_small_def demo_put_def put_value_def put_lease_def StoreState_new_def)
qed

lemma put_refines_witness:
  "view_of (snd (put ref_libs (demo_put [1] [2]) (StoreState_new demo_wal))) [1] =
     Some \<lparr>a_value = [2], a_create = 1, a_mod = 1, a_version = 1, a_lease = 0\<rparr>"
proof -
  let ?s = "StoreState_new demo_wal" and ?q = "demo_put [1] [2]"
  have n: "st_next_rev ?s = 1" by (simp add: StoreState_new_def)
  have "view_of (snd (put ref_libs ?q ?s)) = spec_put [1] [2] 0 1 (view_of ?s)"
    using put_refines [OF store_ok_new, of demo_wal ?q ref_libs] demo_put_ok n
    by (simp add: put_small_def demo_put_def put_value_def put_lease_def)
  then show ?thesis by (simp add: spec_put_def view_of_def get_alive_def StoreState_new_def bt_get_def)
qed

lemma put_ok_iff:
  "is_ok (fst (put E req s)) \<longleftrightarrow>
     pr_key req \<noteq> [] \<and> \<not> (pr_ignore_value req \<and> pr_value req \<noteq> [])
     \<and> \<not> (pr_ignore_lease req \<and> pr_lease req \<noteq> 0)
     \<and> \<not> put_reuses_missing req s \<and> \<not> put_lease_missing req s
     \<and> fst (append_kv (put_record E req (st_next_rev s) s) (st_wal s)) = Inr ()"
proof -
  have "is_ok (fst (put E req s)) \<longleftrightarrow> validate_put req s = Ok ()
      \<and> is_ok (fst (put_at E req (st_next_rev s) (snd (alloc_revision s))))"
    by (simp add: put_unfold split: res.splits)
  also have "\<dots> \<longleftrightarrow> validate_put req s = Ok ()
      \<and> fst (append_kv (put_record E req (st_next_rev s) s) (st_wal s)) = Inr ()"
    by (auto simp: put_at_eq Let_def validate_put_ok split: prod.splits sum.splits)
  finally show ?thesis by (simp only: validate_put_ok conj_assoc)
qed

lemma put_err_effect:
  assumes "put E req s = (Err e, s')"
  shows "s' = s \<or>
    (e = Status Internal ''etcdserver: wal write failed''
     \<and> (\<exists>w n. s' = s\<lparr>st_next_rev := st_next_rev s + 1, st_wal := w\<rparr>
          \<and> wf_content w = wf_content (st_wal s) @ take n (serialize (put_record E req (st_next_rev s) s))))"
proof (cases "validate_put req s")
  case (Ok u)
  then have v: "\<not> put_reuses_missing req s" "\<not> put_lease_missing req s"
    using validate_put_ok [of req s] by simp_all
  obtain x w where a: "append_kv (put_record E req (st_next_rev s) s) (st_wal s) = (x, w)" by fastforce
  with assms Ok v obtain e' where "x = Inl e'"
    by (cases x) (auto simp: put_unfold put_at_eq Let_def)
  with append_kv_err [of _ _ e' w] a obtain n where
    "wf_content w = wf_content (st_wal s) @ take n (serialize (put_record E req (st_next_rev s) s))"
    by blast
  moreover have "e = Status Internal ''etcdserver: wal write failed''"
    "s' = (snd (alloc_revision s))\<lparr>st_wal := w\<rparr>"
    using assms Ok v a \<open>x = Inl e'\<close> by (simp_all add: put_unfold put_at_eq)
  moreover have "(snd (alloc_revision s))\<lparr>st_wal := w\<rparr> = s\<lparr>st_next_rev := st_next_rev s + 1, st_wal := w\<rparr>"
    by (simp add: alloc_revision_def Let_def)
  ultimately show ?thesis by blast
qed (use assms in \<open>auto simp: put_unfold\<close>)

text \<open>C22. The outcome of a put: it succeeds exactly when the key is not empty, nothing is both ignored and
  provided, a reused value or lease exists, the lease is granted, and the log accepts the record.  When it is
  refused it changes nothing, except that a failing log write consumes the revision and may leave a prefix of the
  record in the file.\<close>

theorem put_outcome:
  "(is_ok (fst (put E req s)) \<longleftrightarrow>
      pr_key req \<noteq> [] \<and> \<not> (pr_ignore_value req \<and> pr_value req \<noteq> [])
      \<and> \<not> (pr_ignore_lease req \<and> pr_lease req \<noteq> 0)
      \<and> \<not> put_reuses_missing req s \<and> \<not> put_lease_missing req s
      \<and> fst (append_kv (put_record E req (st_next_rev s) s) (st_wal s)) = Inr ())
   \<and> (put E req s = (Err e, s') \<longrightarrow> s' = s \<or>
       (e = Status Internal ''etcdserver: wal write failed''
        \<and> (\<exists>w n. s' = s\<lparr>st_next_rev := st_next_rev s + 1, st_wal := w\<rparr>
             \<and> wf_content w = wf_content (st_wal s) @ take n (serialize (put_record E req (st_next_rev s) s)))))"
  using put_ok_iff [of E req s] put_err_effect [of E req s e s'] by blast

lemma put_outcome_witness:
  "\<not> is_ok (fst (put ref_libs (demo_put [] [2]) (StoreState_new demo_wal)))
   \<and> snd (put ref_libs (demo_put [] [2]) (StoreState_new demo_wal)) = StoreState_new demo_wal"
  using put_outcome [of ref_libs "demo_put [] [2]" "StoreState_new demo_wal"
      "Status InvalidArgument ''etcdserver: key is not provided''" "StoreState_new demo_wal"]
  by (simp add: put_unfold validate_put_def check_key_def demo_put_def)

lemma delete_range_unfold:
  "delete_range E req s =
     (if dr_key req = [] then (Err (Status InvalidArgument ''etcdserver: key is not provided''), s)
      else delete_range_at E req (st_next_rev s) (snd (alloc_revision s)))"
  by (simp add: delete_range_def alloc_revision_def check_key_def Let_def)

lemma delete_range_correct:
  assumes "store_ok s" and "st_next_rev s \<noteq> - 1"
    and "dr_key req \<noteq> []"
  shows "store_ok (snd (delete_range E req s))
    \<and> st_next_rev (snd (delete_range E req s)) = st_next_rev s + 1
    \<and> (fst (delete_range E req s) = Panic \<longleftrightarrow> bad_bound (dr_bound req))
    \<and> view_of (snd (delete_range E req s)) =
        (if is_ok (fst (delete_range E req s))
         then spec_delete {k. matches_range (dr_bound req) k} (view_of s)
         else view_of s)"
proof -
  let ?t = "snd (alloc_revision s)"
  from alloc_revision_at [OF assms(1,2)] have t: "at_rev (st_next_rev s) ?t" "store_ok ?t" .
  with delete_range_at_correct [of ?t "st_next_rev s" E req] assms(3) show ?thesis
    by (auto simp: delete_range_unfold store_ok_def [of ?t] same_env_def intro: store_ok_keys [OF t(2)])
qed

definition demo_delete :: "bytes \<Rightarrow> bytes \<Rightarrow> delete_range_request" where
  "demo_delete k e = \<lparr>dr_key = k, dr_range_end = e, dr_prev_kv = True\<rparr>"

text \<open>A state with one key, reached by a put.\<close>

definition demo_state :: store_state where
  "demo_state = snd (put ref_libs (demo_put [1] [2]) (StoreState_new demo_wal))"

lemma demo_state_ok: "store_ok demo_state" "st_next_rev demo_state = 2" "length (st_keys demo_state) = 1"
  "get_alive demo_state [1] \<noteq> None" "wf_faults (st_wal demo_state) = []"
proof -
  let ?s = "StoreState_new demo_wal" and ?q = "demo_put [1] [2]"
  let ?t = "snd (alloc_revision ?s)"
  have v: "validate_put ?q ?s = Ok ()"
    by (simp add: validate_put_ok demo_put_def put_reuses_missing_def put_lease_missing_def put_lease_def)
  then have m: "\<not> put_reuses_missing ?q ?s" "\<not> put_lease_missing ?q ?s" by (simp_all add: validate_put_ok)
  have f: "wf_faults (st_wal ?s) = []" by (simp add: StoreState_new_def demo_wal_def)
  have n: "st_next_rev ?s = 1" "st_keys ?s = []" by (simp_all add: StoreState_new_def)
  define w where "w = snd (append_kv (put_record ref_libs ?q 1 ?s) (st_wal ?s))"
  have w: "append_kv (put_record ref_libs ?q 1 ?s) (st_wal ?s) = (Inr (), w)" "wf_faults w = []"
    unfolding w_def append_kv_no_fault [OF f] using f by simp_all
  from w(1) have d: "demo_state = snd (apply_put [1] (put_value ?q ?s) (put_lease ?q ?s) 1 None (?t\<lparr>st_wal := w\<rparr>))"
    unfolding demo_state_def put_unfold v by (simp add: put_at_eq m n Let_def) (simp add: demo_put_def)
  show "st_next_rev demo_state = 2" "length (st_keys demo_state) = 1" "get_alive demo_state [1] \<noteq> None"
    "wf_faults (st_wal demo_state) = []"
    by (simp_all add: d apply_put_eq n w(2) get_alive_def bt_get_def)
  have "store_ok (snd (put ref_libs ?q ?s))"
    using put_correct [OF store_ok_new, of demo_wal ?q ref_libs] n(1)
    by (simp add: put_small_def demo_put_def)
  then show "store_ok demo_state" by (simp add: demo_state_def)
qed

lemma demo_state_leases: "st_leases demo_state = []"
proof -
  let ?t = "snd (alloc_revision (StoreState_new demo_wal))"
  have k: "keys_ok ?t" "at_rev 1 ?t" "put_small (demo_put [1] [2])"
    using alloc_revision_at [OF store_ok_new, of demo_wal]
    by (simp_all add: store_ok_def StoreState_new_def put_small_def demo_put_def)
  have "validate_put (demo_put [1] [2]) (StoreState_new demo_wal) = Ok ()"
    by (simp add: validate_put_ok demo_put_def put_reuses_missing_def put_lease_missing_def put_lease_def)
  then show ?thesis
    using put_at_correct [OF k, of ref_libs]
    by (simp add: demo_state_def put_unfold same_env_def) (simp add: StoreState_new_def)
qed

text \<open>What a successful delete range reports.\<close>

lemma delete_range_at_ok:
  assumes "keys_ok s" and "at_rev r s"
    and "delete_range_at E req r s = (Ok resp, s')"
  shows "ds_deleted resp = word_of_nat (length (live_in (dr_bound req) s))
    \<and> ds_prev_kvs resp =
        (if dr_prev_kv req
         then map (\<lambda>k. ks_kv_bytes (the (get_alive s k))) (live_in (dr_bound req) s) else [])
    \<and> wf_content (st_wal s') =
        wf_content (st_wal s) @ log_bytes (delete_records E (live_in (dr_bound req) s) r s)"
proof -
  define ks where "ks = live_in (dr_bound req) s"
  have ok: "bt_ok (st_keys s)" using assms(1) by (simp add: keys_ok_def)
  have f: "List.map_filter (\<lambda>p. p) (map (get_alive s) ks) = map (\<lambda>k. the (get_alive s k)) ks"
  proof -
    have "\<forall>k \<in> set ks. get_alive s k \<noteq> None" by (simp add: ks_def set_live_in [OF ok])
    then show ?thesis by (induction ks) (auto simp: map_filter_simps)
  qed
  from assms(3) have nb: "\<not> bad_bound (dr_bound req)"
    by (auto simp: delete_range_at_def delete_targets_eq [OF ok])
  obtain x w where a: "append_kv_batch (delete_records E ks r s) (st_wal s) = (x, w)" by fastforce
  with assms(3) nb obtain u where x: "x = Inr u"
    by (cases x) (auto simp: delete_range_at_def delete_targets_eq [OF ok] ks_def [symmetric])
  define t where "t = snd (apply_deletes ks r (s\<lparr>st_wal := w\<rparr>))"
  have d: "apply_deletes ks r (s\<lparr>st_wal := w\<rparr>) = (Ok (), t)" "st_wal t = w"
    using apply_deletes_correct [of "s\<lparr>st_wal := w\<rparr>" r ks] assms(1,2)
    by (simp_all add: t_def) (metis prod.collapse)
  have "s' = t \<and> ds_deleted resp = word_of_nat (length ks)
      \<and> ds_prev_kvs resp = (if dr_prev_kv req then map ks_kv_bytes (map (\<lambda>k. the (get_alive s k)) ks) else [])"
    using assms(3) nb
    by (auto simp: delete_range_at_def delete_targets_eq [OF ok] ks_def [symmetric] a x d f Let_def)
  with d(2) append_kv_batch_ok [OF a [unfolded x]] show ?thesis by (simp add: ks_def comp_def)
qed

lemma delete_range_at_is_ok:
  assumes "keys_ok s" and "at_rev r s"
    and "\<not> bad_bound (dr_bound req)" and "wf_faults (st_wal s) = []"
  shows "\<exists>resp s'. delete_range_at E req r s = (Ok resp, s')"
proof -
  have ok: "bt_ok (st_keys s)" using assms(1) by (simp add: keys_ok_def)
  have "\<exists>s'. apply_deletes ks r (s\<lparr>st_wal := w\<rparr>) = (Ok (), s')" for ks w
    using apply_deletes_correct [of "s\<lparr>st_wal := w\<rparr>" r ks] assms(1,2) by (simp, metis prod.collapse)
  from this [of "live_in (dr_bound req) s" "snd (append_kv_batch (delete_records E (live_in (dr_bound req) s) r s) (st_wal s))"]
  obtain s' where "apply_deletes (live_in (dr_bound req) s) r
    (s\<lparr>st_wal := snd (append_kv_batch (delete_records E (live_in (dr_bound req) s) r s) (st_wal s))\<rparr>) = (Ok (), s')" ..
  then show ?thesis using assms(3)
    by (simp add: delete_range_at_def delete_targets_eq [OF ok] append_kv_batch_no_fault [OF assms(4)]
        Let_def)
qed

lemma delete_range_is_ok:
  assumes "store_ok s" and "st_next_rev s \<noteq> - 1" and "dr_key req \<noteq> []"
    and "wf_faults (st_wal s) = []" and "\<not> bad_bound (dr_bound req)"
  shows "is_ok (fst (delete_range E req s))"
proof -
  from alloc_revision_at [OF assms(1,2)] have "at_rev (st_next_rev s) (snd (alloc_revision s))" "store_ok (snd (alloc_revision s))" .
  then obtain resp s' where "delete_range_at E req (st_next_rev s) (snd (alloc_revision s)) = (Ok resp, s')"
    using delete_range_at_is_ok [of "snd (alloc_revision s)" "st_next_rev s" req E] assms(4,5) by (auto simp: store_ok_def)
  then show ?thesis using assms(3) by (simp add: delete_range_unfold)
qed

lemma delete_range_report:
  assumes "store_ok s" and "st_next_rev s \<noteq> - 1"
    and "delete_range E req s = (Ok resp, s')"
  shows "ds_deleted resp = word_of_nat (length (live_in (dr_bound req) s))
    \<and> ds_prev_kvs resp =
        (if dr_prev_kv req
         then map (\<lambda>k. ks_kv_bytes (the (get_alive s k))) (live_in (dr_bound req) s) else [])
    \<and> wf_content (st_wal s') = wf_content (st_wal s)
        @ log_bytes (map (\<lambda>k. delete_record E k (st_next_rev s) (the (get_alive s k)))
                       (live_in (dr_bound req) s))"
proof -
  let ?t = "snd (alloc_revision s)"
  from alloc_revision_at [OF assms(1,2)] have t: "at_rev (st_next_rev s) ?t" "store_ok ?t" .
  have k: "dr_key req \<noteq> []" using assms(3) by (auto simp: delete_range_unfold)
  have ok: "bt_ok (st_keys s)" using assms(1) by (simp add: store_ok_def keys_ok_def)
  have live: "live_in b ?t = live_in b s" for b by (simp add: live_in_def)
  have rec: "delete_records E (live_in b s) r ?t =
      map (\<lambda>k. delete_record E k r (the (get_alive s k))) (live_in b s)" for b r
    unfolding delete_records_eq using set_live_in [OF ok, of _ b]
    by (simp add: filter_id_conv [THEN iffD2])
  show ?thesis
    using delete_range_at_ok [of ?t "st_next_rev s" E req resp s'] t assms(3) k
    by (simp add: delete_range_unfold store_ok_def live rec)
qed

text \<open>C11. A delete-range request refines the abstract key space: it removes exactly the keys its bound
  matches, at one revision, keeps the state well-formed, and panics exactly when the end of the
  bound lies before its start.  It succeeds whenever the log accepts its records; then it reports the number of
  live keys in its bound, returns their previous encodings in key order when asked to, and has logged one
  tombstone for each of them.\<close>

theorem delete_range_refines:
  assumes "store_ok s" and "st_next_rev s \<noteq> - 1" and "dr_key req \<noteq> []"
  shows "store_ok (snd (delete_range E req s))
    \<and> st_next_rev (snd (delete_range E req s)) = st_next_rev s + 1
    \<and> (fst (delete_range E req s) = Panic \<longleftrightarrow> bad_bound (dr_bound req))
    \<and> (wf_faults (st_wal s) = [] \<longrightarrow> \<not> bad_bound (dr_bound req) \<longrightarrow> is_ok (fst (delete_range E req s)))
    \<and> view_of (snd (delete_range E req s)) =
        (if is_ok (fst (delete_range E req s))
         then spec_delete {k. matches_range (dr_bound req) k} (view_of s)
         else view_of s)
    \<and> (\<forall>resp s'. delete_range E req s = (Ok resp, s') \<longrightarrow>
         ds_deleted resp = word_of_nat (length (live_in (dr_bound req) s))
         \<and> ds_prev_kvs resp =
             (if dr_prev_kv req
              then map (\<lambda>k. ks_kv_bytes (the (get_alive s k))) (live_in (dr_bound req) s) else [])
         \<and> wf_content (st_wal s') = wf_content (st_wal s)
             @ log_bytes (map (\<lambda>k. delete_record E k (st_next_rev s) (the (get_alive s k)))
                            (live_in (dr_bound req) s)))"
  using delete_range_correct [OF assms, of E] delete_range_report [OF assms(1,2), of E req]
    delete_range_is_ok [OF assms, of E] by blast

lemma delete_range_refines_witness:
  "\<exists>resp s'. delete_range ref_libs (demo_delete [1] []) demo_state = (Ok resp, s') \<and> ds_deleted resp = 1
     \<and> view_of s' [1] = None"
proof -
  have b: "dr_bound (demo_delete [1] []) = Point [1]" by (simp add: demo_delete_def resolve_range_def)
  have k: "dr_key (demo_delete [1] []) \<noteq> []" by (simp add: demo_delete_def)
  have "live_in (Point [1]) demo_state = [[1]]"
    using demo_state_ok(3,4) by (auto simp: live_in_def get_alive_def bt_get_def length_Suc_conv
        split: if_splits option.splits)
  then show ?thesis
    using delete_range_refines [OF demo_state_ok(1) _ k, of ref_libs, unfolded b] demo_state_ok(2,5)
    by (cases "delete_range ref_libs (demo_delete [1] []) demo_state"; cases "fst (delete_range ref_libs (demo_delete [1] []) demo_state)")
      (auto simp: spec_delete_def)
qed

lemma current_revision_eq: "0 < st_next_rev s \<Longrightarrow> x \<le> current_revision s \<longleftrightarrow> x < st_next_rev s"
  using word_le_less_succ [of "st_next_rev s - 1" x] by (auto simp: current_revision_def)

lemma compact_effect:
  assumes "store_ok s"
  shows "store_ok (snd (compact r s)) \<and> st_keys (snd (compact r s)) = st_keys s
    \<and> (is_ok (fst (compact r s)) \<longleftrightarrow> st_compact_rev s < r \<and> r < st_next_rev s)
    \<and> st_compact_rev (snd (compact r s)) = (if is_ok (fst (compact r s)) then r else st_compact_rev s)
    \<and> st_compact_rev s \<le> st_compact_rev (snd (compact r s))"
proof -
  have "0 < st_next_rev s" using assms by (simp add: store_ok_def)
  from current_revision_eq [OF this, of r] assms show ?thesis
    by (auto simp: compact_def Let_def store_ok_def keys_ok_def leases_ok_def)
qed

text \<open>Compaction accepts exactly the revisions above the last compacted one that have been
  allocated; it records the accepted one, never moves backwards, removes no key and keeps the
  state well-formed.\<close>

theorem compact_correct:
  assumes "store_ok s"
  shows "store_ok (snd (compact r s)) \<and> st_keys (snd (compact r s)) = st_keys s
    \<and> (is_ok (fst (compact r s)) \<longleftrightarrow> st_compact_rev s < r \<and> r < st_next_rev s)
    \<and> st_compact_rev (snd (compact r s)) = (if is_ok (fst (compact r s)) then r else st_compact_rev s)
    \<and> st_compact_rev s \<le> st_compact_rev (snd (compact r s))"
  by (rule compact_effect [OF assms])

lemma compact_correct_witness: "store_ok (snd (compact 1 (StoreState_new demo_wal)))"
  using compact_correct [OF store_ok_new] by blast

end
