(* ===== verification/Sort_Kvs.thy ===== *)
theory Sort_Kvs
  imports Kv_Blob "HOL-Library.List_Lexorder"
begin

text \<open>
  Sorting a range result (\<open>sort_kvs\<close> of \<^verbatim>\<open>src/storage/store.rs\<close>).  The two slice operations of the
  standard library that it uses are stated as the interface \<open>std_sort\<close> with the contracts the library
  documents; the top-k argument is proved from the contracts alone, and the model's own operations
  interpret the interface.
\<close>

section \<open>Comparators\<close>

datatype ordering = Less | Equal | Greater

fun reverse_ordering :: "ordering \<Rightarrow> ordering" where
  "reverse_ordering Less = Greater"
| "reverse_ordering Equal = Equal"
| "reverse_ordering Greater = Less"

fun then_with :: "ordering \<Rightarrow> ordering \<Rightarrow> ordering" where
  "then_with Equal o2 = o2"
| "then_with o1 o2 = o1"

text \<open>\<open>Ord::cmp\<close> on integers and on byte slices.\<close>

definition cmp_ord :: "'a::linorder \<Rightarrow> 'a \<Rightarrow> ordering" where
  "cmp_ord x y = (if x < y then Less else if x = y then Equal else Greater)"

text \<open>The compared value for a sort target.\<close>

datatype sort_value = SInt u64 | SBytes bytes

fun cmp_sort_value :: "sort_value \<Rightarrow> sort_value \<Rightarrow> ordering" where
  "cmp_sort_value (SInt x) (SInt y) = cmp_ord x y"
| "cmp_sort_value (SBytes x) (SBytes y) = cmp_ord x y"
| "cmp_sort_value (SInt _) (SBytes _) = Less"
| "cmp_sort_value (SBytes _) (SInt _) = Greater"

text \<open>What the library requires of a comparator: a total preorder.\<close>

definition total_cmp :: "('a \<Rightarrow> 'a \<Rightarrow> ordering) \<Rightarrow> bool" where
  "total_cmp cmp \<longleftrightarrow>
     (\<forall>a b. cmp b a = reverse_ordering (cmp a b))
     \<and> (\<forall>a b c. cmp a b \<noteq> Greater \<longrightarrow> cmp b c \<noteq> Greater \<longrightarrow> cmp a c \<noteq> Greater)"

section \<open>The slice operations\<close>

fun insert_by :: "('a \<Rightarrow> 'a \<Rightarrow> ordering) \<Rightarrow> 'a \<Rightarrow> 'a list \<Rightarrow> 'a list" where
  "insert_by cmp x [] = [x]"
| "insert_by cmp x (y # ys) = (if cmp x y = Greater then y # insert_by cmp x ys else x # y # ys)"

definition sort_unstable_by :: "('a \<Rightarrow> 'a \<Rightarrow> ordering) \<Rightarrow> 'a list \<Rightarrow> 'a list" where
  "sort_unstable_by cmp xs = foldr (insert_by cmp) xs []"

text \<open>The element at index \<open>n\<close> is put where sorting would put it, smaller ones before it.\<close>

definition select_nth_unstable_by :: "nat \<Rightarrow> ('a \<Rightarrow> 'a \<Rightarrow> ordering) \<Rightarrow> 'a list \<Rightarrow> 'a list" where
  "select_nth_unstable_by n cmp xs =
     (let ys = sort_unstable_by cmp xs in rev (take n ys) @ [ys ! n] @ rev (drop (Suc n) ys))"

section \<open>Sorting a result\<close>

record sort_entry =
  se_value :: sort_value
  se_key :: bytes
  se_idx :: u32

definition sort_entry_of :: "i32 \<Rightarrow> nat \<Rightarrow> bytes \<Rightarrow> sort_entry" where
  "sort_entry_of target idx blob =
     (case parse_kv blob of
        Some f \<Rightarrow>
          \<lparr>se_value = (if target = 2 then SInt (f_create_revision f)
                       else if target = 1 then SInt (f_version f)
                       else if target = 4 then SBytes (f_value f)
                       else SInt (f_mod_revision f)),
           se_key = f_key f, se_idx = word_of_nat idx\<rparr>
      | None \<Rightarrow> \<lparr>se_value = SInt 0, se_key = [], se_idx = word_of_nat idx\<rparr>)"

definition cmp_entry :: "bool \<Rightarrow> sort_entry \<Rightarrow> sort_entry \<Rightarrow> ordering" where
  "cmp_entry descending a b =
     (let ord = then_with (cmp_sort_value (se_value a) (se_value b)) (cmp_ord (se_key a) (se_key b))
      in if descending then reverse_ordering ord else ord)"

text \<open>\<open>mem::take\<close> moves each selected blob out and leaves an empty one behind.\<close>

fun take_blobs :: "bytes list \<Rightarrow> nat list \<Rightarrow> bytes list" where
  "take_blobs kvs [] = []"
| "take_blobs kvs (i # is) = kvs ! i # take_blobs (kvs[i := []]) is"

definition top_entries ::
    "('a \<Rightarrow> 'a \<Rightarrow> ordering) \<Rightarrow> nat \<Rightarrow> 'a list \<Rightarrow> 'a list" where
  "top_entries cmp limit entries =
     (let entries =
            (if limit > 0 \<and> min (limit * 64) (2 ^ 64 - 1) \<le> length entries
             then take limit (select_nth_unstable_by (limit - 1) cmp entries)
             else entries)
      in sort_unstable_by cmp entries)"

definition sort_kvs :: "bytes list \<Rightarrow> i32 \<Rightarrow> i32 \<Rightarrow> nat \<Rightarrow> bytes list" where
  "sort_kvs kvs order target limit =
     (if order \<noteq> 1 \<and> order \<noteq> 2 then kvs
      else if target = 0 then (if order = 2 then rev kvs else kvs)
      else
        let descending = (order = 2)
        in if target \<noteq> 2 \<and> target \<noteq> 3 \<and> target \<noteq> 1 \<and> target \<noteq> 4 then kvs
           else
             let entries = map (\<lambda>(idx, blob). sort_entry_of target idx blob) (enumerate 0 kvs);
                 entries = top_entries (cmp_entry descending) limit entries
             in take_blobs kvs (map (\<lambda>e. unat (se_idx e)) entries))"

section \<open>The interface of the slice operations\<close>

lemma sorted_wrt_unique:
  assumes "sorted_wrt R xs" and "sorted_wrt R ys" and "mset xs = mset ys"
    and "\<And>a b. a \<in> set xs \<Longrightarrow> b \<in> set xs \<Longrightarrow> R a b \<Longrightarrow> R b a \<Longrightarrow> a = b"
  shows "xs = ys"
  using assms
proof (induction xs arbitrary: ys)
  case (Cons x xs)
  then obtain y ys' where ys: "ys = y # ys'" by (cases ys) auto
  have set: "set (x # xs) = set ys" using Cons.prems(3) by (rule mset_eq_setD)
  have "x = y"
  proof (rule ccontr)
    assume "x \<noteq> y"
    then have "x \<in> set ys'" "y \<in> set xs" using set ys by auto
    then have "R y x" "R x y" using Cons.prems(1,2) ys by auto
    with \<open>x \<noteq> y\<close> \<open>y \<in> set xs\<close> Cons.prems(4) [of x y] show False by simp
  qed
  with Cons ys show ?case by simp
qed simp

locale std_sort =
  fixes sort_by :: "('a \<Rightarrow> 'a \<Rightarrow> ordering) \<Rightarrow> 'a list \<Rightarrow> 'a list"
    and select_nth :: "nat \<Rightarrow> ('a \<Rightarrow> 'a \<Rightarrow> ordering) \<Rightarrow> 'a list \<Rightarrow> 'a list"
  assumes sort_mset: "total_cmp cmp \<Longrightarrow> mset (sort_by cmp xs) = mset xs"
    and sort_sorted: "total_cmp cmp \<Longrightarrow> sorted_wrt (\<lambda>a b. cmp a b \<noteq> Greater) (sort_by cmp xs)"
    and select_mset: "total_cmp cmp \<Longrightarrow> n < length xs \<Longrightarrow> mset (select_nth n cmp xs) = mset xs"
    and select_before: "total_cmp cmp \<Longrightarrow> n < length xs \<Longrightarrow> a \<in> set (take n (select_nth n cmp xs)) \<Longrightarrow>
      cmp a (select_nth n cmp xs ! n) \<noteq> Greater"
    and select_after: "total_cmp cmp \<Longrightarrow> n < length xs \<Longrightarrow> b \<in> set (drop (Suc n) (select_nth n cmp xs)) \<Longrightarrow>
      cmp (select_nth n cmp xs ! n) b \<noteq> Greater"
begin

text \<open>Selecting the first \<open>k\<close> and sorting only those gives the first \<open>k\<close> of the full sort, when no two
  different elements compare equal.\<close>

lemma top_k:
  assumes cmp: "total_cmp cmp" and k: "0 < k" "k \<le> length xs"
    and strict: "\<And>a b. a \<in> set xs \<Longrightarrow> b \<in> set xs \<Longrightarrow> cmp a b = Equal \<Longrightarrow> a = b"
  shows "sort_by cmp (take k (select_nth (k - 1) cmp xs)) = take k (sort_by cmp xs)"
proof -
  let ?le = "\<lambda>a b. cmp a b \<noteq> Greater"
  define ys where "ys = select_nth (k - 1) cmp xs"
  have n: "k - 1 < length xs" using k by simp
  have m: "mset ys = mset xs" unfolding ys_def by (rule select_mset [OF cmp n])
  then have len: "length ys = length xs" by (metis size_mset)
  have cut: "take k ys = take (k - 1) ys @ [ys ! (k - 1)]"
    using k len take_Suc_conv_app_nth [of "k - 1" ys] by simp
  have refl: "?le a a" for a using cmp unfolding total_cmp_def
    by (metis ordering.distinct(3) reverse_ordering.simps(3))
  have a: "?le x (ys ! (k - 1))" if "x \<in> set (take k ys)" for x
  proof -
    from that have "x \<in> set (take (k - 1) ys) \<or> x = ys ! (k - 1)" unfolding cut by auto
    then show ?thesis using select_before [OF cmp n, of x, folded ys_def] refl by auto
  qed
  have b: "?le (ys ! (k - 1)) x" if "x \<in> set (drop k ys)" for x
    using that select_after [OF cmp n, of x] k unfolding ys_def by simp
  let ?A = "sort_by cmp (take k ys)" and ?B = "sort_by cmp (drop k ys)"
  have sets: "set ?A = set (take k ys)" "set ?B = set (drop k ys)"
    using sort_mset [OF cmp] by (metis set_mset_mset)+
  have "sorted_wrt ?le (?A @ ?B)"
    using sort_sorted [OF cmp] a b cmp sets unfolding sorted_wrt_append total_cmp_def by blast
  moreover have "mset (?A @ ?B) = mset (sort_by cmp xs)"
    using m by (simp add: sort_mset [OF cmp]) (metis append_take_drop_id mset_append)
  moreover have "x = y" if "x \<in> set (?A @ ?B)" "y \<in> set (?A @ ?B)" "?le x y" "?le y x" for x y
  proof -
    have "set (?A @ ?B) = set xs" using sets m by (metis append_take_drop_id set_append set_mset_mset)
    moreover have "cmp x y = Equal" using that(3,4) cmp unfolding total_cmp_def
      by (metis ordering.exhaust reverse_ordering.simps(1))
    ultimately show ?thesis using that strict by simp
  qed
  ultimately have "?A @ ?B = sort_by cmp xs" by (rule sorted_wrt_unique [OF _ sort_sorted [OF cmp]])
  moreover have "length ?A = k" using k len sort_mset [OF cmp, of "take k ys"] by (metis length_take min.absorb2 size_mset)
  ultimately show ?thesis unfolding ys_def [symmetric] by (metis append_eq_conv_conj)
qed

end

section \<open>The model's operations satisfy the interface\<close>

lemma mset_insert_by [simp]: "mset (insert_by cmp x xs) = add_mset x (mset xs)"
  by (induction xs) auto

lemma mset_sort_unstable_by [simp]: "mset (sort_unstable_by cmp xs) = mset xs"
  unfolding sort_unstable_by_def by (induction xs) auto

lemma set_sort_unstable_by [simp]: "set (sort_unstable_by cmp xs) = set xs"
  by (rule mset_eq_setD) simp

lemma length_sort_unstable_by [simp]: "length (sort_unstable_by cmp xs) = length xs"
  by (rule mset_eq_length) simp

lemma sorted_insert_by:
  assumes cmp: "total_cmp cmp" and "sorted_wrt (\<lambda>a b. cmp a b \<noteq> Greater) xs"
  shows "sorted_wrt (\<lambda>a b. cmp a b \<noteq> Greater) (insert_by cmp x xs)"
  using assms(2)
proof (induction xs)
  case (Cons y ys)
  have set: "set (insert_by cmp x ys) = insert x (set ys)"
    using mset_eq_setD [of "insert_by cmp x ys" "x # ys"] by simp
  show ?case
  proof (cases "cmp x y = Greater")
    case True
    then have "cmp y x = Less" using cmp unfolding total_cmp_def by (metis reverse_ordering.simps(3))
    with True Cons show ?thesis by (simp add: set)
  next
    case False
    moreover have "cmp x z \<noteq> Greater" if "z \<in> set ys" for z
    proof -
      have "cmp y z \<noteq> Greater" using that Cons.prems by simp
      with False cmp show ?thesis unfolding total_cmp_def by blast
    qed
    ultimately show ?thesis using Cons.prems by simp
  qed
qed simp

lemma sorted_sort_unstable_by:
  "total_cmp cmp \<Longrightarrow> sorted_wrt (\<lambda>a b. cmp a b \<noteq> Greater) (sort_unstable_by cmp xs)"
  unfolding sort_unstable_by_def by (induction xs) (auto intro: sorted_insert_by)

lemma select_split:
  fixes cmp :: "'a \<Rightarrow> 'a \<Rightarrow> ordering" and xs :: "'a list"
  assumes "n < length xs"
  defines "ys \<equiv> sort_unstable_by cmp xs"
  shows "take n (select_nth_unstable_by n cmp xs) = rev (take n ys)"
    and "select_nth_unstable_by n cmp xs ! n = ys ! n"
    and "drop (Suc n) (select_nth_unstable_by n cmp xs) = rev (drop (Suc n) ys)"
    and "mset (select_nth_unstable_by n cmp xs) = mset xs"
proof -
  have len: "n < length ys" using assms by simp
  then show "take n (select_nth_unstable_by n cmp xs) = rev (take n ys)"
    "select_nth_unstable_by n cmp xs ! n = ys ! n"
    "drop (Suc n) (select_nth_unstable_by n cmp xs) = rev (drop (Suc n) ys)"
    by (simp_all add: select_nth_unstable_by_def ys_def [symmetric] Let_def nth_append)
  have "mset (select_nth_unstable_by n cmp xs) = mset (take n ys @ ys ! n # drop (Suc n) ys)"
    by (simp add: select_nth_unstable_by_def ys_def [symmetric] Let_def)
  also have "take n ys @ ys ! n # drop (Suc n) ys = ys" by (rule id_take_nth_drop [OF len, symmetric])
  finally show "mset (select_nth_unstable_by n cmp xs) = mset xs" by (simp add: ys_def)
qed

interpretation std: std_sort sort_unstable_by select_nth_unstable_by
proof
  fix cmp :: "'a \<Rightarrow> 'a \<Rightarrow> ordering" and xs :: "'a list" and n :: nat and a b :: 'a
  assume cmp: "total_cmp cmp"
  show "mset (sort_unstable_by cmp xs) = mset xs" by simp
  show "sorted_wrt (\<lambda>a b. cmp a b \<noteq> Greater) (sort_unstable_by cmp xs)"
    by (rule sorted_sort_unstable_by [OF cmp])
  assume n: "n < length xs"
  define ys where "ys = sort_unstable_by cmp xs"
  have len: "n < length ys" using n by (simp add: ys_def)
  have srt: "sorted_wrt (\<lambda>a b. cmp a b \<noteq> Greater) (take n ys @ ys ! n # drop (Suc n) ys)"
    using sorted_sort_unstable_by [OF cmp, of xs] id_take_nth_drop [OF len] by (simp add: ys_def)
  note sel = select_split [OF n, of cmp, folded ys_def]
  show "mset (select_nth_unstable_by n cmp xs) = mset xs" by (rule sel(4))
  show "cmp a (select_nth_unstable_by n cmp xs ! n) \<noteq> Greater"
    if "a \<in> set (take n (select_nth_unstable_by n cmp xs))"
    using that srt sel by (auto simp: sorted_wrt_append)
  show "cmp (select_nth_unstable_by n cmp xs ! n) b \<noteq> Greater"
    if "b \<in> set (drop (Suc n) (select_nth_unstable_by n cmp xs))"
    using that srt sel by (auto simp: sorted_wrt_append)
qed

section \<open>The comparator is a total order\<close>

lemma cmp_ord_simps:
  "cmp_ord x y = Less \<longleftrightarrow> x < y" "cmp_ord x y = Equal \<longleftrightarrow> x = y" "cmp_ord x y = Greater \<longleftrightarrow> y < x"
  "cmp_ord x y \<noteq> Greater \<longleftrightarrow> x \<le> y" "reverse_ordering (cmp_ord x y) = cmp_ord y x"
  by (auto simp: cmp_ord_def)

instantiation sort_value :: linorder
begin

definition less_eq_sort_value :: "sort_value \<Rightarrow> sort_value \<Rightarrow> bool" where
  "v \<le> w \<longleftrightarrow> cmp_sort_value v w \<noteq> Greater"

definition less_sort_value :: "sort_value \<Rightarrow> sort_value \<Rightarrow> bool" where
  "v < w \<longleftrightarrow> cmp_sort_value v w = Less"

instance
proof
  fix u v w :: sort_value
  show "(v < w) = (v \<le> w \<and> \<not> w \<le> v)"
    by (cases v; cases w) (auto simp: less_eq_sort_value_def less_sort_value_def cmp_ord_simps)
  show "v \<le> v" by (cases v) (simp_all add: less_eq_sort_value_def cmp_ord_simps)
  show "u \<le> w" if "u \<le> v" "v \<le> w"
    using that by (cases u; cases v; cases w) (auto simp: less_eq_sort_value_def cmp_ord_simps)
  show "v = w" if "v \<le> w" "w \<le> v"
    using that by (cases v; cases w) (auto simp: less_eq_sort_value_def cmp_ord_simps)
  show "v \<le> w \<or> w \<le> v"
    by (cases v; cases w) (auto simp: less_eq_sort_value_def cmp_ord_simps)
qed

end

lemma cmp_sort_value_eq: "cmp_sort_value v w = cmp_ord v w"
proof -
  have "cmp_sort_value v w = Less \<longleftrightarrow> v < w" "cmp_sort_value v w \<noteq> Greater \<longleftrightarrow> v \<le> w"
    by (simp_all add: less_sort_value_def less_eq_sort_value_def)
  then show ?thesis by (cases "cmp_sort_value v w") (auto simp: cmp_ord_def)
qed

text \<open>The comparator orders by the pair of value and key.\<close>

definition entry_le :: "bool \<Rightarrow> sort_entry \<Rightarrow> sort_entry \<Rightarrow> bool" where
  "entry_le d a b \<longleftrightarrow>
     (if d then se_value b < se_value a \<or> se_value a = se_value b \<and> se_key b \<le> se_key a
      else se_value a < se_value b \<or> se_value a = se_value b \<and> se_key a \<le> se_key b)"

lemma cmp_entry_cases:
  "cmp_entry d a b \<noteq> Greater \<longleftrightarrow> entry_le d a b"
  "cmp_entry d a b = Equal \<longleftrightarrow> se_value a = se_value b \<and> se_key a = se_key b"
  "cmp_entry d b a = reverse_ordering (cmp_entry d a b)"
  by (auto simp: cmp_entry_def entry_le_def cmp_sort_value_eq cmp_ord_def Let_def)

lemma total_cmp_entry: "total_cmp (cmp_entry d)"
proof -
  have "entry_le d a c" if "entry_le d a b" "entry_le d b c" for a b c
    using that by (cases d) (auto simp: entry_le_def)
  then show ?thesis unfolding total_cmp_def cmp_entry_cases(1) using cmp_entry_cases(3) by blast
qed

section \<open>Properties\<close>

lemma take_blobs_distinct:
  "distinct is \<Longrightarrow> take_blobs kvs is = map ((!) kvs) is"
proof (induction "is" arbitrary: kvs)
  case (Cons i "is")
  then have "kvs[i := []] ! j = kvs ! j" if "j \<in> set is" for j
    using that by (metis distinct.simps(2) nth_list_update_neq)
  with Cons show ?case by (auto intro!: map_cong)
qed simp

text \<open>The entries of a result, and the blob each of them stands for.\<close>

definition sort_entries :: "i32 \<Rightarrow> bytes list \<Rightarrow> sort_entry list" where
  "sort_entries target kvs = map (\<lambda>(idx, blob). sort_entry_of target idx blob) (enumerate 0 kvs)"

lemma se_idx_of [simp]: "se_idx (sort_entry_of target idx blob) = word_of_nat idx"
  by (simp add: sort_entry_of_def split: option.splits)

lemma sort_entries_idx:
  assumes "length kvs < 2 ^ 32"
  shows "map (\<lambda>e. unat (se_idx e)) (sort_entries target kvs) = [0..<length kvs]"
  using assms by (intro nth_equalityI) (auto simp: sort_entries_def nth_enumerate_eq unat_of_nat_small)

lemma sort_entries_blob:
  assumes "length kvs < 2 ^ 32" and "e \<in> set (sort_entries target kvs)"
  shows "unat (se_idx e) < length kvs"
    and "e = sort_entry_of target (unat (se_idx e)) (kvs ! unat (se_idx e))"
  using assms by (auto simp: sort_entries_def in_set_conv_nth nth_enumerate_eq unat_of_nat_small)

definition sort_wanted :: "i32 \<Rightarrow> i32 \<Rightarrow> bool" where
  "sort_wanted order target \<longleftrightarrow> (order = 1 \<or> order = 2) \<and> (target = 1 \<or> target = 2 \<or> target = 3 \<or> target = 4)"

definition blob_key :: "bytes \<Rightarrow> bytes" where
  "blob_key b = (case parse_kv b of Some f \<Rightarrow> f_key f | None \<Rightarrow> [])"

lemma se_key_of [simp]: "se_key (sort_entry_of target i b) = blob_key b"
  by (simp add: sort_entry_of_def blob_key_def split: option.splits)

lemma distinct_sort_entries:
  assumes "length kvs < 2 ^ 32"
  shows "distinct (map (\<lambda>e. unat (se_idx e)) (sort_entries target kvs))"
  by (simp add: sort_entries_idx [OF assms])

text \<open>With distinct keys no two entries compare equal.\<close>

lemma sort_entries_strict:
  assumes "length kvs < 2 ^ 32" and "distinct (map blob_key kvs)"
    and "a \<in> set (sort_entries target kvs)" and "b \<in> set (sort_entries target kvs)"
    and "cmp_entry d a b = Equal"
  shows "a = b"
proof -
  note a = sort_entries_blob [OF assms(1,3)] and b = sort_entries_blob [OF assms(1,4)]
  have "se_key a = se_key b" using assms(5) by (simp add: cmp_entry_cases(2))
  moreover have "se_key a = blob_key (kvs ! unat (se_idx a))" "se_key b = blob_key (kvs ! unat (se_idx b))"
    using arg_cong [OF a(2), of se_key] arg_cong [OF b(2), of se_key] by (simp_all only: se_key_of)
  ultimately have "map blob_key kvs ! unat (se_idx a) = map blob_key kvs ! unat (se_idx b)"
    using a(1) b(1) by simp
  with assms(2) a(1) b(1) have "unat (se_idx a) = unat (se_idx b)"
    using nth_eq_iff_index_eq [of "map blob_key kvs"] by simp
  from a(2) [unfolded this] b(2) [symmetric] show ?thesis by (rule trans)
qed

lemma top_entries_take:
  assumes "length kvs < 2 ^ 32" and "distinct (map blob_key kvs)"
  shows "\<exists>n. top_entries (cmp_entry d) limit (sort_entries target kvs) =
     take n (sort_unstable_by (cmp_entry d) (sort_entries target kvs)) \<and> (limit = 0 \<longrightarrow> length kvs \<le> n)
       \<and> limit \<le> n"
proof -
  let ?es = "sort_entries target kvs"
  have len: "length ?es = length kvs" by (simp add: sort_entries_def)
  show ?thesis
  proof (cases "limit > 0 \<and> min (limit * 64) (2 ^ 64 - 1) \<le> length ?es")
    case True
    have "limit \<le> length ?es"
    proof (cases "limit * 64 \<le> 2 ^ 64 - 1")
      case True
      with \<open>limit > 0 \<and> _\<close> show ?thesis by simp
    next
      case False
      with True len assms(1) show ?thesis by simp
    qed
    with True std.top_k [OF total_cmp_entry, of limit ?es d] sort_entries_strict [OF assms]
    have "top_entries (cmp_entry d) limit ?es = take limit (sort_unstable_by (cmp_entry d) ?es)"
      by (simp add: top_entries_def)
    with True show ?thesis by auto
  next
    case False
    then have "top_entries (cmp_entry d) limit ?es =
        take (max limit (length kvs)) (sort_unstable_by (cmp_entry d) ?es)"
      unfolding top_entries_def Let_def if_not_P [OF False] using len by simp
    then show ?thesis by (intro exI [of _ "max limit (length kvs)"]) simp
  qed
qed

lemma sort_kvs_take:
  assumes "length kvs < 2 ^ 32" and "distinct (map blob_key kvs)" and "sort_wanted order target"
  shows "\<exists>n. sort_kvs kvs order target limit =
     map (\<lambda>e. kvs ! unat (se_idx e))
       (take n (sort_unstable_by (cmp_entry (order = 2)) (sort_entries target kvs)))
     \<and> (limit = 0 \<longrightarrow> length kvs \<le> n) \<and> limit \<le> n"
proof -
  let ?es = "sort_unstable_by (cmp_entry (order = 2)) (sort_entries target kvs)"
  obtain n where n: "top_entries (cmp_entry (order = 2)) limit (sort_entries target kvs) = take n ?es"
    "limit = 0 \<longrightarrow> length kvs \<le> n" "limit \<le> n" using top_entries_take [OF assms(1,2)] by blast
  have "mset (map (\<lambda>e. unat (se_idx e)) ?es) = mset (map (\<lambda>e. unat (se_idx e)) (sort_entries target kvs))"
    by simp
  then have "distinct (map (\<lambda>e. unat (se_idx e)) ?es)"
    using distinct_sort_entries [OF assms(1), of target] by (metis mset_eq_imp_distinct_iff)
  then have "distinct (map (\<lambda>e. unat (se_idx e)) (take n ?es))" by (simp add: take_map [symmetric])
  then have "sort_kvs kvs order target limit = map (\<lambda>e. kvs ! unat (se_idx e)) (take n ?es)"
    using assms(3) n(1) take_blobs_distinct
    by (auto simp: sort_kvs_def sort_wanted_def sort_entries_def [symmetric] Let_def)
  with n show ?thesis by blast
qed

text \<open>The order of the protocol on the rows themselves: the target names a field, 0 the key, 1 the version, 2 the
  creation revision, 3 the modification revision and 4 the value, compared as unsigned numbers or bytewise; rows that
  agree in it are ordered by their keys.\<close>

definition row_le :: "i32 \<Rightarrow> key_value \<Rightarrow> key_value \<Rightarrow> bool" where
  "row_le target a b =
     (if target = 0 then kv_key a \<le> kv_key b
      else if target = 1 then kv_version a < kv_version b \<or> kv_version a = kv_version b \<and> kv_key a \<le> kv_key b
      else if target = 2 then
        kv_create_revision a < kv_create_revision b \<or> kv_create_revision a = kv_create_revision b \<and> kv_key a \<le> kv_key b
      else if target = 3 then
        kv_mod_revision a < kv_mod_revision b \<or> kv_mod_revision a = kv_mod_revision b \<and> kv_key a \<le> kv_key b
      else kv_value a < kv_value b \<or> kv_value a = kv_value b \<and> kv_key a \<le> kv_key b)"

definition encoded_row :: "key_value \<Rightarrow> bytes" where
  "encoded_row r = kv_blob (kv_key r) (kv_value r) (kv_create_revision r) (kv_mod_revision r) (kv_version r) (kv_lease r)"

definition rows_ok :: "key_value list \<Rightarrow> bool" where
  "rows_ok rows \<longleftrightarrow> length rows < 2 ^ 32 \<and> sorted_wrt (\<lambda>a b. kv_key a < kv_key b) rows
     \<and> list_all (\<lambda>r. length (kv_key r) < 2 ^ 32 \<and> length (kv_value r) < 2 ^ 32) rows"

lemma sort_value_less: "SInt x < SInt y \<longleftrightarrow> x < y" "SBytes b < SBytes c \<longleftrightarrow> b < c"
  by (simp_all add: less_sort_value_def cmp_ord_simps)

lemma entry_le_rows:
  assumes "length (kv_key a) < 2 ^ 32" "length (kv_value a) < 2 ^ 32" "length (kv_key b) < 2 ^ 32" "length (kv_value b) < 2 ^ 32"
    and "target = 1 \<or> target = 2 \<or> target = 3 \<or> target = 4"
  shows "entry_le d (sort_entry_of target i (encoded_row a)) (sort_entry_of target j (encoded_row b))
    \<longleftrightarrow> (if d then row_le target b a else row_le target a b)"
proof -
  have "parse_kv (encoded_row r) = Some \<lparr>f_key = kv_key r, f_create_revision = kv_create_revision r,
      f_mod_revision = kv_mod_revision r, f_version = kv_version r, f_value = kv_value r\<rparr>" if "r = a \<or> r = b" for r
    using that assms(1-4) by (auto simp: encoded_row_def parse_kv_blob)
  then have p: "parse_kv (encoded_row a) = Some \<lparr>f_key = kv_key a, f_create_revision = kv_create_revision a,
      f_mod_revision = kv_mod_revision a, f_version = kv_version a, f_value = kv_value a\<rparr>"
    "parse_kv (encoded_row b) = Some \<lparr>f_key = kv_key b, f_create_revision = kv_create_revision b,
      f_mod_revision = kv_mod_revision b, f_version = kv_version b, f_value = kv_value b\<rparr>" by blast+
  show ?thesis using assms(5)
    by (elim disjE; cases d) (auto simp: entry_le_def sort_entry_of_def p row_le_def sort_value_less)
qed

lemma sort_kvs_rows:
  assumes "rows_ok rows" and "sort_wanted order target"
  shows "\<exists>out. sort_kvs (map encoded_row rows) order target 0 = map encoded_row out \<and> mset out = mset rows
    \<and> sorted_wrt (if order = 2 then (\<lambda>a b. row_le target b a) else row_le target) out
    \<and> take limit (sort_kvs (map encoded_row rows) order target limit) = take limit (map encoded_row out)"
proof -
  let ?kvs = "map encoded_row rows"
  let ?es = "sort_unstable_by (cmp_entry (order = 2)) (sort_entries target ?kvs)"
  define row :: "sort_entry \<Rightarrow> key_value" where "row = (\<lambda>e. rows ! unat (se_idx e))"
  have small: "length (kv_key r) < 2 ^ 32 \<and> length (kv_value r) < 2 ^ 32" if "r \<in> set rows" for r
    using assms(1) that by (simp add: rows_ok_def list_all_iff)
  have len: "length ?kvs < 2 ^ 32" using assms(1) by (simp add: rows_ok_def)
  have "map blob_key ?kvs = map kv_key rows" using small by (simp add: blob_key_def encoded_row_def parse_kv_blob)
  moreover have "distinct (map kv_key rows)"
    using assms(1) strict_sorted_iff [of "map kv_key rows"] by (simp add: rows_ok_def sorted_wrt_map)
  ultimately have dist: "distinct (map blob_key ?kvs)" by metis
  have idx: "unat (se_idx e) < length rows" "e = sort_entry_of target (unat (se_idx e)) (encoded_row (row e))"
    if "e \<in> set ?es" for e
    using sort_entries_blob [OF len, of e target] that by (simp_all add: row_def)
  have b: "map (\<lambda>e. ?kvs ! unat (se_idx e)) (take n ?es) = map encoded_row (take n (map row ?es))" for n
    using idx(1) by (auto simp: take_map row_def dest: in_set_takeD)
  obtain n where n: "sort_kvs ?kvs order target 0 = map encoded_row (take n (map row ?es))" "length ?kvs \<le> n"
    using sort_kvs_take [OF len dist assms(2), of 0] b by metis
  obtain k where k: "sort_kvs ?kvs order target limit = map encoded_row (take k (map row ?es))" "limit \<le> k"
    using sort_kvs_take [OF len dist assms(2), of limit] b by metis
  have full: "sort_kvs ?kvs order target 0 = map encoded_row (map row ?es)" using n by (simp add: sort_entries_def)
  have "map row (sort_entries target ?kvs) = map ((!) rows) [0..<length rows]"
    using sort_entries_idx [OF len, of target] by (metis (no_types, lifting) comp_apply length_map list.map_comp map_eq_conv row_def)
  then have m: "mset (map row ?es) = mset rows" by (metis map_nth mset_map mset_sort_unstable_by)
  have "sorted_wrt (entry_le (order = 2)) ?es"
    using std.sort_sorted [OF total_cmp_entry, of "order = 2"] by (simp add: cmp_entry_cases(1))
  then have "sorted_wrt (\<lambda>x y. (if order = 2 then (\<lambda>a b. row_le target b a) else row_le target) (row x) (row y)) ?es"
  proof (rule sorted_wrt_mono_rel [rotated])
    fix x y assume x: "x \<in> set ?es" and y: "y \<in> set ?es" and le: "entry_le (order = 2) x y"
    have "row x \<in> set rows" "row y \<in> set rows" using idx(1) [OF x] idx(1) [OF y] by (simp_all add: row_def)
    then have "entry_le (order = 2) x y \<longleftrightarrow> (if order = 2 then row_le target (row y) (row x) else row_le target (row x) (row y))"
      using entry_le_rows [of "row x" "row y" target "order = 2" "unat (se_idx x)" "unat (se_idx y)"] small assms(2)
        idx(2) [OF x] idx(2) [OF y] by (simp add: sort_wanted_def)
    with le show "(if order = 2 then (\<lambda>a b. row_le target b a) else row_le target) (row x) (row y)"
      by (cases "order = 2") simp_all
  qed
  then show ?thesis using full m k
    by (intro exI [of _ "map row ?es"]) (simp add: sorted_wrt_map take_map min_absorb1)
qed

text \<open>C17. Sorting a range result.  The input are the encodings of rows in strictly ascending order of their keys, as
  every range produces them.  The full sort returns the encodings of a permutation of the rows; for the orders ASCEND (1)
  and DESCEND (2) and the targets KEY, VERSION, CREATE, MOD and VALUE (0 to 4) it is in that order of the field named,
  the key deciding between equal ones, and for any other order or target the result is left as it is.  The result under
  a limit agrees with the full sort up to that limit, also when only the smallest entries are selected and sorted.\<close>

theorem sort_kvs_correct:
  assumes "rows_ok rows"
  shows "\<exists>out. sort_kvs (map encoded_row rows) order target 0 = map encoded_row out \<and> mset out = mset rows
    \<and> (if order \<in> {1, 2} \<and> target \<in> {0, 1, 2, 3, 4}
       then sorted_wrt (if order = 2 then (\<lambda>a b. row_le target b a) else row_le target) out else out = rows)
    \<and> take limit (sort_kvs (map encoded_row rows) order target limit) = take limit (map encoded_row out)"
proof (cases "sort_wanted order target")
  case True
  then have w: "order \<in> {1, 2} \<and> target \<in> {0, 1, 2, 3, 4}" by (auto simp: sort_wanted_def)
  show ?thesis unfolding if_P [OF w] by (rule sort_kvs_rows [OF assms True])
next
  case False
  have asc: "sorted_wrt (\<lambda>a b. kv_key a \<le> kv_key b) rows"
    using assms by (auto simp: rows_ok_def intro: sorted_wrt_mono_rel [rotated])
  show ?thesis
  proof (cases "order \<in> {1, 2} \<and> target = 0")
    case True
    let ?out = "if order = 2 then rev rows else rows"
    have "sort_kvs (map encoded_row rows) order target l = map encoded_row ?out" for l
      using True by (auto simp: sort_kvs_def rev_map)
    moreover have "sorted_wrt (if order = 2 then (\<lambda>a b. row_le target b a) else row_le target) ?out"
      using asc True by (simp add: row_le_def [abs_def] sorted_wrt_rev)
    ultimately show ?thesis using True by (intro exI [of _ ?out]) simp
  next
    case no: False
    then have w: "\<not> (order \<in> {1, 2} \<and> target \<in> {0, 1, 2, 3, 4})" using False by (auto simp: sort_wanted_def)
    have "sort_kvs (map encoded_row rows) order target l = map encoded_row rows" for l
      using False no by (auto simp: sort_kvs_def sort_wanted_def)
    then show ?thesis unfolding if_not_P [OF w] by (intro exI [of _ rows]) simp
  qed
qed

text \<open>Three rows: sorted by their values in descending order, the limit 1 gives the one with the greatest value.\<close>

definition demo_rows :: "key_value list" where
  "demo_rows =
     [\<lparr>kv_key = [1], kv_create_revision = 4, kv_mod_revision = 6, kv_version = 2, kv_value = [7], kv_lease = 0\<rparr>,
      \<lparr>kv_key = [2], kv_create_revision = 5, kv_mod_revision = 5, kv_version = 1, kv_value = [9], kv_lease = 0\<rparr>,
      \<lparr>kv_key = [3], kv_create_revision = 3, kv_mod_revision = 7, kv_version = 3, kv_value = [8], kv_lease = 0\<rparr>]"

lemma sort_kvs_correct_witness:
  "\<exists>out. mset out = mset demo_rows \<and> sorted_wrt (\<lambda>a b. row_le 4 b a) out
     \<and> take 1 (sort_kvs (map encoded_row demo_rows) 2 4 1) = take 1 (map encoded_row out)"
proof -
  have "rows_ok demo_rows" by (simp add: rows_ok_def demo_rows_def)
  from sort_kvs_correct [OF this, of 2 4 1] show ?thesis by auto
qed

end
