(* ===== verification/Range_Query.thy ===== *)
theory Range_Query
  imports Kv_Ops Sort_Kvs
begin

text \<open>
  Range reads (\<open>range\<close>, \<open>range_current\<close>, \<open>range_historical\<close> of \<^verbatim>\<open>src/storage/store.rs\<close> and
  \<open>scan_wal_range\<close> of \<^verbatim>\<open>src/storage/mod.rs\<close>).  A read of the current state holds one lock.  A
  historical read takes the lock several times and scans the log file in between, so it is given one
  state per acquisition: \<open>\<sigma> i\<close> is the state at the \<open>i\<close>-th one.
\<close>

section \<open>Reading the current state\<close>

text \<open>\<open>Vec::with_capacity\<close> of \<open>Bytes\<close> values, which are four machine words, panics beyond
  \<open>isize::MAX\<close> bytes; smaller allocations are taken to succeed.\<close>

definition BYTES_SIZE :: nat where "BYTES_SIZE = 32"

definition capacity_overflow :: "nat \<Rightarrow> bool" where
  "capacity_overflow cap \<longleftrightarrow> cap * BYTES_SIZE > 2 ^ 63 - 1"

text \<open>The blob returned for a row.\<close>

definition row_blob :: "range_request \<Rightarrow> bytes \<Rightarrow> bytes \<Rightarrow> bytes" where
  "row_blob req key kv_bytes =
     (if rr_keys_only req then (let (kv_bytes, _, _) = encode_kv key [] 0 0 0 0 in kv_bytes)
      else kv_bytes)"

text \<open>The point lookup accepts a row under these conditions, the loop skips it otherwise; revisions
  are compared as signed integers.\<close>

definition point_row_ok :: "range_request \<Rightarrow> key_state \<Rightarrow> bool" where
  "point_row_ok req ks \<longleftrightarrow>
     ks_delete_revision ks = 0
     \<and> (sint (rr_min_mod_revision req) \<le> 0
         \<or> sint (ks_mod_revision ks) \<ge> sint (rr_min_mod_revision req))
     \<and> (sint (rr_max_mod_revision req) \<le> 0
         \<or> sint (ks_mod_revision ks) \<le> sint (rr_max_mod_revision req))
     \<and> (sint (rr_min_create_revision req) \<le> 0
         \<or> sint (ks_create_revision ks) \<ge> sint (rr_min_create_revision req))
     \<and> (sint (rr_max_create_revision req) \<le> 0
         \<or> sint (ks_create_revision ks) \<le> sint (rr_max_create_revision req))"

definition row_filtered :: "range_request \<Rightarrow> key_state \<Rightarrow> bool" where
  "row_filtered req ks \<longleftrightarrow>
     (sint (rr_min_mod_revision req) > 0
        \<and> sint (ks_mod_revision ks) < sint (rr_min_mod_revision req))
     \<or> (sint (rr_max_mod_revision req) > 0
        \<and> sint (ks_mod_revision ks) > sint (rr_max_mod_revision req))
     \<or> (sint (rr_min_create_revision req) > 0
        \<and> sint (ks_create_revision ks) < sint (rr_min_create_revision req))
     \<or> (sint (rr_max_create_revision req) > 0
        \<and> sint (ks_create_revision ks) > sint (rr_max_create_revision req))"

fun prefix_of_bound :: "range_bound \<Rightarrow> bytes option" where
  "prefix_of_bound (Prefix p) = Some p"
| "prefix_of_bound _ = None"

definition leaves_prefix :: "bytes option \<Rightarrow> bytes \<Rightarrow> bool" where
  "leaves_prefix prefix_key k = (case prefix_key of Some p \<Rightarrow> \<not> prefix p k | None \<Rightarrow> False)"

fun current_loop ::
    "range_request \<Rightarrow> bytes option \<Rightarrow> (bytes \<times> key_state) list \<Rightarrow> bytes list" where
  "current_loop req prefix_key [] = []"
| "current_loop req prefix_key ((k, ks) # es) =
     (if leaves_prefix prefix_key k then []
      else if ks_delete_revision ks \<noteq> 0 then current_loop req prefix_key es
      else if row_filtered req ks then current_loop req prefix_key es
      else row_blob req k (ks_kv_bytes ks) # current_loop req prefix_key es)"

text \<open>The bounds of a scan; a point is \<open>unreachable!\<close> there.\<close>

fun range_current_bounds :: "range_bound \<Rightarrow> (bytes option \<times> bytes option) option" where
  "range_current_bounds All = Some (None, None)"
| "range_current_bounds (Point _) = None"
| "range_current_bounds (From k) = Some (Some k, None)"
| "range_current_bounds (Prefix p) = Some (Some p, None)"
| "range_current_bounds (Range start end) = Some (Some start, Some end)"

definition range_point :: "store_state \<Rightarrow> range_request \<Rightarrow> bytes \<Rightarrow> range_response res" where
  "range_point s req key =
     (let kvs = (case bt_get (st_keys s) key of
                   Some ks \<Rightarrow> if point_row_ok req ks then [row_blob req key (ks_kv_bytes ks)] else []
                 | None \<Rightarrow> []);
          count = word_of_nat (length kvs)
      in if rr_count_only req then
           Ok \<lparr>rs_header = Some (header s), rs_kvs = [], rs_more = False, rs_count = count\<rparr>
         else Ok \<lparr>rs_header = Some (header s), rs_kvs = kvs, rs_more = False, rs_count = count\<rparr>)"

definition range_scan :: "store_state \<Rightarrow> range_request \<Rightarrow> range_bound \<Rightarrow> range_response res" where
  "range_scan s req bound =
     (let cap = (if sint (rr_limit req) > 0 then unat (rr_limit req) else length (st_keys s))
      in if capacity_overflow cap then Panic
         else case range_current_bounds bound of
           None \<Rightarrow> Panic
         | Some (range_start, range_end) \<Rightarrow>
             (case bt_range range_start range_end (st_keys s) of
                None \<Rightarrow> Panic
              | Some es \<Rightarrow>
                  let kvs = current_loop req (prefix_of_bound bound) es;
                      count = word_of_nat (length kvs) :: i64
                  in if rr_count_only req then
                       Ok \<lparr>rs_header = Some (header s), rs_kvs = [], rs_more = False,
                           rs_count = count\<rparr>
                     else
                       let limit = (if sint (rr_limit req) > 0 then unat (rr_limit req) else 0);
                           kvs = sort_kvs kvs (rr_sort_order req) (rr_sort_target req) limit;
                           more = (sint (rr_limit req) > 0 \<and> sint count > sint (rr_limit req));
                           kvs = (if more then take (unat (rr_limit req)) kvs else kvs)
                       in Ok \<lparr>rs_header = Some (header s), rs_kvs = kvs, rs_more = more,
                              rs_count = count\<rparr>))"

definition range_current :: "store_state \<Rightarrow> range_request \<Rightarrow> range_response res" where
  "range_current s req =
     (case resolve_range (rr_key req) (rr_range_end req) of
        Point key \<Rightarrow> range_point s req key
      | bound \<Rightarrow> range_scan s req bound)"

section \<open>Reading at a revision\<close>

text \<open>The log scan: the last value of every key in the range at a revision.  Iteration order of the
  hash map plays no role, so an ordered map stands for it.\<close>

definition scan_wal_step ::
    "range_bound \<Rightarrow> u64 \<Rightarrow> (bytes, bytes) btree \<Rightarrow> kv_wal_record \<Rightarrow> (bytes, bytes) btree" where
  "scan_wal_step bound up_to_rev m r =
     (let revision = (case rec_mod_revision r of Some v \<Rightarrow> v | None \<Rightarrow> 0)
      in case rec_key r of
           None \<Rightarrow> m
         | Some key \<Rightarrow>
             if \<not> matches_range bound key then m
             else if revision \<le> up_to_rev then
               (if rec_flags r AND DELETED \<noteq> 0 then bt_remove key m
                else bt_insert key (rec_kv_bytes r) m)
             else m)"

definition scan_wal_range ::
    "libs \<Rightarrow> io_error + bytes option \<Rightarrow> bytes \<Rightarrow> bytes \<Rightarrow> u64 \<Rightarrow> io_error + (bytes, bytes) btree" where
  "scan_wal_range E file key range_end up_to_rev =
     (case file of
        Inl e \<Rightarrow> Inl e
      | Inr None \<Rightarrow> Inr []
      | Inr (Some content) \<Rightarrow>
          (case scan_kv_file E content 0 of
             (rs, Inl e) \<Rightarrow> Inl e
           | (rs, Inr _) \<Rightarrow>
               Inr (foldl (scan_wal_step (resolve_range key range_end) up_to_rev) [] rs)))"

text \<open>Phase 1: the rows that are right as they stand, and the keys that need the log.\<close>

definition hist_deleted_row ::
    "range_request \<Rightarrow> u64 \<Rightarrow> bytes \<Rightarrow> key_state \<Rightarrow> (bytes \<times> bytes) list \<times> bytes list" where
  "hist_deleted_row req target_rev k ks =
     (if ks_create_revision ks > target_rev then ([], [])
      else if ks_delete_revision ks \<le> target_rev then ([], [])
      else if ks_mod_revision ks \<le> target_rev then ([(k, row_blob req k (ks_kv_bytes ks))], [])
      else ([], [k]))"

definition hist_live_row ::
    "range_request \<Rightarrow> u64 \<Rightarrow> bytes \<Rightarrow> key_state \<Rightarrow> (bytes \<times> bytes) list \<times> bytes list" where
  "hist_live_row req target_rev k ks =
     (if row_filtered req ks then ([], [])
      else if ks_create_revision ks > target_rev then (if ks_rebirth ks then ([], [k]) else ([], []))
      else if ks_mod_revision ks \<le> target_rev then ([(k, row_blob req k (ks_kv_bytes ks))], [])
      else ([], [k]))"

fun hist_phase1 ::
    "range_request \<Rightarrow> u64 \<Rightarrow> bytes option \<Rightarrow> (bytes \<times> key_state) list
       \<Rightarrow> (bytes \<times> bytes) list \<times> bytes list" where
  "hist_phase1 req target_rev prefix_key [] = ([], [])"
| "hist_phase1 req target_rev prefix_key ((k, ks) # es) =
     (if leaves_prefix prefix_key k then ([], [])
      else
        let (d, st) = (if ks_delete_revision ks \<noteq> 0 then hist_deleted_row req target_rev k ks
                       else hist_live_row req target_rev k ks);
            (d', st') = hist_phase1 req target_rev prefix_key es
        in (d @ d', st @ st'))"

definition hist_header :: "u64 \<Rightarrow> response_header" where
  "hist_header target_rev =
     \<lparr>cluster_id = 1, member_id = 1, hdr_revision = target_rev, raft_term = 1\<rparr>"

definition hist_early_return ::
    "range_request \<Rightarrow> u64 \<Rightarrow> (bytes \<times> bytes) list \<Rightarrow> range_response" where
  "hist_early_return req target_rev phase1_direct =
     (let count = word_of_nat (length phase1_direct) :: i64
      in if rr_count_only req then
           \<lparr>rs_header = Some (hist_header target_rev), rs_kvs = [], rs_more = False, rs_count = count\<rparr>
         else
           let kvs = map snd phase1_direct;
               limit = (if sint (rr_limit req) > 0 then unat (rr_limit req) else 0);
               kvs = sort_kvs kvs (rr_sort_order req) (rr_sort_target req) limit;
               more = (sint (rr_limit req) > 0 \<and> sint count > sint (rr_limit req));
               kvs = (if more then take (unat (rr_limit req)) kvs else kvs)
           in \<lparr>rs_header = Some (hist_header target_rev), rs_kvs = kvs, rs_more = more,
               rs_count = count\<rparr>)"

text \<open>Phase 3: merge; the fallback for a key the log does not have reads the state again.\<close>

definition merge_direct ::
    "range_request \<Rightarrow> (bytes \<times> bytes) list \<Rightarrow> (bytes, bytes) btree" where
  "merge_direct req phase1_direct =
     foldl (\<lambda>m (key, kv_bytes). bt_insert key (row_blob req key kv_bytes) m) [] phase1_direct"

fun merge_stale ::
    "range_request \<Rightarrow> (bytes, bytes) btree \<Rightarrow> (nat \<Rightarrow> store_state) \<Rightarrow> nat \<Rightarrow> bytes list
       \<Rightarrow> (bytes, bytes) btree \<Rightarrow> (bytes, bytes) btree" where
  "merge_stale req wal_state \<sigma> i [] merged = merged"
| "merge_stale req wal_state \<sigma> i (key # keys) merged =
     (let merged = (case bt_get wal_state key of
                      Some wal_kv \<Rightarrow> bt_insert key (row_blob req key wal_kv) merged
                    | None \<Rightarrow> merged)
      in if bt_get merged key = None then
           (let merged = (case get_alive (\<sigma> i) key of
                            Some ks \<Rightarrow> bt_insert key (row_blob req key (ks_kv_bytes ks)) merged
                          | None \<Rightarrow> merged)
            in merge_stale req wal_state \<sigma> (i + 1) keys merged)
         else merge_stale req wal_state \<sigma> i keys merged)"

definition merge_rest ::
    "range_request \<Rightarrow> range_bound \<Rightarrow> (bytes, bytes) btree \<Rightarrow> (bytes, bytes) btree
       \<Rightarrow> (bytes, bytes) btree" where
  "merge_rest req bound wal_state merged =
     foldl (\<lambda>m (key, wal_kv).
              if bt_get m key \<noteq> None then m
              else if \<not> matches_range bound key then m
              else bt_insert key (row_blob req key wal_kv) m)
       merged (bt_iter wal_state)"

definition hist_response ::
    "range_request \<Rightarrow> u64 \<Rightarrow> nat \<Rightarrow> (bytes, bytes) btree \<Rightarrow> range_response" where
  "hist_response req target_rev limit merged =
     (let count = word_of_nat (length merged) :: i64
      in if rr_count_only req then
           \<lparr>rs_header = Some (hist_header target_rev), rs_kvs = [], rs_more = False, rs_count = count\<rparr>
         else
           let kvs = map snd (bt_iter merged);
               kvs = sort_kvs kvs (rr_sort_order req) (rr_sort_target req) limit;
               kvs = take limit kvs;
               more = (sint (rr_limit req) > 0 \<and> sint count > sint (rr_limit req))
           in \<lparr>rs_header = Some (hist_header target_rev), rs_kvs = kvs, rs_more = more,
               rs_count = count\<rparr>)"

definition range_historical ::
    "libs \<Rightarrow> (nat \<Rightarrow> store_state) \<Rightarrow> io_error + bytes option \<Rightarrow> range_request \<Rightarrow> u64
       \<Rightarrow> range_response res" where
  "range_historical E \<sigma> file req target_rev =
     (let bound = resolve_range (rr_key req) (rr_range_end req);
          limit = (if sint (rr_limit req) > 0 then unat (rr_limit req) else 2 ^ 64 - 1);
          (range_start, range_end) = btree_bounds bound
      in case bt_range range_start range_end (st_keys (\<sigma> 0)) of
           None \<Rightarrow> Panic
         | Some es \<Rightarrow>
             let (phase1_direct, phase1_stale_keys) =
                   hist_phase1 req target_rev (prefix_of_bound bound) es
             in if phase1_stale_keys = [] then Ok (hist_early_return req target_rev phase1_direct)
                else case scan_wal_range E file (rr_key req) (rr_range_end req) target_rev of
                  Inl e \<Rightarrow> Err (Status Internal ''wal scan failed'')
                | Inr wal_state \<Rightarrow>
                    let merged = merge_direct req phase1_direct;
                        merged = merge_stale req wal_state \<sigma> 1 phase1_stale_keys merged;
                        merged = merge_rest req bound wal_state merged
                    in Ok (hist_response req target_rev limit merged))"

text \<open>\<open>range\<close>: the states seen are that of \<open>current_revision\<close>, that of \<open>compact_rev\<close> and those of
  the read itself.\<close>

definition range_store ::
    "libs \<Rightarrow> store_state \<Rightarrow> store_state \<Rightarrow> (nat \<Rightarrow> store_state) \<Rightarrow> io_error + bytes option
       \<Rightarrow> range_request \<Rightarrow> range_response res" where
  "range_store E s_rev s_compact \<sigma> file req =
     (case check_key (rr_key req) of
        Err e \<Rightarrow> Err e
      | Panic \<Rightarrow> Panic
      | Ok _ \<Rightarrow>
          let target_rev = (if sint (rr_revision req) > 0 then rr_revision req else 0) :: u64;
              current_rev = current_revision s_rev
          in if target_rev > current_rev then
               Err (Status OutOfRange
                      ''etcdserver: mvcc: required revision is a future revision'')
             else if target_rev > 0 \<and> target_rev < st_compact_rev s_compact then
               Err (Status OutOfRange ''etcdserver: mvcc: required revision has been compacted'')
             else if target_rev > 0 then range_historical E \<sigma> file req target_rev
             else range_current (\<sigma> 0) req)"

section \<open>Lemmas\<close>

lemma current_loop_eq:
  "current_loop req pk es =
     map (\<lambda>e. row_blob req (fst e) (ks_kv_bytes (snd e)))
       (filter (\<lambda>e. is_alive (snd e) \<and> \<not> row_filtered req (snd e))
          (takeWhile (\<lambda>e. \<not> leaves_prefix pk (fst e)) es))"
  by (induction req pk es rule: current_loop.induct) (auto simp: is_alive_def)

lemma point_row_ok_eq: "point_row_ok req ks \<longleftrightarrow> is_alive ks \<and> \<not> row_filtered req ks"
  by (auto simp: point_row_ok_def row_filtered_def is_alive_def)

abbreviation rr_bound :: "range_request \<Rightarrow> range_bound" where
  "rr_bound req \<equiv> resolve_range (rr_key req) (rr_range_end req)"

text \<open>The rows a request selects from the current state, in key order, and their blobs.\<close>

definition range_rows :: "range_request \<Rightarrow> store_state \<Rightarrow> (bytes \<times> key_state) list" where
  "range_rows req s =
     filter (\<lambda>e. matches_range (rr_bound req) (fst e) \<and> is_alive (snd e) \<and> \<not> row_filtered req (snd e))
       (st_keys s)"

definition range_blobs :: "range_request \<Rightarrow> store_state \<Rightarrow> bytes list" where
  "range_blobs req s = map (\<lambda>e. row_blob req (fst e) (ks_kv_bytes (snd e))) (range_rows req s)"

lemma length_range_blobs: "length (range_blobs req s) = length (range_rows req s)"
  by (simp add: range_blobs_def)

text \<open>A scan over the library's range of a bound sees the keys the bound matches.\<close>

lemma scan_rows:
  assumes "bt_ok m" and "\<not> bad_bound b" and "range_current_bounds b = Some (lo, hi)"
    and "bt_range lo hi m = Some es"
  shows "takeWhile (\<lambda>e. \<not> leaves_prefix (prefix_of_bound b) (fst e)) es =
     filter (\<lambda>e. matches_range b (fst e)) m"
  using assms takeWhile_prefix [OF assms(1)]
  by (cases b) (auto simp: bt_range_def leaves_prefix_def takeWhile_eq_all_conv split: if_splits)

lemma bt_range_bounds:
  "range_current_bounds b = Some (lo, hi) \<Longrightarrow> bt_range lo hi m = None \<longleftrightarrow> bad_bound b"
  by (cases b) (auto simp: bt_range_def split: if_splits)

lemma current_loop_rows:
  assumes "bt_ok (st_keys s)" and "\<not> bad_bound (rr_bound req)"
    and "range_current_bounds (rr_bound req) = Some (lo, hi)"
    and "bt_range lo hi (st_keys s) = Some es"
  shows "current_loop req (prefix_of_bound (rr_bound req)) es = range_blobs req s"
  unfolding current_loop_eq scan_rows [OF assms] range_blobs_def range_rows_def
  by (simp add: conj_ac)

lemma point_rows:
  assumes "bt_ok (st_keys s)" and "rr_bound req = Point key"
  shows "(case bt_get (st_keys s) key of
      Some ks \<Rightarrow> if point_row_ok req ks then [row_blob req key (ks_kv_bytes ks)] else [] | None \<Rightarrow> [])
    = range_blobs req s"
  using filter_key [OF assms(1), of key "\<lambda>ks. is_alive ks \<and> \<not> row_filtered req ks"]
  by (auto simp: range_blobs_def range_rows_def assms(2) point_row_ok_eq split: option.splits)

text \<open>Sorting at most one row does nothing.\<close>

lemma sort_kvs_short:
  assumes "length kvs \<le> 1"
  shows "sort_kvs kvs order target limit = kvs"
proof (cases kvs)
  case Nil
  then show ?thesis
    by (simp add: sort_kvs_def top_entries_def sort_unstable_by_def Let_def)
next
  case (Cons b bs)
  then have "kvs = [b]" using assms by simp
  then show ?thesis
    by (auto simp: sort_kvs_def top_entries_def sort_unstable_by_def Let_def)
qed

definition range_cap :: "range_request \<Rightarrow> store_state \<Rightarrow> nat" where
  "range_cap req s = (if sint (rr_limit req) > 0 then unat (rr_limit req) else length (st_keys s))"

definition range_limit :: "range_request \<Rightarrow> nat" where
  "range_limit req = (if sint (rr_limit req) > 0 then unat (rr_limit req) else 0)"

text \<open>The response that a list of selected blobs calls for.\<close>

definition range_answer :: "response_header \<Rightarrow> range_request \<Rightarrow> bytes list \<Rightarrow> range_response" where
  "range_answer h req kvs =
     (let more = (\<not> rr_count_only req \<and> 0 < range_limit req \<and> range_limit req < length kvs);
          srt = sort_kvs kvs (rr_sort_order req) (rr_sort_target req) (range_limit req)
      in \<lparr>rs_header = Some h,
          rs_kvs = (if rr_count_only req then [] else if more then take (range_limit req) srt else srt),
          rs_more = more, rs_count = word_of_nat (length kvs)\<rparr>)"

lemma sint_limit:
  assumes "n < 2 ^ 63"
  shows "sint (rr_limit req) > 0 \<and> sint (word_of_nat n :: i64) > sint (rr_limit req)
    \<longleftrightarrow> 0 < range_limit req \<and> range_limit req < n"
proof -
  have "sint (word_of_nat n :: i64) = int n"
    using assms by (simp add: signed_of_nat signed_take_bit_int_eq_self)
  moreover have "unat (rr_limit req) = nat (sint (rr_limit req))" if "sint (rr_limit req) > 0"
    using that by (simp add: unat_sint_nonneg)
  ultimately show ?thesis by (auto simp: range_limit_def)
qed

lemma range_current_eq:
  assumes "bt_ok (st_keys s)" and "length (st_keys s) < 2 ^ 63"
  shows "range_current s req =
     (if (\<nexists>k. rr_bound req = Point k) \<and> (capacity_overflow (range_cap req s) \<or> bad_bound (rr_bound req))
      then Panic else Ok (range_answer (header s) req (range_blobs req s)))"
proof (cases "\<exists>k. rr_bound req = Point k")
  case True
  then obtain key where b: "rr_bound req = Point key" ..
  have "length (range_blobs req s) \<le> 1"
    unfolding point_rows [OF assms(1) b, symmetric] by (simp split: option.splits)
  then show ?thesis
    unfolding range_current_def b range_bound.case range_point_def point_rows [OF assms(1) b]
    by (auto simp: range_answer_def sort_kvs_short Let_def)
next
  case False
  then obtain lo hi where lh: "range_current_bounds (rr_bound req) = Some (lo, hi)"
    by (cases "rr_bound req") auto
  have c: "range_current s req = range_scan s req (rr_bound req)"
    using False by (simp add: range_current_def split: range_bound.splits)
  show ?thesis
  proof (cases "capacity_overflow (range_cap req s) \<or> bad_bound (rr_bound req)")
    case True
    then show ?thesis
      using False lh bt_range_bounds [OF lh, of "st_keys s"]
      by (auto simp: c range_scan_def range_cap_def [symmetric] Let_def)
  next
    case ok: False
    then obtain es where es: "bt_range lo hi (st_keys s) = Some es"
      using bt_range_bounds [OF lh, of "st_keys s"] by auto
    have "length (range_blobs req s) \<le> length (st_keys s)"
      by (simp add: length_range_blobs range_rows_def)
    then have len: "length (range_blobs req s) < 2 ^ 63" using assms(2) by linarith
    have loop: "current_loop req (prefix_of_bound (rr_bound req)) es = range_blobs req s"
      using ok by (intro current_loop_rows [OF assms(1) _ lh es]) simp
    show ?thesis
      unfolding c range_scan_def Let_def range_cap_def [symmetric] range_limit_def [symmetric]
        lh option.case prod.case es loop sint_limit [OF len]
      using ok by (auto simp: range_answer_def Let_def range_limit_def)
  qed
qed

text \<open>C4. A read of the current state, whether it is done as one lookup or as a scan, answers with
  exactly the live keys its bound and revision filters select, in key order before sorting, with
  their number as count and \<open>more\<close> set when the limit cuts the answer; except that a scan aborts the server
  for any client limit of \<open>2 ^ 58\<close> or more and whenever the end of the range lies before its start.\<close>

theorem range_current_correct:
  assumes "store_ok s" and "length (st_keys s) < 2 ^ 58"
  shows "range_current s req =
    (if (\<nexists>k. rr_bound req = Point k) \<and> (2 ^ 58 \<le> sint (rr_limit req) \<or> bad_bound (rr_bound req)) then Panic
     else Ok (range_answer (header s) req (range_blobs req s)))"
proof -
  have "capacity_overflow (range_cap req s) \<longleftrightarrow> 2 ^ 58 \<le> sint (rr_limit req)"
    using assms(2) by (auto simp: capacity_overflow_def range_cap_def BYTES_SIZE_def unat_sint_nonneg)
  then show ?thesis
    using assms by (simp add: range_current_eq store_ok_def keys_ok_def)
qed

definition demo_range :: "bytes \<Rightarrow> bytes \<Rightarrow> i64 \<Rightarrow> i64 \<Rightarrow> range_request" where
  "demo_range k e limit revision = \<lparr>rr_key = k, rr_range_end = e, rr_limit = limit,
     rr_revision = revision, rr_sort_order = 0, rr_sort_target = 0, rr_keys_only = False,
     rr_count_only = False, rr_min_mod_revision = 0, rr_max_mod_revision = 0,
     rr_min_create_revision = 0, rr_max_create_revision = 0\<rparr>"

lemma range_current_correct_witness:
  "range_current demo_state (demo_range [1] [2] 10 0) =
     Ok (range_answer (header demo_state) (demo_range [1] [2] 10 0)
           (range_blobs (demo_range [1] [2] 10 0) demo_state))
   \<and> range_current demo_state (demo_range [2] [1] 0 0) = Panic
   \<and> range_current demo_state (demo_range [1] [2] 0x7fffffffffffffff 0) = Panic"
  using range_current_correct [OF demo_state_ok(1)] demo_state_ok(3)
  by (simp add: demo_range_def resolve_range_def)

section \<open>The log scan\<close>

definition rec_rev :: "kv_wal_record \<Rightarrow> u64" where
  "rec_rev r = (case rec_mod_revision r of Some v \<Rightarrow> v | None \<Rightarrow> 0)"

text \<open>The value of a key at a revision, by the log: that of its last record up to the revision, none
  when that is a tombstone.\<close>

definition log_value :: "u64 \<Rightarrow> kv_wal_record list \<Rightarrow> bytes \<Rightarrow> bytes option" where
  "log_value t rs k =
     (case rev (filter (\<lambda>r. rec_key r = Some k \<and> rec_rev r \<le> t) rs) of
        [] \<Rightarrow> None
      | r # _ \<Rightarrow> if rec_flags r AND DELETED \<noteq> 0 then None else Some (rec_kv_bytes r))"

lemma log_value_snoc:
  "log_value t (rs @ [r]) k =
     (if rec_key r = Some k \<and> rec_rev r \<le> t
      then if rec_flags r AND DELETED \<noteq> 0 then None else Some (rec_kv_bytes r)
      else log_value t rs k)"
  by (simp add: log_value_def)

lemma scan_wal_fold:
  "bt_ok (foldl (scan_wal_step b t) [] rs)
   \<and> bt_get (foldl (scan_wal_step b t) [] rs) k = (if matches_range b k then log_value t rs k else None)"
proof (induction rs rule: rev_induct)
  case Nil
  then show ?case by (simp add: bt_get_def log_value_def)
next
  case (snoc r rs)
  define m where "m = foldl (scan_wal_step b t) [] rs"
  have m: "bt_ok m" "bt_get m k = (if matches_range b k then log_value t rs k else None)"
    using snoc by (simp_all add: m_def)
  have "bt_ok (scan_wal_step b t m r) \<and> bt_get (scan_wal_step b t m r) k =
      (if matches_range b k then log_value t (rs @ [r]) k else None)"
    using m bt.get_remove [OF m(1)]
    by (auto simp: scan_wal_step_def rec_rev_def [symmetric] log_value_snoc bt_get_insert bt_ok_insert
        bt.ok_remove Let_def split: option.splits)
  then show ?case by (simp add: m_def)
qed

end
