(* ===== verification/Txn.thy ===== *)
theory Txn
  imports Range_Query
begin

text \<open>
  Transactions: the comparisons of \<^verbatim>\<open>src/storage/mod.rs\<close>, the duplicate-key check and the
  application of the operations of \<^verbatim>\<open>src/storage/store.rs\<close>.  The operations run under one write
  lock, so they are one function on the state; an error returns the state as the operations before
  it left it.  Historical ranges inside a transaction run after the lock is released, each on the
  states it sees then.
\<close>

section \<open>Comparisons\<close>

datatype compare_result = CEqual | CGreater | CLess | CNotEqual
datatype compare_target = TgtVersion | TgtCreate | TgtMod | TgtValue | TgtLease

definition result_from_i32 :: "i32 \<Rightarrow> compare_result" where
  "result_from_i32 v =
     (if v = 0 then CEqual else if v = 1 then CGreater else if v = 2 then CLess
      else if v = 3 then CNotEqual else CEqual)"

definition target_from_i32 :: "i32 \<Rightarrow> compare_target" where
  "target_from_i32 v =
     (if v = 0 then TgtVersion else if v = 1 then TgtCreate else if v = 2 then TgtMod
      else if v = 3 then TgtValue else if v = 4 then TgtLease else TgtVersion)"

fun cmp_i64 :: "compare_result \<Rightarrow> i64 \<Rightarrow> i64 \<Rightarrow> bool" where
  "cmp_i64 CEqual actual expected \<longleftrightarrow> actual = expected"
| "cmp_i64 CGreater actual expected \<longleftrightarrow> sint actual > sint expected"
| "cmp_i64 CLess actual expected \<longleftrightarrow> sint actual < sint expected"
| "cmp_i64 CNotEqual actual expected \<longleftrightarrow> actual \<noteq> expected"

fun cmp_bytes :: "compare_result \<Rightarrow> bytes \<Rightarrow> bytes \<Rightarrow> bool" where
  "cmp_bytes CEqual actual expected \<longleftrightarrow> actual = expected"
| "cmp_bytes CGreater actual expected \<longleftrightarrow> actual > expected"
| "cmp_bytes CLess actual expected \<longleftrightarrow> actual < expected"
| "cmp_bytes CNotEqual actual expected \<longleftrightarrow> actual \<noteq> expected"

definition eval_compare :: "store_state \<Rightarrow> compare \<Rightarrow> bool" where
  "eval_compare s cmp =
     (let alive = get_alive s (cmp_key cmp);
          result = result_from_i32 (cmp_result cmp)
      in case target_from_i32 (cmp_target cmp) of
           TgtVersion \<Rightarrow>
             let actual = (case alive of Some k \<Rightarrow> ks_version k | None \<Rightarrow> 0);
                 expected = (case cmp_target_union cmp of Some (TVersion v) \<Rightarrow> v | _ \<Rightarrow> 0)
             in cmp_i64 result actual expected
         | TgtCreate \<Rightarrow>
             let actual = (case alive of Some k \<Rightarrow> ks_create_revision k | None \<Rightarrow> 0);
                 expected = (case cmp_target_union cmp of Some (TCreateRevision v) \<Rightarrow> v | _ \<Rightarrow> 0)
             in cmp_i64 result actual expected
         | TgtMod \<Rightarrow>
             let actual = (case alive of Some k \<Rightarrow> ks_mod_revision k | None \<Rightarrow> 0);
                 expected = (case cmp_target_union cmp of Some (TModRevision v) \<Rightarrow> v | _ \<Rightarrow> 0)
             in cmp_i64 result actual expected
         | TgtValue \<Rightarrow>
             let actual = (case alive of Some k \<Rightarrow> ks_value k | None \<Rightarrow> []);
                 expected = (case cmp_target_union cmp of Some (TValue v) \<Rightarrow> v | _ \<Rightarrow> [])
             in cmp_bytes result actual expected
         | TgtLease \<Rightarrow>
             let actual = (case alive of Some k \<Rightarrow> ks_lease k | None \<Rightarrow> 0);
                 expected = (case cmp_target_union cmp of Some (TLease v) \<Rightarrow> v | _ \<Rightarrow> 0)
             in cmp_i64 result actual expected)"

section \<open>The duplicate-key check\<close>

fun any_overlap :: "interval list \<Rightarrow> bool" where
  "any_overlap [] \<longleftrightarrow> False"
| "any_overlap (a # as) \<longleftrightarrow> list_ex (intervals_overlap a) as \<or> any_overlap as"

definition dup_check :: "interval list \<Rightarrow> unit res" where
  "dup_check intervals =
     (if any_overlap intervals
      then Err (Status InvalidArgument ''etcdserver: duplicate key given in txn request'')
      else Ok ())"

text \<open>The loop over the operations of a branch, which checks nested branches on its way.\<close>

fun branch_intervals :: "request_op option list \<Rightarrow> interval list res" where
  "branch_intervals [] = Ok []"
| "branch_intervals (None # ops) = branch_intervals ops"
| "branch_intervals (Some (RequestPut p) # ops) =
     (case check_key (pr_key p) of
        Ok _ \<Rightarrow> (case branch_intervals ops of
                   Ok is \<Rightarrow> Ok (point_interval (pr_key p) # is) | Err e \<Rightarrow> Err e | Panic \<Rightarrow> Panic)
      | Err e \<Rightarrow> Err e | Panic \<Rightarrow> Panic)"
| "branch_intervals (Some (RequestDeleteRange d) # ops) =
     (case check_key (dr_key d) of
        Ok _ \<Rightarrow> (case branch_intervals ops of
                   Ok is \<Rightarrow> Ok (bound_interval (resolve_range (dr_key d) (dr_range_end d)) # is)
                 | Err e \<Rightarrow> Err e | Panic \<Rightarrow> Panic)
      | Err e \<Rightarrow> Err e | Panic \<Rightarrow> Panic)"
| "branch_intervals (Some (RequestRange r) # ops) =
     (case check_key (rr_key r) of
        Ok _ \<Rightarrow> branch_intervals ops | Err e \<Rightarrow> Err e | Panic \<Rightarrow> Panic)"
| "branch_intervals (Some (RequestTxn cs su fa) # ops) =
     (case branch_intervals su of
        Ok is \<Rightarrow>
          (case dup_check is of
             Ok _ \<Rightarrow>
               (case branch_intervals fa of
                  Ok is \<Rightarrow>
                    (case dup_check is of
                       Ok _ \<Rightarrow> branch_intervals ops | Err e \<Rightarrow> Err e | Panic \<Rightarrow> Panic)
                | Err e \<Rightarrow> Err e | Panic \<Rightarrow> Panic)
           | Err e \<Rightarrow> Err e | Panic \<Rightarrow> Panic)
      | Err e \<Rightarrow> Err e | Panic \<Rightarrow> Panic)"

definition check_txn_branch :: "request_op option list \<Rightarrow> unit res" where
  "check_txn_branch ops =
     (case branch_intervals ops of Ok is \<Rightarrow> dup_check is | Err e \<Rightarrow> Err e | Panic \<Rightarrow> Panic)"

definition check_txn_duplicate_keys :: "txn_request \<Rightarrow> unit res" where
  "check_txn_duplicate_keys req =
     (case check_txn_branch (tx_success req) of
        Ok _ \<Rightarrow> check_txn_branch (tx_failure req) | Err e \<Rightarrow> Err e | Panic \<Rightarrow> Panic)"

section \<open>Applying the operations\<close>

text \<open>The revision is allocated by the first write and shared by all.\<close>

definition get_or_alloc :: "u64 option \<Rightarrow> store_state \<Rightarrow> u64 \<times> u64 option \<times> store_state" where
  "get_or_alloc rv s =
     (case rv of
        Some r \<Rightarrow> (r, rv, s)
      | None \<Rightarrow> let (r, s) = alloc_revision s in (r, Some r, s))"

type_synonym deferred = "(nat list \<times> range_request) list"

fun apply_txn_ops ::
    "libs \<Rightarrow> nat list \<Rightarrow> nat \<Rightarrow> nat \<Rightarrow> request_op option list \<Rightarrow> u64 option \<Rightarrow> deferred \<Rightarrow> store_state
       \<Rightarrow> response_op option list res \<times> u64 option \<times> deferred \<times> store_state"
  and apply_txn_op ::
    "libs \<Rightarrow> nat list \<Rightarrow> nat \<Rightarrow> request_op option \<Rightarrow> u64 option \<Rightarrow> deferred \<Rightarrow> store_state
       \<Rightarrow> response_op option res \<times> u64 option \<times> deferred \<times> store_state" where
  "apply_txn_ops E path depth i [] rv df s = (Ok [], rv, df, s)"
| "apply_txn_ops E path depth i (op # ops) rv df s =
     (case apply_txn_op E (path @ [i]) depth op rv df s of
        (Ok r, rv, df, s) \<Rightarrow>
          (case apply_txn_ops E path depth (i + 1) ops rv df s of
             (Ok rs, rv, df, s) \<Rightarrow> (Ok (r # rs), rv, df, s)
           | (Err e, rv, df, s) \<Rightarrow> (Err e, rv, df, s)
           | (Panic, rv, df, s) \<Rightarrow> (Panic, rv, df, s))
      | (Err e, rv, df, s) \<Rightarrow> (Err e, rv, df, s)
      | (Panic, rv, df, s) \<Rightarrow> (Panic, rv, df, s))"
| "apply_txn_op E path depth None rv df s = (Ok None, rv, df, s)"
| "apply_txn_op E path depth (Some (RequestRange r)) rv df s =
     (if sint (rr_revision r) > 0 then (Ok None, rv, df @ [(path, r)], s)
      else case range_current s r of
        Ok resp \<Rightarrow> (Ok (Some (ResponseRange resp)), rv, df, s)
      | Err e \<Rightarrow> (Err e, rv, df, s)
      | Panic \<Rightarrow> (Panic, rv, df, s))"
| "apply_txn_op E path depth (Some (RequestPut p)) rv df s =
     (case validate_put p s of
        Ok _ \<Rightarrow>
          let (r, rv, s) = get_or_alloc rv s
          in (case put_at E p r s of
                (Ok resp, s) \<Rightarrow> (Ok (Some (ResponsePut resp)), rv, df, s)
              | (Err e, s) \<Rightarrow> (Err e, rv, df, s)
              | (Panic, s) \<Rightarrow> (Panic, rv, df, s))
      | Err e \<Rightarrow> (Err e, rv, df, s)
      | Panic \<Rightarrow> (Panic, rv, df, s))"
| "apply_txn_op E path depth (Some (RequestDeleteRange d)) rv df s =
     (case check_key (dr_key d) of
        Ok _ \<Rightarrow>
          let (r, rv, s) = get_or_alloc rv s
          in (case delete_range_at E d r s of
                (Ok resp, s) \<Rightarrow> (Ok (Some (ResponseDeleteRange resp)), rv, df, s)
              | (Err e, s) \<Rightarrow> (Err e, rv, df, s)
              | (Panic, s) \<Rightarrow> (Panic, rv, df, s))
      | Err e \<Rightarrow> (Err e, rv, df, s)
      | Panic \<Rightarrow> (Panic, rv, df, s))"
| "apply_txn_op E path depth (Some (RequestTxn cs su fa)) rv df s =
     (if depth \<ge> 1 then
        (Err (Status InvalidArgument ''etcdserver: nested txn is not allowed''), rv, df, s)
      else
        let nested_succeeded = list_all (eval_compare s) cs;
            nested_ops = (if nested_succeeded then su else fa)
        in case apply_txn_ops E path (depth + 1) 0 nested_ops rv df s of
             (Ok nested, rv, df, s) \<Rightarrow>
               (Ok (Some (ResponseTxn (Some (header s)) nested_succeeded nested)), rv, df, s)
           | (Err e, rv, df, s) \<Rightarrow> (Err e, rv, df, s)
           | (Panic, rv, df, s) \<Rightarrow> (Panic, rv, df, s))"

text \<open>Placing a deferred response; \<open>None\<close> is an index panic.\<close>

fun patch_deferred_range ::
    "response_op option list \<Rightarrow> nat list \<Rightarrow> range_response \<Rightarrow> response_op option list option" where
  "patch_deferred_range responses [] resp = Some responses"
| "patch_deferred_range responses [first] resp =
     (if first < length responses then Some (responses[first := Some (ResponseRange resp)]) else None)"
| "patch_deferred_range responses (first # second # rest) resp =
     (if first < length responses then
        (case responses ! first of
           Some (ResponseTxn h succeeded nested) \<Rightarrow>
             map_option (\<lambda>nested'. responses[first := Some (ResponseTxn h succeeded nested')])
               (patch_deferred_range nested (second # rest) resp)
         | _ \<Rightarrow> Some responses)
      else None)"

text \<open>What one deferred range sees: the states of its lock acquisitions and the log file.\<close>

type_synonym read_env =
  "store_state \<times> store_state \<times> (nat \<Rightarrow> store_state) \<times> (io_error + bytes option)"

fun run_deferred ::
    "libs \<Rightarrow> (nat \<Rightarrow> read_env) \<Rightarrow> nat \<Rightarrow> deferred \<Rightarrow> response_op option list
       \<Rightarrow> response_op option list res" where
  "run_deferred E env i [] responses = Ok responses"
| "run_deferred E env i ((path, req) # df) responses =
     (case env i of (s_rev, s_compact, \<sigma>, file) \<Rightarrow>
        (case range_store E s_rev s_compact \<sigma> file req of
           Ok resp \<Rightarrow>
             (case patch_deferred_range responses path resp of
                Some responses \<Rightarrow> run_deferred E env (i + 1) df responses
              | None \<Rightarrow> Panic)
         | Err e \<Rightarrow> Err e
         | Panic \<Rightarrow> Panic))"

definition txn ::
    "libs \<Rightarrow> (nat \<Rightarrow> read_env) \<Rightarrow> txn_request \<Rightarrow> store_state \<Rightarrow> txn_response res \<times> store_state" where
  "txn E env req s =
     (case check_txn_duplicate_keys req of
        Err e \<Rightarrow> (Err e, s)
      | Panic \<Rightarrow> (Panic, s)
      | Ok _ \<Rightarrow>
          let succeeded = list_all (eval_compare s) (tx_compare req);
              ops = (if succeeded then tx_success req else tx_failure req)
          in (case apply_txn_ops E [] 0 0 ops None [] s of
                (Err e, rv, df, s) \<Rightarrow> (Err e, s)
              | (Panic, rv, df, s) \<Rightarrow> (Panic, s)
              | (Ok responses, rv, df, s) \<Rightarrow>
                  (case run_deferred E env 0 df responses of
                     Ok responses \<Rightarrow>
                       (Ok \<lparr>ts_header = Some (header s), ts_succeeded = succeeded,
                            ts_responses = responses\<rparr>, s)
                   | Err e \<Rightarrow> (Err e, s)
                   | Panic \<Rightarrow> (Panic, s))))"

section \<open>Properties of all operations of a transaction\<close>

text \<open>Every put of a branch, nested ones included, satisfies a condition.\<close>

fun all_puts :: "(put_request \<Rightarrow> bool) \<Rightarrow> request_op option list \<Rightarrow> bool" where
  "all_puts P [] \<longleftrightarrow> True"
| "all_puts P (Some (RequestPut p) # ops) \<longleftrightarrow> P p \<and> all_puts P ops"
| "all_puts P (Some (RequestTxn cs su fa) # ops) \<longleftrightarrow> all_puts P su \<and> all_puts P fa \<and> all_puts P ops"
| "all_puts P (_ # ops) \<longleftrightarrow> all_puts P ops"

lemma all_puts_Cons: "all_puts P (op # ops) \<longleftrightarrow> all_puts P [op] \<and> all_puts P ops"
proof (cases op)
  case (Some q)
  then show ?thesis by (cases q) auto
qed simp

text \<open>What holds of the two writes holds of whole transactions: \<open>Q\<close> is a predicate of the state inside
  a transaction, with the revision it has allocated, and \<open>R\<close> relates such states.\<close>

locale txn_ops =
  fixes E :: libs
    and Q :: "u64 option \<Rightarrow> store_state \<Rightarrow> bool"
    and R :: "u64 option \<Rightarrow> store_state \<Rightarrow> u64 option \<Rightarrow> store_state \<Rightarrow> bool"
    and P :: "put_request \<Rightarrow> bool"
  assumes R_refl: "Q rv s \<Longrightarrow> R rv s rv s"
    and R_trans: "R rv s rv' s' \<Longrightarrow> R rv' s' rv'' s'' \<Longrightarrow> R rv s rv'' s''"
    and R_Q: "Q rv s \<Longrightarrow> R rv s rv' s' \<Longrightarrow> Q rv' s'"
    and R_put: "Q rv s \<Longrightarrow> P p \<Longrightarrow> get_or_alloc rv s = (r, rv', s') \<Longrightarrow> put_at E p r s' = (x, s'') \<Longrightarrow>
      R rv s rv' s''"
    and R_delete: "Q rv s \<Longrightarrow> get_or_alloc rv s = (r, rv', s') \<Longrightarrow> delete_range_at E d r s' = (y, s'') \<Longrightarrow>
      R rv s rv' s''"
begin

lemma apply_txn:
  "F = E \<Longrightarrow> Q rv s \<Longrightarrow> all_puts P ops \<Longrightarrow>
     apply_txn_ops F path depth i ops rv df s = (x, rv', df', s') \<Longrightarrow> R rv s rv' s'"
  "F = E \<Longrightarrow> Q rv s \<Longrightarrow> all_puts P [op] \<Longrightarrow>
     apply_txn_op F path depth op rv df s = (y, rv', df', s') \<Longrightarrow> R rv s rv' s'"
proof (induction F path depth i ops rv df s and F path depth op rv df s
    arbitrary: x rv' df' s' and y rv' df' s' rule: apply_txn_ops_apply_txn_op.induct)
  case (1 F path depth i rv df s)
  then show ?case by (simp add: R_refl)
next
  case (2 F path depth i op ops rv df s)
  obtain x1 rv1 df1 s1 where 1: "apply_txn_op F (path @ [i]) depth op rv df s = (x1, rv1, df1, s1)"
    by (metis prod_cases4)
  have small: "all_puts P [op]" "all_puts P ops" using "2.prems"(3) all_puts_Cons by blast+
  from "2.IH"(1) [OF "2.prems"(1,2) small(1) 1] have p1: "R rv s rv1 s1" .
  show ?case
  proof (cases x1)
    case (Ok r)
    obtain x2 rv2 df2 s2 where 2: "apply_txn_ops F path depth (i + 1) ops rv1 df1 s1 = (x2, rv2, df2, s2)"
      by (metis prod_cases4)
    from "2.IH"(2) [OF 1 [symmetric] Ok refl refl "2.prems"(1) R_Q [OF "2.prems"(2) p1] small(2) 2]
    have "R rv s rv2 s2" by (rule R_trans [OF p1])
    moreover have "rv' = rv2" "s' = s2"
      using "2.prems"(4) 1 2 Ok by (auto split: res.splits)
    ultimately show ?thesis by simp
  qed (use "2.prems"(4) 1 p1 in auto)
next
  case (3 F path depth rv df s)
  then show ?case by (simp add: R_refl)
next
  case (4 F path depth r rv df s)
  then have "rv' = rv \<and> s' = s" by (auto split: if_splits res.splits)
  with 4 show ?case by (simp add: R_refl)
next
  case (5 F path depth p rv df s)
  show ?case
  proof (cases "validate_put p s")
    case (Ok u)
    obtain r rv1 s1 where g: "get_or_alloc rv s = (r, rv1, s1)" by (metis prod_cases3)
    obtain z s2 where q: "put_at E p r s1 = (z, s2)" by fastforce
    have "rv' = rv1 \<and> s' = s2" using 5 Ok g q by (auto split: res.splits)
    with R_put [OF _ _ g q] 5 show ?thesis by auto
  qed (use 5 in \<open>auto intro: R_refl\<close>)
next
  case (6 F path depth d rv df s)
  show ?case
  proof (cases "check_key (dr_key d)")
    case (Ok u)
    obtain r rv1 s1 where g: "get_or_alloc rv s = (r, rv1, s1)" by (metis prod_cases3)
    obtain z s2 where q: "delete_range_at E d r s1 = (z, s2)" by fastforce
    have "rv' = rv1 \<and> s' = s2" using 6 Ok g q by (auto split: res.splits)
    with R_delete [OF _ g q] 6 show ?thesis by auto
  qed (use 6 in \<open>auto intro: R_refl\<close>)
next
  case (7 F path depth cs su fa rv df s)
  show ?case
  proof (cases "depth \<ge> 1")
    case True
    then show ?thesis using 7 by (auto intro: R_refl)
  next
    case False
    let ?ops = "if list_all (eval_compare s) cs then su else fa"
    obtain x1 rv1 df1 s1 where 1: "apply_txn_ops F path (depth + 1) 0 ?ops rv df s = (x1, rv1, df1, s1)"
      by (metis prod_cases4)
    have "all_puts P ?ops" using "7.prems"(3) by simp
    from "7.IH" [OF False refl refl "7.prems"(1,2) this 1] have "R rv s rv1 s1" .
    moreover have "rv' = rv1 \<and> s' = s1"
      using "7.prems"(4) False 1 by (simp add: Let_def split: res.splits)
    ultimately show ?thesis by simp
  qed
qed

text \<open>The state a transaction leaves, whatever it returns.\<close>

lemma txn_state:
  assumes "Q None s" and "all_puts P (tx_success req)" and "all_puts P (tx_failure req)"
  shows "\<exists>rv. R None s rv (snd (txn E env req s))"
proof (cases "check_txn_duplicate_keys req")
  case (Ok u)
  let ?ops = "if list_all (eval_compare s) (tx_compare req) then tx_success req else tx_failure req"
  obtain x rv df s' where a: "apply_txn_ops E [] 0 0 ?ops None [] s = (x, rv, df, s')" by (metis prod_cases4)
  have "R None s rv s'" using assms by (intro apply_txn(1) [OF refl _ _ a]) simp_all
  moreover have "snd (txn E env req s) = s'"
    using Ok a by (auto simp: txn_def Let_def split: res.splits)
  ultimately show ?thesis by blast
qed (use R_refl [OF assms(1)] in \<open>auto simp: txn_def\<close>)

end

section \<open>One revision per transaction\<close>

text \<open>The state inside a transaction that started when the next revision was \<open>n\<close>.\<close>

definition txn_inv :: "u64 \<Rightarrow> u64 option \<Rightarrow> store_state \<Rightarrow> bool" where
  "txn_inv n rv s \<longleftrightarrow> n \<noteq> - 1 \<and> store_ok s
     \<and> (case rv of None \<Rightarrow> st_next_rev s = n | Some r \<Rightarrow> r = n \<and> at_rev n s)"

definition changed_at :: "u64 \<Rightarrow> store_state \<Rightarrow> store_state \<Rightarrow> bool" where
  "changed_at n s s' \<longleftrightarrow>
     (\<forall>k. view_of s' k = view_of s k \<or> view_of s' k = None \<or> (\<exists>v. view_of s' k = Some v \<and> a_mod v = n))"

lemma changed_at_refl: "view_of s' = view_of s \<Longrightarrow> changed_at n s s'"
  by (simp add: changed_at_def)

lemma changed_at_trans: "changed_at n s t \<Longrightarrow> changed_at n t u \<Longrightarrow> changed_at n s u"
  unfolding changed_at_def by metis

lemma changed_at_put: "view_of s' = spec_put k v l n (view_of s) \<Longrightarrow> changed_at n s s'"
  by (auto simp: changed_at_def spec_put_def split: option.splits)

lemma changed_at_delete: "view_of s' = spec_delete K (view_of s) \<Longrightarrow> changed_at n s s'"
  by (auto simp: changed_at_def spec_delete_def restrict_map_def)

definition txn_post :: "u64 \<Rightarrow> u64 option \<Rightarrow> store_state \<Rightarrow> u64 option \<Rightarrow> store_state \<Rightarrow> bool" where
  "txn_post n rv s rv' s' \<longleftrightarrow>
     txn_inv n rv' s' \<and> changed_at n s s' \<and> (rv' = None \<longrightarrow> rv = None \<and> view_of s' = view_of s)"

lemma txn_post_refl: "txn_inv n rv s \<Longrightarrow> txn_post n rv s rv s"
  by (simp add: txn_post_def changed_at_refl)

lemma txn_post_trans: "txn_post n rv s rv' s' \<Longrightarrow> txn_post n rv' s' rv'' s'' \<Longrightarrow> txn_post n rv s rv'' s''"
  by (auto simp: txn_post_def intro: changed_at_trans)

lemma get_or_alloc_inv:
  assumes "txn_inv n rv s" and "get_or_alloc rv s = (r, rv', s')"
  shows "r = n" "rv' = Some n" "store_ok s'" "at_rev n s'" "view_of s' = view_of s"
proof -
  have "r = n \<and> rv' = Some n \<and> store_ok s' \<and> at_rev n s' \<and> view_of s' = view_of s"
  proof (cases rv)
    case None
    then have ok: "store_ok s" "st_next_rev s = n" "n \<noteq> - 1" using assms(1) by (simp_all add: txn_inv_def)
    moreover have "r = n" "rv' = Some n" "s' = snd (alloc_revision s)"
      using assms(2) None ok(2) by (auto simp: get_or_alloc_def alloc_revision_def Let_def)
    ultimately show ?thesis using alloc_revision_at [OF ok(1)] ok(3) by simp
  qed (use assms in \<open>auto simp: get_or_alloc_def txn_inv_def\<close>)
  then show "r = n" "rv' = Some n" "store_ok s'" "at_rev n s'" "view_of s' = view_of s" by simp_all
qed

lemma txn_put:
  assumes "txn_inv n rv s" and "put_small p" and "get_or_alloc rv s = (r, rv', s')"
    and "put_at E p r s' = (x, s'')"
  shows "txn_post n rv s rv' s''"
proof -
  note g = get_or_alloc_inv [OF assms(1,3)]
  have c: "keys_ok s''" "same_env s' s''" "view_of s'' = (if is_ok x
      then spec_put (pr_key p) (put_value p s') (put_lease p s') n (view_of s') else view_of s')"
    using put_at_correct [of s' n p E] g assms(2,4) by (simp_all add: store_ok_def)
  have "store_ok s''" using g(3) c(1,2) by (blast intro: store_ok_keys)
  moreover have "changed_at n s s''"
    using c(3) g(5) by (auto intro: changed_at_refl changed_at_put split: if_splits)
  ultimately show ?thesis using g(2,4) c(2) assms(1) by (simp add: txn_post_def txn_inv_def same_env_at_rev)
qed

lemma txn_delete:
  assumes "txn_inv n rv s" and "get_or_alloc rv s = (r, rv', s')"
    and "delete_range_at E d r s' = (x, s'')"
  shows "txn_post n rv s rv' s''"
proof -
  note g = get_or_alloc_inv [OF assms(1,2)]
  have c: "keys_ok s''" "same_env s' s''" "view_of s'' = (if is_ok x
      then spec_delete {k. matches_range (dr_bound d) k} (view_of s') else view_of s')"
    using delete_range_at_correct [of s' n E d] g assms(3) by (simp_all add: store_ok_def)
  have "store_ok s''" using g(3) c(1,2) by (blast intro: store_ok_keys)
  moreover have "changed_at n s s''"
    using c(3) g(5) by (auto intro: changed_at_refl changed_at_delete split: if_splits)
  ultimately show ?thesis using g(2,4) c(2) assms(1) by (simp add: txn_post_def txn_inv_def same_env_at_rev)
qed

interpretation one_rev: txn_ops E "txn_inv n" "txn_post n" put_small for E n
proof
  show "txn_inv n rv s \<Longrightarrow> txn_post n rv s rv' s' \<Longrightarrow> txn_inv n rv' s'" for rv s rv' s'
    by (simp add: txn_post_def)
qed (fact txn_post_refl txn_post_trans txn_put txn_delete)+

text \<open>C8. A transaction uses at most one revision: it keeps the state well-formed, every key it
  changes is gone or carries the one new revision, and when no revision was allocated clients see
  no change at all.  This holds whether it succeeds or fails.\<close>

theorem txn_single_revision:
  assumes "store_ok s" and "st_next_rev s \<noteq> - 1"
    and "all_puts put_small (tx_success req)" and "all_puts put_small (tx_failure req)"
  shows "store_ok (snd (txn E env req s)) \<and> changed_at (st_next_rev s) s (snd (txn E env req s))
    \<and> (st_next_rev (snd (txn E env req s)) = st_next_rev s + 1
       \<or> st_next_rev (snd (txn E env req s)) = st_next_rev s \<and> view_of (snd (txn E env req s)) = view_of s)"
proof -
  have "txn_inv (st_next_rev s) None s" using assms(1,2) by (simp add: txn_inv_def)
  from one_rev.txn_state [OF this assms(3,4)] obtain rv where
    "txn_post (st_next_rev s) None s rv (snd (txn E env req s))" ..
  then show ?thesis by (cases rv) (simp_all add: txn_post_def txn_inv_def at_rev_def)
qed

definition demo_txn :: txn_request where
  "demo_txn = \<lparr>tx_compare = [], tx_success = [Some (RequestPut (demo_put [1] [2])),
     Some (RequestPut ((demo_put [3] [4])\<lparr>pr_lease := 9\<rparr>))], tx_failure = []\<rparr>"

lemma txn_single_revision_witness:
  "store_ok (snd (txn ref_libs undefined demo_txn (StoreState_new demo_wal)))"
  using txn_single_revision [OF store_ok_new [of demo_wal], of demo_txn ref_libs undefined]
  by (simp add: demo_txn_def put_small_def demo_put_def StoreState_new_def)

text \<open>The bounds of the writes of a branch, without those of nested transactions.\<close>

fun write_bounds :: "request_op option list \<Rightarrow> range_bound list" where
  "write_bounds [] = []"
| "write_bounds (Some (RequestPut p) # ops) = Point (pr_key p) # write_bounds ops"
| "write_bounds (Some (RequestDeleteRange d) # ops) = dr_bound d # write_bounds ops"
| "write_bounds (_ # ops) = write_bounds ops"

lemma any_overlap_iff:
  "any_overlap (map bound_interval bs) \<longleftrightarrow>
     (\<exists>i j k. i < j \<and> j < length bs \<and> matches_range (bs ! i) k \<and> matches_range (bs ! j) k)"
proof (induction bs)
  case (Cons b bs)
  have o: "list_ex (intervals_overlap (bound_interval b)) (map bound_interval bs) \<longleftrightarrow>
      (\<exists>j k. j < length bs \<and> matches_range b k \<and> matches_range (bs ! j) k)"
    unfolding list_ex_iff intervals_overlap_exact matches_range_interval
    by (auto simp: in_set_conv_nth) (metis nth_mem)+
  show ?case
  proof
    assume "any_overlap (map bound_interval (b # bs))"
    then consider (new) j k where "j < length bs" "matches_range b k" "matches_range (bs ! j) k"
      | (old) i j k where "i < j" "j < length bs" "matches_range (bs ! i) k" "matches_range (bs ! j) k"
      using o Cons.IH by auto
    then show "\<exists>i j k. i < j \<and> j < length (b # bs) \<and> matches_range ((b # bs) ! i) k
        \<and> matches_range ((b # bs) ! j) k"
    proof cases
      case new
      then show ?thesis by (intro exI [of _ 0] exI [of _ "Suc j"] exI [of _ k]) simp
    next
      case old
      then show ?thesis by (intro exI [of _ "Suc i"] exI [of _ "Suc j"] exI [of _ k]) simp
    qed
  next
    assume "\<exists>i j k. i < j \<and> j < length (b # bs) \<and> matches_range ((b # bs) ! i) k
        \<and> matches_range ((b # bs) ! j) k"
    then obtain i j k where ij: "i < j" "j < length (b # bs)" "matches_range ((b # bs) ! i) k"
      "matches_range ((b # bs) ! j) k" by blast
    then obtain j' where j': "j = Suc j'" by (cases j) auto
    show "any_overlap (map bound_interval (b # bs))"
    proof (cases i)
      case 0
      with ij j' show ?thesis using o by auto
    next
      case (Suc i')
      with ij j' have "any_overlap (map bound_interval bs)" unfolding Cons.IH by auto
      then show ?thesis by simp
    qed
  qed
qed simp

text \<open>What the check is to find out, without its loop.  All keys of the operations are given, in nested
  transactions too; and the ranges of the writes of one list of operations have no key in common, for the operations of
  the branch and, each by itself, for the branches of the transactions in it.\<close>

fun keys_given :: "request_op option list \<Rightarrow> bool" where
  "keys_given [] \<longleftrightarrow> True"
| "keys_given (None # ops) \<longleftrightarrow> keys_given ops"
| "keys_given (Some (RequestPut p) # ops) \<longleftrightarrow> pr_key p \<noteq> [] \<and> keys_given ops"
| "keys_given (Some (RequestDeleteRange d) # ops) \<longleftrightarrow> dr_key d \<noteq> [] \<and> keys_given ops"
| "keys_given (Some (RequestRange r) # ops) \<longleftrightarrow> rr_key r \<noteq> [] \<and> keys_given ops"
| "keys_given (Some (RequestTxn cs su fa) # ops) \<longleftrightarrow> keys_given su \<and> keys_given fa \<and> keys_given ops"

definition common_key :: "range_bound list \<Rightarrow> bool" where
  "common_key bs \<longleftrightarrow> (\<exists>i j k. i < j \<and> j < length bs \<and> matches_range (bs ! i) k \<and> matches_range (bs ! j) k)"

fun nested_common_key :: "request_op option list \<Rightarrow> bool" where
  "nested_common_key [] \<longleftrightarrow> False"
| "nested_common_key (Some (RequestTxn cs su fa) # ops) \<longleftrightarrow>
     common_key (write_bounds su) \<or> nested_common_key su \<or> common_key (write_bounds fa) \<or> nested_common_key fa
     \<or> nested_common_key ops"
| "nested_common_key (_ # ops) \<longleftrightarrow> nested_common_key ops"

definition duplicate_key :: "request_op option list \<Rightarrow> bool" where
  "duplicate_key ops \<longleftrightarrow> common_key (write_bounds ops) \<or> nested_common_key ops"

abbreviation duplicate_key_error :: status where
  "duplicate_key_error \<equiv> Status InvalidArgument ''etcdserver: duplicate key given in txn request''"

abbreviation no_key_error :: status where
  "no_key_error \<equiv> Status InvalidArgument ''etcdserver: key is not provided''"

lemma dup_check_bounds:
  "dup_check (map bound_interval bs) = (if common_key bs then Err duplicate_key_error else Ok ())"
  by (simp add: dup_check_def any_overlap_iff common_key_def)

lemma branch_intervals_exact:
  "case branch_intervals ops of
     Ok ivs \<Rightarrow> keys_given ops \<and> \<not> nested_common_key ops \<and> ivs = map bound_interval (write_bounds ops)
   | Err e \<Rightarrow> e = duplicate_key_error \<and> nested_common_key ops \<or> e = no_key_error \<and> \<not> keys_given ops
   | Panic \<Rightarrow> False"
proof (induction ops rule: branch_intervals.induct)
  case (3 p ops)
  then show ?case by (cases "pr_key p = []") (auto simp: check_key_def split: res.splits)
next
  case (4 d ops)
  then show ?case by (cases "dr_key d = []") (auto simp: check_key_def split: res.splits)
next
  case (5 r ops)
  then show ?case by (cases "rr_key r = []") (auto simp: check_key_def split: res.splits)
next
  case (6 cs su fa ops)
  show ?case
  proof (cases "branch_intervals su")
    case (Ok ivs)
    note su = this
    show ?thesis
    proof (cases "common_key (write_bounds su)")
      case False
      then have d: "dup_check ivs = Ok ()" using "6.IH"(1) su by (simp add: dup_check_bounds)
      show ?thesis
      proof (cases "branch_intervals fa")
        case (Ok ivs')
        then show ?thesis
          using "6.IH"(1) "6.IH"(2) [OF su d] "6.IH"(3) [OF su d Ok] su d
          by (cases "common_key (write_bounds fa)") (auto simp: dup_check_bounds split: res.splits)
      qed (use "6.IH"(1) "6.IH"(2) [OF su d] su d in auto)
    qed (use "6.IH"(1) su in \<open>simp add: dup_check_bounds\<close>)
  qed (use "6.IH"(1) in auto)
qed (auto split: res.splits)

text \<open>C18. The duplicate-key check, exactly.  It accepts a branch when all keys are given and no key is written twice:
  no key lies in the ranges of two writes of the branch, nor of two writes of one branch of a transaction in it.  It
  answers that a key is duplicate only when one is, that a key is missing only when one is, and never panics.  Writes
  on different levels are not compared: a put of the branch and a put of the same key in a nested transaction pass,
  although the comment of the check says that no two writes may intersect and \<^verbatim>\<open>rpc.proto\<close> that a key must not be
  modified several times within one transaction.\<close>

theorem check_txn_branch_exact:
  "(check_txn_branch ops = Ok () \<longleftrightarrow> keys_given ops \<and> \<not> duplicate_key ops)
   \<and> (case check_txn_branch ops of
        Ok _ \<Rightarrow> True
      | Err e \<Rightarrow> e = duplicate_key_error \<and> duplicate_key ops \<or> e = no_key_error \<and> \<not> keys_given ops
      | Panic \<Rightarrow> False)
   \<and> (check_txn_branch [Some (RequestPut p), Some (RequestTxn cs [Some (RequestPut p)] [])] = Ok () \<longleftrightarrow> pr_key p \<noteq> [])"
proof -
  have all: "(check_txn_branch ops = Ok () \<longleftrightarrow> keys_given ops \<and> \<not> duplicate_key ops)
     \<and> (case check_txn_branch ops of
          Ok _ \<Rightarrow> True
        | Err e \<Rightarrow> e = duplicate_key_error \<and> duplicate_key ops \<or> e = no_key_error \<and> \<not> keys_given ops
        | Panic \<Rightarrow> False)" for ops
    using branch_intervals_exact [of ops]
    by (cases "branch_intervals ops") (auto simp: check_txn_branch_def dup_check_bounds duplicate_key_def)
  moreover have "\<not> duplicate_key [Some (RequestPut p), Some (RequestTxn cs [Some (RequestPut p)] [])]"
    by (simp add: duplicate_key_def common_key_def)
  ultimately show ?thesis by simp
qed

lemma check_txn_branch_exact_witness:
  "check_txn_branch [Some (RequestPut (demo_put [1, 2] [2])), Some (RequestDeleteRange (demo_delete [1] [2]))] =
     Err (Status InvalidArgument ''etcdserver: duplicate key given in txn request'')
   \<and> check_txn_branch [Some (RequestPut (demo_put [1, 2] [2])), Some (RequestDeleteRange (demo_delete [1] [1, 2]))] = Ok ()"
proof -
  let ?ops = "[Some (RequestPut (demo_put [1, 2] [2])), Some (RequestDeleteRange (demo_delete [1] [2]))]"
  let ?ops' = "[Some (RequestPut (demo_put [1, 2] [2])), Some (RequestDeleteRange (demo_delete [1] [1, 2]))]"
  have "duplicate_key ?ops"
    unfolding duplicate_key_def common_key_def
    by (intro disjI1 exI [of _ 0] exI [of _ 1] exI [of _ "[1, 2]"]) (simp add: demo_put_def demo_delete_def resolve_range_def)
  moreover have "\<not> duplicate_key ?ops'"
    by (auto simp: duplicate_key_def common_key_def demo_put_def demo_delete_def resolve_range_def less_Suc_eq nth_Cons')
  moreover have "keys_given ?ops" "keys_given ?ops'" by (simp_all add: demo_put_def demo_delete_def)
  ultimately show ?thesis
    using check_txn_branch_exact [of ?ops undefined undefined] check_txn_branch_exact [of ?ops' undefined undefined]
    by (auto split: res.splits)
qed

text \<open>C34. A transaction is not all-or-nothing: when a put follows one that succeeded and is then
  refused, the request fails and the first put stays, in the state and in the log.\<close>

theorem txn_error_keeps_writes:
  assumes "check_txn_duplicate_keys
      \<lparr>tx_compare = [], tx_success = [Some (RequestPut p), Some (RequestPut q)], tx_failure = []\<rparr> = Ok ()"
    and "is_ok (fst (put E p s))" and "validate_put q (snd (put E p s)) = Err e"
  shows "txn E env
      \<lparr>tx_compare = [], tx_success = [Some (RequestPut p), Some (RequestPut q)], tx_failure = []\<rparr> s =
    (Err e, snd (put E p s))"
proof -
  have v: "validate_put p s = Ok ()" using assms(2) by (cases "validate_put p s") (simp_all add: put_def)
  then have p: "put E p s = put_at E p (st_next_rev s) (snd (alloc_revision s))" by (simp add: put_unfold)
  obtain resp where "put_at E p (st_next_rev s) (snd (alloc_revision s)) = (Ok resp, snd (put E p s))"
    using assms(2) unfolding p
    by (cases "put_at E p (st_next_rev s) (snd (alloc_revision s))"; cases "fst (put_at E p (st_next_rev s) (snd (alloc_revision s)))") auto
  moreover have "get_or_alloc None s = (st_next_rev s, Some (st_next_rev s), snd (alloc_revision s))"
    by (simp add: get_or_alloc_def alloc_revision_def Let_def)
  ultimately show ?thesis using assms v by (simp add: txn_def)
qed

lemma txn_error_keeps_writes_witness:
  "txn ref_libs undefined demo_txn (StoreState_new demo_wal) =
     (Err (Status NotFound ''etcdserver: requested lease not found''), demo_state)
   \<and> view_of demo_state [1] \<noteq> None"
proof -
  let ?s = "StoreState_new demo_wal" and ?q = "(demo_put [3] [4])\<lparr>pr_lease := 9\<rparr>"
  note ok = demo_put_ok
  have c: "check_txn_duplicate_keys demo_txn = Ok ()"
    by (simp add: demo_txn_def check_txn_duplicate_keys_def check_txn_branch_def check_key_def demo_put_def
        dup_check_def intervals_overlap_def point_interval_def starts_before_end_def)
  have v: "validate_put ?q demo_state = Err (Status NotFound ''etcdserver: requested lease not found'')"
    by (simp add: validate_put_def check_key_def demo_put_def has_lease_def demo_state_leases bt_get_def Let_def)
  from txn_error_keeps_writes [OF c [unfolded demo_txn_def] ok v [unfolded demo_state_def], of undefined]
  show ?thesis using demo_state_ok(4) by (simp add: demo_txn_def demo_state_def [symmetric] view_of_def)
qed

end
