(* ===== verification/Txn_Spec.thy ===== *)
theory Txn_Spec
  imports Txn
begin

text \<open>
  What a transaction means to its clients: an abstract transaction on the visible key space, which
  picks a branch by its comparisons and applies the writes of that branch in order, nested
  transactions included, all at one revision.  The implementation of \<^verbatim>\<open>src/storage/store.rs\<close> refines it.
\<close>

section \<open>The abstract transaction\<close>

type_synonym view = "bytes \<Rightarrow> abs_kv option"

definition spec_value :: "put_request \<Rightarrow> view \<Rightarrow> bytes" where
  "spec_value p m =
     (if pr_ignore_value p then (case m (pr_key p) of Some v \<Rightarrow> a_value v | None \<Rightarrow> []) else pr_value p)"

definition spec_lease :: "put_request \<Rightarrow> view \<Rightarrow> i64" where
  "spec_lease p m =
     (if pr_ignore_lease p then (case m (pr_key p) of Some v \<Rightarrow> a_lease v | None \<Rightarrow> pr_lease p) else pr_lease p)"

text \<open>A comparison of one key.  An absent key has version, revisions and lease 0 and an empty value, and a comparison
  without the operand of its target compares with these.  (\<^verbatim>\<open>prd/data-model.md\<close> wants a comparison for equality with an
  absent key to fail; creating a key when its version is 0 relies on the opposite.)\<close>

definition compare_entry :: "compare \<Rightarrow> abs_kv option \<Rightarrow> bool" where
  "compare_entry cmp entry =
     (let result = result_from_i32 (cmp_result cmp);
          attr = (\<lambda>f. case entry of Some v \<Rightarrow> f v | None \<Rightarrow> 0)
      in case target_from_i32 (cmp_target cmp) of
           TgtVersion \<Rightarrow> cmp_i64 result (attr a_version)
             (case cmp_target_union cmp of Some (TVersion v) \<Rightarrow> v | _ \<Rightarrow> 0)
         | TgtCreate \<Rightarrow> cmp_i64 result (attr a_create)
             (case cmp_target_union cmp of Some (TCreateRevision v) \<Rightarrow> v | _ \<Rightarrow> 0)
         | TgtMod \<Rightarrow> cmp_i64 result (attr a_mod)
             (case cmp_target_union cmp of Some (TModRevision v) \<Rightarrow> v | _ \<Rightarrow> 0)
         | TgtValue \<Rightarrow> cmp_bytes result (case entry of Some v \<Rightarrow> a_value v | None \<Rightarrow> [])
             (case cmp_target_union cmp of Some (TValue v) \<Rightarrow> v | _ \<Rightarrow> [])
         | TgtLease \<Rightarrow> cmp_i64 result (attr a_lease)
             (case cmp_target_union cmp of Some (TLease v) \<Rightarrow> v | _ \<Rightarrow> 0))"

text \<open>What the protocol says of a comparison, \<open>spec_compare\<close>: without a \<open>range_end\<close> it looks at its key, with one it
  holds when it does for every key of the range from its key on to before \<open>range_end\<close> (a single zero byte means no
  end).  And what a server that ignores \<open>range_end\<close> makes of it.\<close>

definition spec_compare :: "view \<Rightarrow> compare \<Rightarrow> bool" where
  "spec_compare m cmp =
     (if cmp_range_end cmp = [] then compare_entry cmp (m (cmp_key cmp))
      else \<forall>k \<in> dom m. cmp_key cmp \<le> k \<and> (k < cmp_range_end cmp \<or> cmp_range_end cmp = [0]) \<longrightarrow> compare_entry cmp (m k))"

definition key_compare :: "view \<Rightarrow> compare \<Rightarrow> bool" where
  "key_compare m cmp = spec_compare m (cmp\<lparr>cmp_range_end := []\<rparr>)"

text \<open>The writes of a branch, in order; \<open>holds\<close> evaluates the comparisons of nested transactions.\<close>

fun spec_ops :: "(view \<Rightarrow> compare \<Rightarrow> bool) \<Rightarrow> u64 \<Rightarrow> request_op option list \<Rightarrow> view \<Rightarrow> view" where
  "spec_ops holds r [] m = m"
| "spec_ops holds r (Some (RequestPut p) # ops) m =
     spec_ops holds r ops (spec_put (pr_key p) (spec_value p m) (spec_lease p m) r m)"
| "spec_ops holds r (Some (RequestDeleteRange d) # ops) m =
     spec_ops holds r ops (spec_delete {k. matches_range (dr_bound d) k} m)"
| "spec_ops holds r (Some (RequestTxn cs su fa) # ops) m =
     spec_ops holds r ops (spec_ops holds r (if list_all (holds m) cs then su else fa) m)"
| "spec_ops holds r (_ # ops) m = spec_ops holds r ops m"

definition spec_txn :: "(view \<Rightarrow> compare \<Rightarrow> bool) \<Rightarrow> u64 \<Rightarrow> txn_request \<Rightarrow> view \<Rightarrow> view" where
  "spec_txn holds r req m =
     spec_ops holds r (if list_all (holds m) (tx_compare req) then tx_success req else tx_failure req) m"

text \<open>Requests none of whose comparisons, nested ones included, has a \<open>range_end\<close>.\<close>

abbreviation key_only :: "compare list \<Rightarrow> bool" where
  "key_only cs \<equiv> list_all (\<lambda>c. cmp_range_end c = []) cs"

fun key_only_ops :: "request_op option list \<Rightarrow> bool" where
  "key_only_ops [] \<longleftrightarrow> True"
| "key_only_ops (Some (RequestTxn cs su fa) # ops) \<longleftrightarrow> key_only cs \<and> key_only_ops su \<and> key_only_ops fa \<and> key_only_ops ops"
| "key_only_ops (_ # ops) \<longleftrightarrow> key_only_ops ops"

definition key_only_txn :: "txn_request \<Rightarrow> bool" where
  "key_only_txn req \<longleftrightarrow> key_only (tx_compare req) \<and> key_only_ops (tx_success req) \<and> key_only_ops (tx_failure req)"

lemma key_compare_eq: "cmp_range_end c = [] \<Longrightarrow> key_compare m c = spec_compare m c"
  unfolding key_compare_def by (rule arg_cong [of _ _ "spec_compare m"]) simp

lemma key_compare_all: "key_only cs \<Longrightarrow> list_all (key_compare m) cs = list_all (spec_compare m) cs"
  by (induction cs) (simp_all add: key_compare_eq)

lemma spec_ops_key_only: "key_only_ops ops \<Longrightarrow> spec_ops key_compare r ops m = spec_ops spec_compare r ops m"
  by (induction "key_compare :: view \<Rightarrow> compare \<Rightarrow> bool" r ops m rule: spec_ops.induct) (auto simp: key_compare_all)

lemma spec_txn_key_only: "key_only_txn req \<Longrightarrow> spec_txn key_compare r req m = spec_txn spec_compare r req m"
  by (simp add: key_only_txn_def spec_txn_def spec_ops_key_only key_compare_all)

section \<open>Refinement\<close>

lemma spec_ops_Cons: "spec_ops holds r (op # ops) m = spec_ops holds r ops (spec_ops holds r [op] m)"
proof (cases op)
  case (Some q)
  then show ?thesis by (cases q) simp_all
qed simp

lemma view_helpers:
  "put_value p s = spec_value p (view_of s)" "put_lease p s = spec_lease p (view_of s)"
  "eval_compare s = key_compare (view_of s)"
proof -
  show "put_value p s = spec_value p (view_of s)" "put_lease p s = spec_lease p (view_of s)"
    by (simp_all add: put_value_def put_lease_def spec_value_def spec_lease_def view_of_def abs_entry_def split: option.splits)
  have "eval_compare s cmp = key_compare (view_of s) cmp" for cmp
    by (cases "get_alive s (cmp_key cmp)"; cases "target_from_i32 (cmp_target cmp)")
      (simp_all add: eval_compare_def key_compare_def spec_compare_def compare_entry_def view_of_def abs_entry_def Let_def)
  then show "eval_compare s = key_compare (view_of s)" by (rule ext)
qed

lemma txn_op_put:
  assumes "txn_inv n rv s" and "put_small p"
    and "apply_txn_op E path depth (Some (RequestPut p)) rv df s = (Ok y, rv', df', s')"
  shows "view_of s' = spec_ops key_compare n [Some (RequestPut p)] (view_of s)"
proof -
  obtain r rv1 s1 where g: "get_or_alloc rv s = (r, rv1, s1)" by (metis prod_cases3)
  obtain z s2 where q: "put_at E p r s1 = (z, s2)" by fastforce
  have z: "is_ok z" "s' = s2" using assms(3) g q by (auto split: res.splits)
  note i = get_or_alloc_inv [OF assms(1) g]
  have "view_of s2 = spec_put (pr_key p) (put_value p s1) (put_lease p s1) n (view_of s1)"
    using put_at_correct [of s1 n p E] i assms(2) q z(1) by (simp add: store_ok_def)
  then show ?thesis using z(2) i(5) by (simp add: view_helpers)
qed

lemma txn_op_delete:
  assumes "txn_inv n rv s"
    and "apply_txn_op E path depth (Some (RequestDeleteRange d)) rv df s = (Ok y, rv', df', s')"
  shows "view_of s' = spec_ops key_compare n [Some (RequestDeleteRange d)] (view_of s)"
proof -
  obtain r rv1 s1 where g: "get_or_alloc rv s = (r, rv1, s1)" by (metis prod_cases3)
  obtain z s2 where q: "delete_range_at E d r s1 = (z, s2)" by fastforce
  have z: "is_ok z" "s' = s2" using assms(2) g q by (auto split: res.splits)
  note i = get_or_alloc_inv [OF assms(1) g]
  have "view_of s2 = spec_delete {k. matches_range (dr_bound d) k} (view_of s1)"
    using delete_range_at_correct [of s1 n E d] i q z(1) by (simp add: store_ok_def)
  then show ?thesis using z(2) i(5) by simp
qed

lemma apply_txn_spec:
  "txn_inv n rv s \<Longrightarrow> all_puts put_small ops \<Longrightarrow>
     apply_txn_ops E path depth i ops rv df s = (Ok xs, rv', df', s') \<Longrightarrow>
     view_of s' = spec_ops key_compare n ops (view_of s) \<and> length xs = length ops"
  "txn_inv n rv s \<Longrightarrow> all_puts put_small [op] \<Longrightarrow>
     apply_txn_op E path depth op rv df s = (Ok y, rv', df', s') \<Longrightarrow> view_of s' = spec_ops key_compare n [op] (view_of s)"
proof (induction E path depth i ops rv df s and E path depth op rv df s
    arbitrary: xs rv' df' s' and y rv' df' s' rule: apply_txn_ops_apply_txn_op.induct)
  case (2 E path depth i op ops rv df s)
  obtain x1 rv1 df1 s1 where 1: "apply_txn_op E (path @ [i]) depth op rv df s = (x1, rv1, df1, s1)"
    by (metis prod_cases4)
  have small: "all_puts put_small [op]" "all_puts put_small ops" using "2.prems"(2) all_puts_Cons by blast+
  obtain r where r: "x1 = Ok r" using "2.prems"(3) 1 by (cases x1) auto
  obtain x2 rv2 df2 s2 where 2: "apply_txn_ops E path depth (i + 1) ops rv1 df1 s1 = (x2, rv2, df2, s2)"
    by (metis prod_cases4)
  obtain rs where rs: "x2 = Ok rs" "xs = r # rs" "s' = s2" using "2.prems"(3) 1 r 2 by (cases x2) auto
  have "txn_post n rv s rv1 s1" by (rule one_rev.apply_txn(2) [OF refl "2.prems"(1) small(1) 1])
  then have "txn_inv n rv1 s1" by (simp add: txn_post_def)
  from "2.IH"(2) [OF 1 [symmetric] r refl refl this small(2) 2 [unfolded rs]]
    "2.IH"(1) [OF "2.prems"(1) small(1) 1 [unfolded r]] show ?case
    using rs spec_ops_Cons [of key_compare n op ops] by simp
next
  case (4 E path depth r rv df s)
  then show ?case by (auto split: if_splits res.splits)
next
  case (5 E path depth p rv df s)
  then show ?case using txn_op_put by simp
next
  case (6 E path depth d rv df s)
  then show ?case using txn_op_delete by blast
next
  case (7 E path depth cs su fa rv df s)
  let ?ops = "if list_all (eval_compare s) cs then su else fa"
  have d: "\<not> depth \<ge> 1" using "7.prems"(3) by (auto split: if_splits)
  obtain x1 rv1 df1 s1 where 1: "apply_txn_ops E path (depth + 1) 0 ?ops rv df s = (x1, rv1, df1, s1)"
    by (metis prod_cases4)
  obtain xs where xs: "x1 = Ok xs" "s' = s1" using "7.prems"(3) d 1 by (cases x1) (simp_all add: Let_def)
  have "all_puts put_small ?ops" using "7.prems"(2) by simp
  from "7.IH" [OF d refl refl "7.prems"(1) this 1 [unfolded xs]] show ?case
    using xs view_helpers(3) by simp
qed auto

lemma length_patch_deferred: "patch_deferred_range rs path resp = Some rs' \<Longrightarrow> length rs' = length rs"
  by (induction rs path resp arbitrary: rs' rule: patch_deferred_range.induct)
    (auto split: if_splits option.splits response_op.splits)

lemma length_run_deferred: "run_deferred E env i df rs = Ok rs' \<Longrightarrow> length rs' = length rs"
  by (induction E env i df rs rule: run_deferred.induct)
    (auto dest: length_patch_deferred split: prod.splits res.splits option.splits)

section \<open>Properties\<close>

text \<open>C5. A transaction that succeeds does what it says, with each comparison taken of its key alone: it reports whether
  all its comparisons held on the state it started from, answers every operation of the branch this selects, and changes
  the key space as the writes of that branch do when they are applied in order at the next revision, those of nested
  transactions included.  For a request whose comparisons have no \<open>range_end\<close> this is the transaction of the protocol.
  Where it differs from the documents: the \<open>range_end\<close> of a comparison is ignored (\<^verbatim>\<open>rpc.proto\<close> and
  \<^verbatim>\<open>prd/data-model.md\<close> speak of all, or any, keys of the range); an absent key compares as 0 and as the empty value,
  also for equality; and a nested transaction may write a key that the outer one writes too, in which case both writes
  are applied, although \<^verbatim>\<open>rpc.proto\<close> does not allow to modify a key several times in one transaction.\<close>

theorem txn_refines:
  assumes "store_ok s" and "st_next_rev s \<noteq> - 1"
    and "all_puts put_small (tx_success req)" and "all_puts put_small (tx_failure req)"
    and "txn E env req s = (Ok resp, s')"
  shows "view_of s' = spec_txn key_compare (st_next_rev s) req (view_of s)
    \<and> (ts_succeeded resp \<longleftrightarrow> list_all (key_compare (view_of s)) (tx_compare req))
    \<and> length (ts_responses resp) = length (if ts_succeeded resp then tx_success req else tx_failure req)
    \<and> (key_only_txn req \<longrightarrow> view_of s' = spec_txn spec_compare (st_next_rev s) req (view_of s)
         \<and> (ts_succeeded resp \<longleftrightarrow> list_all (spec_compare (view_of s)) (tx_compare req)))"
proof -
  let ?ops = "if list_all (eval_compare s) (tx_compare req) then tx_success req else tx_failure req"
  obtain x rv df s1 where a: "apply_txn_ops E [] 0 0 ?ops None [] s = (x, rv, df, s1)" by (metis prod_cases4)
  obtain u where c: "check_txn_duplicate_keys req = Ok u" using assms(5) by (auto simp: txn_def split: res.splits)
  obtain xs where x: "x = Ok xs" using assms(5) c a by (cases x) (simp_all add: txn_def Let_def)
  obtain ys where y: "run_deferred E env 0 df xs = Ok ys" "s' = s1" "ts_responses resp = ys"
    "ts_succeeded resp = list_all (eval_compare s) (tx_compare req)"
    using assms(5) c a x by (auto simp: txn_def Let_def split: res.splits)
  have "txn_inv (st_next_rev s) None s" using assms(1,2) by (simp add: txn_inv_def)
  moreover have "all_puts put_small ?ops" using assms(3,4) by simp
  ultimately have "view_of s1 = spec_ops key_compare (st_next_rev s) ?ops (view_of s) \<and> length xs = length ?ops"
    by (rule apply_txn_spec(1) [OF _ _ a [unfolded x]])
  then have "view_of s' = spec_txn key_compare (st_next_rev s) req (view_of s)"
    and "length (ts_responses resp) = length ?ops"
    using y length_run_deferred [OF y(1)] by (simp_all add: spec_txn_def view_helpers)
  then show ?thesis using y(4)
    by (auto simp: spec_txn_key_only view_helpers key_only_txn_def key_compare_all)
qed

text \<open>A create-if-absent transaction.\<close>

definition demo_create_txn :: txn_request where
  "demo_create_txn = \<lparr>tx_compare = [\<lparr>cmp_result = 0, cmp_target = 0, cmp_key = [1],
       cmp_target_union = Some (TVersion 0), cmp_range_end = []\<rparr>],
     tx_success = [Some (RequestPut (demo_put [1] [2]))], tx_failure = []\<rparr>"

lemma txn_refines_witness:
  "\<exists>resp s'. txn ref_libs undefined demo_create_txn (StoreState_new demo_wal) = (Ok resp, s')
     \<and> ts_succeeded resp \<and> view_of s' [1] =
         Some \<lparr>a_value = [2], a_create = 1, a_mod = 1, a_version = 1, a_lease = 0\<rparr>"
proof -
  let ?s = "StoreState_new demo_wal"
  have v: "view_of ?s = (\<lambda>_. None)" by (rule ext) (simp add: view_of_def get_alive_def StoreState_new_def bt_get_def)
  have c: "check_txn_duplicate_keys demo_create_txn = Ok ()"
    by (simp add: demo_create_txn_def check_txn_duplicate_keys_def check_txn_branch_def check_key_def demo_put_def
        dup_check_def)
  have e: "list_all (eval_compare ?s) (tx_compare demo_create_txn)"
    by (simp add: view_helpers v demo_create_txn_def key_compare_def spec_compare_def compare_entry_def target_from_i32_def result_from_i32_def)
  have p: "validate_put (demo_put [1] [2]) ?s = Ok ()" "\<not> put_reuses_missing (demo_put [1] [2]) ?s"
    "\<not> put_lease_missing (demo_put [1] [2]) ?s"
    by (simp_all add: validate_put_def check_key_def demo_put_def put_reuses_missing_def put_lease_missing_def put_lease_def)
  obtain t where al: "alloc_revision ?s = (1, t)" "t = snd (alloc_revision ?s)"
    by (simp add: alloc_revision_def StoreState_new_def)
  have "wf_faults (st_wal t) = []" unfolding al(2) by (simp add: StoreState_new_def demo_wal_def)
  then obtain q s' where at: "put_at ref_libs (demo_put [1] [2]) 1 t = (Ok q, s')"
    using p unfolding al(2) by (simp add: put_at_eq append_kv_no_fault Let_def)
  then have t: "txn ref_libs undefined demo_create_txn ?s =
      (Ok \<lparr>ts_header = Some (header s'), ts_succeeded = True, ts_responses = [Some (ResponsePut q)]\<rparr>, s')"
    using c e p al(1) by (simp add: txn_def get_or_alloc_def) (simp add: demo_create_txn_def p(1) get_or_alloc_def al(1) at)
  have "view_of s' = spec_txn spec_compare 1 demo_create_txn (view_of ?s)"
  proof -
    have "st_next_rev ?s \<noteq> - 1" "st_next_rev ?s = 1" by (simp_all add: StoreState_new_def)
    moreover have "all_puts put_small (tx_success demo_create_txn)" "all_puts put_small (tx_failure demo_create_txn)"
      "key_only_txn demo_create_txn"
      by (simp_all add: demo_create_txn_def put_small_def demo_put_def key_only_txn_def)
    ultimately show ?thesis using txn_refines [OF store_ok_new, of demo_wal demo_create_txn, OF _ _ _ t] by metis
  qed
  moreover have "list_all (spec_compare (view_of ?s)) (tx_compare demo_create_txn)"
    using e by (simp add: view_helpers demo_create_txn_def key_compare_eq)
  ultimately show ?thesis using t by (simp add: v spec_txn_def)
      (simp add: demo_create_txn_def spec_put_def spec_value_def spec_lease_def demo_put_def)
qed

text \<open>The comparison of a range that the server gets wrong: every key from \<open>[1]\<close> up to \<open>[3]\<close> has version 1, while
  the second of two keys has version 2.\<close>

lemma range_end_ignored:
  assumes "m [1] = Some v" and "m [2] = Some w" and "a_version v = 1" and "a_version w = 2"
    and "cmp = \<lparr>cmp_result = 0, cmp_target = 0, cmp_key = [1], cmp_target_union = Some (TVersion 1), cmp_range_end = [3]\<rparr>"
  shows "key_compare m cmp \<and> \<not> spec_compare m cmp"
proof -
  have "\<not> compare_entry cmp (m [2])"
    by (simp add: assms(2,4,5) compare_entry_def target_from_i32_def result_from_i32_def)
  moreover have "[2] \<in> dom m" "cmp_key cmp \<le> [2]" "[2] < cmp_range_end cmp" using assms(2,5) by auto
  moreover have "cmp_range_end cmp \<noteq> []" using assms(5) by simp
  ultimately have "\<not> spec_compare m cmp" unfolding spec_compare_def by metis
  moreover have "key_compare m cmp"
    by (simp add: assms(1,3,5) key_compare_def spec_compare_def compare_entry_def target_from_i32_def result_from_i32_def)
  ultimately show ?thesis by simp
qed

end
