(* ===== verification/Lease.thy ===== *)
theory Lease
  imports Kv_Ops
begin

text \<open>
  Leases: the requests of \<^verbatim>\<open>src/storage/store.rs\<close> and the expiry and fsync tasks of
  \<^verbatim>\<open>src/storage/background.rs\<close>.  Time is an argument \<open>now\<close>, in nanoseconds of the monotonic clock;
  adding a duration to an instant panics when the seconds leave the range of the clock.
\<close>

section \<open>Messages and clock\<close>

record lease_grant_request =
  lg_ttl :: i64
  lg_id :: i64

record lease_grant_response =
  lgr_header :: "response_header option"
  lgr_id :: i64
  lgr_ttl :: i64
  lgr_error :: string

record lease_keep_alive_response =
  lka_header :: "response_header option"
  lka_id :: i64
  lka_ttl :: i64

record lease_time_to_live_response =
  lt_header :: "response_header option"
  lt_id :: i64
  lt_ttl :: i64
  lt_granted_ttl :: i64
  lt_keys :: "bytes list"

record lease_leases_response =
  ll_header :: "response_header option"
  ll_leases :: "i64 list"

text \<open>\<open>Instant + Duration::from_secs(secs)\<close>; \<open>None\<close> is the panic on overflow of the signed seconds.\<close>

definition instant_add :: "nat \<Rightarrow> u64 \<Rightarrow> nat option" where
  "instant_add now secs =
     (if now div 1000000000 + unat secs < 2 ^ 63 then Some (now + unat secs * 1000000000) else None)"

section \<open>Requests\<close>

definition lease_grant ::
    "nat \<Rightarrow> lease_grant_request \<Rightarrow> store_state \<Rightarrow> lease_grant_response res \<times> store_state" where
  "lease_grant now req s =
     (case check_lease_ttl (lg_ttl req) of
        Err e \<Rightarrow> (Err e, s)
      | Panic \<Rightarrow> (Panic, s)
      | Ok ttl \<Rightarrow>
          let (lease_id, s) = (if lg_id req \<noteq> 0 then (lg_id req, s) else alloc_lease_id s)
          in if has_lease s lease_id then
               (Err (Status FailedPrecondition ''etcdserver: lease already exists''), s)
             else case instant_add now ttl of
               None \<Rightarrow> (Panic, s)
             | Some expires_at \<Rightarrow>
                 let s = s\<lparr>st_leases := bt_insert (sint lease_id)
                            \<lparr>ls_id = lease_id, ls_ttl = ttl, ls_expires_at = expires_at,
                             ls_key_count = 0\<rparr> (st_leases s)\<rparr>;
                     s = s\<lparr>st_expiry_notify := True\<rparr>
                 in (Ok \<lparr>lgr_header = Some (header s), lgr_id = lease_id, lgr_ttl = ttl,
                         lgr_error = ''''\<rparr>, s))"

definition lease_revoke ::
    "libs \<Rightarrow> i64 \<Rightarrow> store_state \<Rightarrow> response_header res \<times> store_state" where
  "lease_revoke E lease_id s =
     (if \<not> has_lease s lease_id then
        (Err (Status NotFound ''etcdserver: requested lease not found''), s)
      else
        let s = s\<lparr>st_leases := bt_remove (sint lease_id) (st_leases s)\<rparr>;
            s = s\<lparr>st_expiry_notify := True\<rparr>
        in case delete_keys_for_lease E lease_id s of
             (Ok _, s) \<Rightarrow> (Ok (header s), s)
           | (Err e, s) \<Rightarrow> (Err e, s)
           | (Panic, s) \<Rightarrow> (Panic, s))"

definition lease_keep_alive ::
    "nat \<Rightarrow> i64 \<Rightarrow> store_state \<Rightarrow> lease_keep_alive_response res \<times> store_state" where
  "lease_keep_alive now lease_id s =
     (case bt_get (st_leases s) (sint lease_id) of
        Some ls \<Rightarrow>
          let ttl = ls_ttl ls
          in (case instant_add now ttl of
                None \<Rightarrow> (Panic, s)
              | Some expires_at \<Rightarrow>
                  let s = s\<lparr>st_leases := bt_insert (sint lease_id)
                             (ls\<lparr>ls_expires_at := expires_at\<rparr>) (st_leases s)\<rparr>;
                      s = s\<lparr>st_expiry_notify := True\<rparr>
                  in (Ok \<lparr>lka_header = Some (header s), lka_id = lease_id, lka_ttl = ttl\<rparr>, s))
      | None \<Rightarrow> (Err (Status NotFound ''etcdserver: lease not found''), s))"

definition lease_time_to_live ::
    "nat \<Rightarrow> i64 \<Rightarrow> bool \<Rightarrow> store_state \<Rightarrow> lease_time_to_live_response" where
  "lease_time_to_live now req_id req_keys s =
     (case bt_get (st_leases s) (sint req_id) of
        Some ls \<Rightarrow>
          let remaining = word_of_nat ((ls_expires_at ls - now) div 1000000000) :: i64;
              keys = (if req_keys then
                        map fst (filter (\<lambda>e. ks_lease (snd e) = req_id \<and> is_alive (snd e))
                                   (bt_iter (st_keys s)))
                      else [])
          in \<lparr>lt_header = Some (header s), lt_id = req_id,
              lt_ttl = (if sint remaining < 0 then 0 else remaining),
              lt_granted_ttl = ls_ttl ls, lt_keys = keys\<rparr>
      | None \<Rightarrow>
          \<lparr>lt_header = Some (header s), lt_id = req_id, lt_ttl = - 1, lt_granted_ttl = - 1,
           lt_keys = []\<rparr>)"

definition lease_leases :: "store_state \<Rightarrow> lease_leases_response" where
  "lease_leases s =
     \<lparr>ll_header = Some (header s), ll_leases = map (\<lambda>e. word_of_int (fst e)) (bt_iter (st_leases s))\<rparr>"

section \<open>Background tasks\<close>

text \<open>How long the expiry task sleeps; \<open>None\<close> is \<open>Duration::MAX\<close>.\<close>

definition expiry_sleep :: "nat \<Rightarrow> store_state \<Rightarrow> nat option" where
  "expiry_sleep now s =
     (case map (\<lambda>e. ls_expires_at (snd e)) (bt_iter (st_leases s)) of
        [] \<Rightarrow> None
      | t # ts \<Rightarrow> let earliest = fold min ts t
                  in Some (if earliest \<le> now then 0 else earliest - now))"

text \<open>The task wakes by the timer, or by taking the permit of a notification.\<close>

definition expiry_wait :: "bool \<Rightarrow> store_state \<Rightarrow> store_state" where
  "expiry_wait by_notify s = (if by_notify then s\<lparr>st_expiry_notify := False\<rparr> else s)"

fun expire_leases :: "libs \<Rightarrow> int list \<Rightarrow> store_state \<Rightarrow> unit res \<times> store_state" where
  "expire_leases E [] s = (Ok (), s)"
| "expire_leases E (i # is) s =
     (let s = s\<lparr>st_leases := bt_remove i (st_leases s)\<rparr>
      in case delete_keys_for_lease E (word_of_int i) s of
           (Ok _, s) \<Rightarrow> expire_leases E is s
         | (Err _, s) \<Rightarrow> expire_leases E is s
         | (Panic, s) \<Rightarrow> (Panic, s))"

definition expired_ids :: "nat \<Rightarrow> store_state \<Rightarrow> int list" where
  "expired_ids now s = map fst (filter (\<lambda>e. ls_expires_at (snd e) \<le> now) (bt_iter (st_leases s)))"

definition expiry_step :: "libs \<Rightarrow> nat \<Rightarrow> store_state \<Rightarrow> unit res \<times> store_state" where
  "expiry_step E now s =
     (let expired = expired_ids now s
      in if expired = [] then (Ok (), s)
         else case expire_leases E expired s of
           (Ok _, s) \<Rightarrow> (Ok (), s\<lparr>st_expiry_notify := True\<rparr>)
         | (Err e, s) \<Rightarrow> (Err e, s)
         | (Panic, s) \<Rightarrow> (Panic, s))"

text \<open>One round of the fsync task: the flag is cleared first, and a failed sync is only logged.  The
  second component tells whether the file was synced.\<close>

definition fsync_step :: "bool \<Rightarrow> wal_file \<Rightarrow> wal_file \<times> bool" where
  "fsync_step sync_succeeds w =
     (if wf_dirty w then (w\<lparr>wf_dirty := False\<rparr>, sync_succeeds) else (w, False))"

text \<open>The periodic check that triggers a compaction of the log.\<close>

definition compaction_due :: "nat option \<Rightarrow> bool" where
  "compaction_due wal_size =
     (case wal_size of None \<Rightarrow> False | Some n \<Rightarrow> \<not> n < 64 * 1024 * 1024)"

section \<open>Deleting the keys of a lease\<close>

definition attached :: "i64 set \<Rightarrow> (bytes \<Rightarrow> abs_kv option) \<Rightarrow> bytes set" where
  "attached L m = {k. \<exists>v. m k = Some v \<and> a_lease v \<in> L}"

definition lease_keys :: "i64 \<Rightarrow> store_state \<Rightarrow> bytes list" where
  "lease_keys lease_id s =
     map fst (filter (\<lambda>e. ks_lease (snd e) = lease_id \<and> is_alive (snd e)) (bt_iter (st_keys s)))"

lemma set_lease_keys:
  assumes "keys_ok s"
  shows "set (lease_keys lease_id s) = attached {lease_id} (view_of s)"
proof -
  have "bt_ok (st_keys s)" using assms by (simp add: keys_ok_def)
  from bt.iter_get [OF this] show ?thesis
    by (force simp: lease_keys_def attached_def view_of_def abs_entry_def get_alive_Some)
qed

lemma delete_keys_for_lease_correct:
  fixes E :: libs and lease_id :: i64 and s :: store_state
  assumes "store_ok s" and "st_next_rev s \<noteq> - 1"
  defines "r \<equiv> delete_keys_for_lease E lease_id s"
  shows "store_ok (snd r) \<and> fst r \<noteq> Panic \<and> st_leases (snd r) = st_leases s
    \<and> length (st_keys (snd r)) = length (st_keys s)
    \<and> st_next_rev (snd r) = st_next_rev s + of_bool (attached {lease_id} (view_of s) \<noteq> {})
    \<and> view_of (snd r) =
        (if is_ok (fst r) then spec_delete (attached {lease_id} (view_of s)) (view_of s) else view_of s)
    \<and> (wf_faults (st_wal s) = [] \<longrightarrow> is_ok (fst r) \<and> wf_faults (st_wal (snd r)) = [])"
proof -
  let ?t = "snd (alloc_revision s)" and ?n = "st_next_rev s"
  define ks where "ks = lease_keys lease_id s"
  have ok: "keys_ok s" using assms(1) by (simp add: store_ok_def)
  have set: "set ks = attached {lease_id} (view_of s)" using set_lease_keys [OF ok] by (simp add: ks_def)
  from alloc_revision_at [OF assms(1,2)] have t: "at_rev ?n ?t" "store_ok ?t" .
  show ?thesis
  proof (cases "ks = []")
    case True
    then have "r = (Ok (), s)" by (simp add: r_def delete_keys_for_lease_def ks_def lease_keys_def)
    moreover have "attached {lease_id} (view_of s) = {}" using set True by simp
    ultimately show ?thesis using assms(1) by simp
  next
    case False
    obtain x w where a: "append_kv_batch (delete_records E ks ?n ?t) (st_wal s) = (x, w)" by fastforce
    have r: "r = (case x of Inl e \<Rightarrow>
          (Err (Status Internal ''WAL write failed during lease key deletion''), ?t\<lparr>st_wal := w\<rparr>)
        | Inr _ \<Rightarrow> apply_deletes ks ?n (?t\<lparr>st_wal := w\<rparr>))"
      using False a by (simp add: r_def delete_keys_for_lease_def ks_def [unfolded lease_keys_def]
          case_prod_unfold Let_def split: sum.splits)
    have n: "attached {lease_id} (view_of s) \<noteq> {}" using set False by auto
    have d: "fst (apply_deletes ks ?n (?t\<lparr>st_wal := w\<rparr>)) = Ok ()"
      "keys_ok (snd (apply_deletes ks ?n (?t\<lparr>st_wal := w\<rparr>)))"
      "view_of (snd (apply_deletes ks ?n (?t\<lparr>st_wal := w\<rparr>))) = spec_delete (set ks) (view_of s)"
      "same_env ?t (snd (apply_deletes ks ?n (?t\<lparr>st_wal := w\<rparr>)))"
      "st_wal (snd (apply_deletes ks ?n (?t\<lparr>st_wal := w\<rparr>))) = w"
      "length (st_keys (snd (apply_deletes ks ?n (?t\<lparr>st_wal := w\<rparr>)))) = length (st_keys s)"
      using apply_deletes_correct [of "?t\<lparr>st_wal := w\<rparr>" ?n ks] t
      by (auto simp: store_ok_def same_env_def)
    have f: "x = Inr () \<and> wf_faults w = []" if "wf_faults (st_wal s) = []"
      using a append_kv_batch_no_fault [OF that] that by auto
    show ?thesis
    proof (cases x)
      case (Inl e)
      with r t(2) n f show ?thesis by auto
    next
      case (Inr u)
      then have "r = apply_deletes ks ?n (?t\<lparr>st_wal := w\<rparr>)" using r by simp
      with d n f set store_ok_keys [OF t(2) d(4,2)] show ?thesis by (auto simp: same_env_def)
    qed
  qed
qed

section \<open>Expiry\<close>

lemma lease_update_simps [simp]:
  "view_of (s\<lparr>st_leases := m\<rparr>) = view_of s" "view_of (s\<lparr>st_expiry_notify := b\<rparr>) = view_of s"
  "keys_ok (s\<lparr>st_leases := m\<rparr>) \<longleftrightarrow> keys_ok s" "keys_ok (s\<lparr>st_expiry_notify := b\<rparr>) \<longleftrightarrow> keys_ok s"
  "store_ok (s\<lparr>st_expiry_notify := b\<rparr>) \<longleftrightarrow> store_ok s"
  by (simp_all add: view_of_def get_alive_def keys_ok_def store_ok_def leases_ok_def fun_eq_iff)

lemma store_ok_remove_lease:
  assumes "store_ok s"
  shows "store_ok (s\<lparr>st_leases := bt_remove i (st_leases s)\<rparr>)"
  using assms bt.ok_remove bt.get_remove [of "st_leases s" i]
  by (auto simp: store_ok_def leases_ok_def split: if_splits)

lemma attached_spec_delete:
  "attached L (spec_delete K m) = attached L m - K"
  "spec_delete (attached L' (spec_delete (attached L m) m)) (spec_delete (attached L m) m) =
     spec_delete (attached (L \<union> L') m) m"
  by (auto simp: attached_def spec_delete_def restrict_map_def fun_eq_iff)

lemma unat_word_plus_bool: "unat w + n < 2 ^ 64 \<Longrightarrow> 0 < n \<Longrightarrow> unat (w + of_bool b :: u64) + (n - 1) < 2 ^ 64"
  using unat_succ [of w] by (cases b; cases "w = - 1") (auto simp: unat_max)

text \<open>Expiring a list of leases: they are gone, and while the log accepts writes so are the keys
  attached to them; nothing else changes for clients.\<close>

lemma expire_leases_correct:
  assumes "store_ok s" and "unat (st_next_rev s) + length is < 2 ^ 64"
  shows "store_ok (snd (expire_leases E is s)) \<and> fst (expire_leases E is s) = Ok ()
    \<and> (\<forall>j. bt_get (st_leases (snd (expire_leases E is s))) j =
             (if j \<in> set is then None else bt_get (st_leases s) j))
    \<and> (wf_faults (st_wal s) = [] \<longrightarrow>
         view_of (snd (expire_leases E is s)) =
           spec_delete (attached (word_of_int ` set is) (view_of s)) (view_of s))"
  using assms
proof (induction "is" arbitrary: s)
  case Nil
  then show ?case by (simp add: attached_def)
next
  case (Cons i "is")
  define t where "t = s\<lparr>st_leases := bt_remove i (st_leases s)\<rparr>"
  have t: "store_ok t" "st_next_rev t = st_next_rev s" "st_keys t = st_keys s" "view_of t = view_of s"
    "st_wal t = st_wal s" using store_ok_remove_lease [OF Cons.prems(1)] by (simp_all add: t_def)
  have g: "bt_get (st_leases t) j = (if j = i then None else bt_get (st_leases s) j)" for j
    using Cons.prems(1) bt.get_remove [of "st_leases s" i j] by (simp add: t_def store_ok_def leases_ok_def)
  have n: "st_next_rev t \<noteq> - 1" using Cons.prems(2) t(2) by (auto simp: unat_max)
  define r where "r = delete_keys_for_lease E (word_of_int i) t"
  note c = delete_keys_for_lease_correct [OF t(1) n, of E "word_of_int i", folded r_def]
  have c1: "store_ok (snd r)" "fst r \<noteq> Panic" "st_leases (snd r) = st_leases t"
    "length (st_keys (snd r)) = length (st_keys s)"
    using c t(3) by auto
  have c2: "wf_faults (st_wal s) = [] \<longrightarrow> wf_faults (st_wal (snd r)) = []
      \<and> view_of (snd r) = spec_delete (attached {word_of_int i} (view_of s)) (view_of s)"
    using c t by auto
  have rev: "unat (st_next_rev (snd r)) + length is < 2 ^ 64"
    using c Cons.prems(2) t unat_word_plus_bool [of "st_next_rev s" "length (i # is)"] by simp
  have e: "expire_leases E (i # is) s = expire_leases E is (snd r)"
    using c1(2) by (cases r; cases "fst r") (simp_all add: t_def [symmetric] r_def [symmetric])
  have IH: "store_ok (snd (expire_leases E is (snd r)))" "fst (expire_leases E is (snd r)) = Ok ()"
    "\<forall>j. bt_get (st_leases (snd (expire_leases E is (snd r)))) j =
        (if j \<in> set is then None else bt_get (st_leases (snd r)) j)"
    "wf_faults (st_wal (snd r)) = [] \<longrightarrow> view_of (snd (expire_leases E is (snd r))) =
        spec_delete (attached (word_of_int ` set is) (view_of (snd r))) (view_of (snd r))"
    using Cons.IH [OF c1(1) rev] by simp_all
  have v: "wf_faults (st_wal s) = [] \<longrightarrow> view_of (snd (expire_leases E is (snd r))) =
      spec_delete (attached (word_of_int ` set (i # is)) (view_of s)) (view_of s)"
    using IH(4) c2 by (simp add: attached_spec_delete(2))
  show ?case unfolding e using IH(1-3) v g c1(3) by simp
qed

section \<open>Properties\<close>

lemma LEASE_MAX_TTL_eq: "LEASE_MAX_TTL = 9223372035"
  by (simp add: LEASE_MAX_TTL_def)

lemma check_lease_ttl_range:
  assumes "check_lease_ttl ttl = Ok t"
  shows "sint t = max (sint ttl) 2" and "2 \<le> sint t" and "sint t \<le> 9223372035"
proof -
  from assms have le: "sint ttl \<le> 9223372035" and t: "t = word_of_int (max (sint ttl) 2)"
    by (simp_all add: check_lease_ttl_def LEASE_MAX_TTL_eq LEASE_MIN_TTL_def split: if_splits)
  have "sint t = max (sint ttl) 2"
    unfolding t using le by (intro sint_of_small) (auto simp: max_def)
  then show "sint t = max (sint ttl) 2" "2 \<le> sint t" "sint t \<le> 9223372035" using le by simp_all
qed

text \<open>Before the monotonic clock reaches \<open>2 ^ 62\<close> seconds, adding a lease's time to live cannot
  overflow.\<close>

lemma instant_add_ttl:
  assumes "2 \<le> sint ttl" and "sint ttl \<le> 9223372035" and "now < 2 ^ 62 * 1000000000"
  shows "instant_add now ttl = Some (now + nat (sint ttl) * 1000000000)"
proof -
  have u: "unat ttl = nat (sint ttl)" using assms(1) by (intro unat_sint_nonneg) simp
  have "now div 1000000000 < 2 ^ 62" using assms(3) by (simp add: div_less_iff_less_mult)
  then have "now div 1000000000 + nat (sint ttl) < 2 ^ 63" using assms(2) by simp
  then show ?thesis by (simp add: instant_add_def u)
qed

lemma lease_grant_effect:
  assumes "store_ok s" and "now < 2 ^ 62 * 1000000000"
  shows "store_ok (snd (lease_grant now req s)) \<and> st_keys (snd (lease_grant now req s)) = st_keys s
    \<and> (case fst (lease_grant now req s) of
         Ok resp \<Rightarrow>
           sint (lgr_ttl resp) = max (sint (lg_ttl req)) 2
           \<and> (lg_id req = 0 \<or> lgr_id resp = lg_id req)
           \<and> \<not> has_lease s (lgr_id resp)
           \<and> bt_get (st_leases (snd (lease_grant now req s))) (sint (lgr_id resp)) =
               Some \<lparr>ls_id = lgr_id resp, ls_ttl = lgr_ttl resp,
                     ls_expires_at = now + nat (sint (lgr_ttl resp)) * 1000000000, ls_key_count = 0\<rparr>
       | Err e \<Rightarrow> st_leases (snd (lease_grant now req s)) = st_leases s
           \<and> (LEASE_MAX_TTL < sint (lg_ttl req)
              \<or> has_lease s (if lg_id req \<noteq> 0 then lg_id req else st_next_lease_id s))
       | Panic \<Rightarrow> False)"
proof (cases "check_lease_ttl (lg_ttl req)")
  case (Ok ttl)
  note r = check_lease_ttl_range [OF Ok]
  define p where "p = (if lg_id req \<noteq> 0 then (lg_id req, s) else alloc_lease_id s)"
  define i where "i = fst p"
  define t where "t = snd p"
  have i: "i = (if lg_id req \<noteq> 0 then lg_id req else st_next_lease_id s)"
    by (simp add: i_def p_def alloc_lease_id_def Let_def)
  have t: "store_ok t" "st_keys t = st_keys s" "st_leases t = st_leases s"
    using assms(1) by (simp_all add: t_def p_def alloc_lease_id_def Let_def store_ok_def keys_ok_def leases_ok_def)
  define l where "l = \<lparr>ls_id = i, ls_ttl = ttl, ls_expires_at = now + nat (sint ttl) * 1000000000,
    ls_key_count = (0 :: u64)\<rparr>"
  define u where "u = t\<lparr>st_leases := bt_insert (sint i) l (st_leases t), st_expiry_notify := True\<rparr>"
  have u: "store_ok u" using t(1) r(2,3) unfolding store_ok_def leases_ok_def u_def keys_ok_def
    by (auto simp: bt_ok_insert bt_get_insert l_def)
  have e: "lease_grant now req s =
      (if has_lease s i then (Err (Status FailedPrecondition ''etcdserver: lease already exists''), t)
       else (Ok \<lparr>lgr_header = Some (header u), lgr_id = i, lgr_ttl = ttl, lgr_error = ''''\<rparr>, u))"
    using Ok instant_add_ttl [OF r(2,3) assms(2)]
    by (simp add: lease_grant_def p_def [symmetric] case_prod_unfold i_def [symmetric] t_def [symmetric]
        has_lease_def t(3) u_def l_def Let_def)
  show ?thesis
    unfolding e using t u r(1) i by (simp add: u_def [symmetric]) (simp add: u_def bt_get_insert t(2,3) l_def)
next
  case (Err e)
  then have "LEASE_MAX_TTL < sint (lg_ttl req)" by (simp add: check_lease_ttl_def split: if_splits)
  with Err assms(1) show ?thesis by (simp add: lease_grant_def)
next
  case Panic
  then show ?thesis by (simp add: check_lease_ttl_def split: if_splits)
qed

text \<open>C23. Granting a lease never panics, whatever time to live the client sends; a granted lease is
  recorded under the id returned, with the time to live raised to the minimum, expiring that many
  seconds from now; the state stays well-formed and the keys are untouched.\<close>

theorem lease_grant_correct:
  assumes "store_ok s" and "now < 2 ^ 62 * 1000000000"
  shows "store_ok (snd (lease_grant now req s)) \<and> st_keys (snd (lease_grant now req s)) = st_keys s
    \<and> (case fst (lease_grant now req s) of
         Ok resp \<Rightarrow>
           sint (lgr_ttl resp) = max (sint (lg_ttl req)) 2
           \<and> (lg_id req = 0 \<or> lgr_id resp = lg_id req)
           \<and> \<not> has_lease s (lgr_id resp)
           \<and> bt_get (st_leases (snd (lease_grant now req s))) (sint (lgr_id resp)) =
               Some \<lparr>ls_id = lgr_id resp, ls_ttl = lgr_ttl resp,
                     ls_expires_at = now + nat (sint (lgr_ttl resp)) * 1000000000, ls_key_count = 0\<rparr>
       | Err e \<Rightarrow> st_leases (snd (lease_grant now req s)) = st_leases s
           \<and> (LEASE_MAX_TTL < sint (lg_ttl req)
              \<or> has_lease s (if lg_id req \<noteq> 0 then lg_id req else st_next_lease_id s))
       | Panic \<Rightarrow> False)"
  by (rule lease_grant_effect [OF assms])

lemma lease_grant_correct_witness:
  "fst (lease_grant 5 \<lparr>lg_ttl = - 1, lg_id = 7\<rparr> (StoreState_new demo_wal)) \<noteq> Panic"
  using lease_grant_correct [OF store_ok_new [of demo_wal], of 5 "\<lparr>lg_ttl = - 1, lg_id = 7\<rparr>"] by auto

lemma lease_revoke_effect:
  assumes "store_ok s" and "st_next_rev s \<noteq> - 1"
    and "wf_faults (st_wal s) = []"
  shows "store_ok (snd (lease_revoke E lease_id s))
    \<and> (is_ok (fst (lease_revoke E lease_id s)) \<longleftrightarrow> has_lease s lease_id)
    \<and> (if has_lease s lease_id
       then \<not> has_lease (snd (lease_revoke E lease_id s)) lease_id
         \<and> view_of (snd (lease_revoke E lease_id s)) =
             spec_delete (attached {lease_id} (view_of s)) (view_of s)
         \<and> st_next_rev (snd (lease_revoke E lease_id s)) =
             st_next_rev s + of_bool (attached {lease_id} (view_of s) \<noteq> {})
       else lease_revoke E lease_id s =
         (Err (Status NotFound ''etcdserver: requested lease not found''), s))"
proof (cases "has_lease s lease_id")
  case True
  define t where "t = s\<lparr>st_leases := bt_remove (sint lease_id) (st_leases s), st_expiry_notify := True\<rparr>"
  have t: "store_ok t" "st_next_rev t = st_next_rev s" "st_keys t = st_keys s" "view_of t = view_of s"
    "st_wal t = st_wal s" using store_ok_remove_lease [OF assms(1)] by (simp_all add: t_def)
  have g: "bt_get (st_leases t) (sint lease_id) = None"
    using assms(1) bt.get_remove [of "st_leases s" "sint lease_id" "sint lease_id"]
    by (simp add: t_def store_ok_def leases_ok_def)
  define r where "r = delete_keys_for_lease E lease_id t"
  have n: "st_next_rev t \<noteq> - 1" using assms(2) t by simp_all
  note c = delete_keys_for_lease_correct [OF t(1) n, of E lease_id, folded r_def]
  have ok: "fst r = Ok ()" using c assms(3) t(5) by (cases "fst r") auto
  then have e: "lease_revoke E lease_id s = (Ok (header (snd r)), snd r)"
    using True by (cases r) (simp add: lease_revoke_def t_def [symmetric] r_def [symmetric])
  show ?thesis using c True g t ok by (auto simp: e has_lease_def)
qed (use assms(1) in \<open>simp add: lease_revoke_def\<close>)

text \<open>A store with one key that is attached to a lease which ends at time 9; its log accepts writes, or refuses the
  first one.\<close>

definition demo_attached :: store_state where
  "demo_attached =
     (StoreState_new demo_wal)
       \<lparr>st_keys := [([1], \<lparr>ks_value = [2], ks_mod_revision = 1, ks_create_revision = 1, ks_version = 1,
                     ks_lease = 7, ks_delete_revision = 0, ks_rebirth = False,
                     ks_kv_bytes = kv_blob [1] [2] 1 1 1 7\<rparr>)],
        st_leases := [(7, \<lparr>ls_id = 7, ls_ttl = 9, ls_expires_at = 9, ls_key_count = 0\<rparr>)],
        st_key_count := 1, st_next_rev := 2\<rparr>"

definition demo_leased :: store_state where
  "demo_leased = demo_attached\<lparr>st_wal := demo_wal\<lparr>wf_faults := [Some 0]\<rparr>\<rparr>"

lemma demo_leased_ok: "store_ok demo_attached" "store_ok demo_leased"
  unfolding store_ok_def keys_ok_def leases_ok_def entry_ok_def demo_leased_def demo_attached_def
  by (auto simp: StoreState_new_def bt_get_def alive_count_def bt_iter_def is_alive_def split: if_splits)

lemma demo_attached_facts:
  "has_lease demo_attached 7" "wf_faults (st_wal demo_attached) = []" "st_next_rev demo_attached = 2"
  "view_of demo_attached = [[1] \<mapsto> \<lparr>a_value = [2], a_create = 1, a_mod = 1, a_version = 1, a_lease = 7\<rparr>]"
  "attached {7} (view_of demo_attached) = {[1]}"
proof -
  show v: "view_of demo_attached = [[1] \<mapsto> \<lparr>a_value = [2], a_create = 1, a_mod = 1, a_version = 1, a_lease = 7\<rparr>]"
    by (rule ext) (simp add: view_of_def get_alive_def demo_attached_def bt_get_def is_alive_def abs_entry_def)
  show "attached {7} (view_of demo_attached) = {[1]}" by (auto simp: attached_def v)
qed (simp_all add: demo_attached_def has_lease_def bt_get_def StoreState_new_def demo_wal_def)

text \<open>C15. Revoking a granted lease removes it and, while the log accepts writes, deletes exactly the
  keys attached to it, all at one new revision; an unknown lease is refused without any change.\<close>

theorem lease_revoke_correct:
  assumes "store_ok s" and "st_next_rev s \<noteq> - 1"
    and "wf_faults (st_wal s) = []"
  shows "store_ok (snd (lease_revoke E lease_id s))
    \<and> (is_ok (fst (lease_revoke E lease_id s)) \<longleftrightarrow> has_lease s lease_id)
    \<and> (if has_lease s lease_id
       then \<not> has_lease (snd (lease_revoke E lease_id s)) lease_id
         \<and> view_of (snd (lease_revoke E lease_id s)) =
             spec_delete (attached {lease_id} (view_of s)) (view_of s)
         \<and> st_next_rev (snd (lease_revoke E lease_id s)) =
             st_next_rev s + of_bool (attached {lease_id} (view_of s) \<noteq> {})
       else lease_revoke E lease_id s =
         (Err (Status NotFound ''etcdserver: requested lease not found''), s))"
  by (rule lease_revoke_effect [OF assms])

lemma lease_revoke_correct_witness:
  "is_ok (fst (lease_revoke ref_libs 7 demo_attached)) \<and> \<not> has_lease (snd (lease_revoke ref_libs 7 demo_attached)) 7
   \<and> view_of (snd (lease_revoke ref_libs 7 demo_attached)) [1] = None
   \<and> st_next_rev (snd (lease_revoke ref_libs 7 demo_attached)) = 3
   \<and> fst (lease_revoke ref_libs 9 demo_attached) = Err (Status NotFound ''etcdserver: requested lease not found'')"
proof -
  have n: "st_next_rev demo_attached \<noteq> - 1" by (simp add: demo_attached_facts)
  have "\<not> has_lease demo_attached 9" by (simp add: demo_attached_def has_lease_def bt_get_def)
  then show ?thesis
    using lease_revoke_correct [OF demo_leased_ok(1) n, of ref_libs 7]
      lease_revoke_correct [OF demo_leased_ok(1) n, of ref_libs 9]
    by (auto simp: demo_attached_facts attached_def spec_delete_def restrict_map_def)
qed

lemma expiry_step_effect:
  assumes "store_ok s" and "unat (st_next_rev s) + length (st_leases s) < 2 ^ 64"
    and "wf_faults (st_wal s) = []"
  shows "store_ok (snd (expiry_step E now s)) \<and> fst (expiry_step E now s) = Ok ()
    \<and> (\<forall>j. bt_get (st_leases (snd (expiry_step E now s))) j =
            (case bt_get (st_leases s) j of
               Some l \<Rightarrow> if ls_expires_at l \<le> now then None else Some l | None \<Rightarrow> None))
    \<and> view_of (snd (expiry_step E now s)) =
        spec_delete (attached {ls_id l | l. \<exists>j. bt_get (st_leases s) j = Some l \<and> ls_expires_at l \<le> now}
          (view_of s)) (view_of s)
    \<and> st_expiry_notify (snd (expiry_step E now s)) =
        (st_expiry_notify s \<or> (\<exists>j l. bt_get (st_leases s) j = Some l \<and> ls_expires_at l \<le> now))"
proof -
  define due where "due = expired_ids now s"
  have lok: "leases_ok s" using assms(1) by (simp add: store_ok_def)
  have set: "j \<in> set due \<longleftrightarrow> (\<exists>l. bt_get (st_leases s) j = Some l \<and> ls_expires_at l \<le> now)" for j
    using bt.iter_get [of "st_leases s" j] lok by (force simp: due_def expired_ids_def leases_ok_def)
  have ids: "word_of_int ` set due = {ls_id l | l. \<exists>j. bt_get (st_leases s) j = Some l \<and> ls_expires_at l \<le> now}"
    (is "_ = ?R")
  proof
    have w: "word_of_int j = ls_id l" if "bt_get (st_leases s) j = Some l" for j l
    proof -
      have "j = sint (ls_id l)" using that lok by (simp add: leases_ok_def)
      then show ?thesis by simp
    qed
    show "word_of_int ` set due \<subseteq> ?R" using w by (force simp: set)
    show "?R \<subseteq> word_of_int ` set due"
    proof
      fix x assume "x \<in> ?R"
      then obtain l j where l: "x = ls_id l" "bt_get (st_leases s) j = Some l" "ls_expires_at l \<le> now" by blast
      then have "j \<in> set due" by (simp add: set)
      then show "x \<in> word_of_int ` set due" using w [OF l(2)] l(1) by force
    qed
  qed
  have len: "unat (st_next_rev s) + length due < 2 ^ 64"
  proof -
    have "length due \<le> length (st_leases s)" by (simp add: due_def expired_ids_def bt_iter_def)
    with assms(2) show ?thesis by linarith
  qed
  define r where "r = expire_leases E due s"
  have c: "store_ok (snd r)" "fst r = Ok ()"
    "\<forall>j. bt_get (st_leases (snd r)) j = (if j \<in> set due then None else bt_get (st_leases s) j)"
    "view_of (snd r) = spec_delete (attached (word_of_int ` set due) (view_of s)) (view_of s)"
    using expire_leases_correct [OF assms(1) len, of E] assms(3) by (simp_all add: r_def)
  have e: "expiry_step E now s = (Ok (), if due = [] then s else (snd r)\<lparr>st_expiry_notify := True\<rparr>)"
    using c(2) by (cases r) (simp add: expiry_step_def due_def [symmetric] r_def [symmetric])
  have s0: "due = [] \<Longrightarrow> snd r = s" by (simp add: r_def)
  have v: "view_of (snd (expiry_step E now s)) = view_of (snd r)"
    "store_ok (snd (expiry_step E now s))"
    "st_leases (snd (expiry_step E now s)) = st_leases (snd r)"
    using c(1) s0 assms(1) by (simp_all add: e)
  have "bt_get (st_leases (snd r)) j = (case bt_get (st_leases s) j of
      Some l \<Rightarrow> if ls_expires_at l \<le> now then None else Some l | None \<Rightarrow> None)" for j
    using c(3) set [of j] by (cases "bt_get (st_leases s) j") simp_all
  moreover have "due = [] \<longleftrightarrow> \<not> (\<exists>j l. bt_get (st_leases s) j = Some l \<and> ls_expires_at l \<le> now)"
    using set by (metis list.set_intros(1) neq_Nil_conv empty_iff list.set(1))
  ultimately show ?thesis using v c(4) unfolding ids by (auto simp: e)
qed

text \<open>C16. One round of the expiry task at a time \<open>now\<close>, while the log accepts writes: exactly the leases that are due
  are gone, the keys attached to them are deleted, every other lease and key is kept, and the task is told to run
  again exactly when it had been told before or has expired something.  (When the deletion of a key cannot be logged,
  the task goes on and the keys stay, without a lease; see \<open>lease_revoke_orphans_keys\<close>.)\<close>

theorem expiry_step_correct:
  assumes "store_ok s" and "unat (st_next_rev s) + length (st_leases s) < 2 ^ 64"
    and "wf_faults (st_wal s) = []"
  shows "store_ok (snd (expiry_step E now s)) \<and> fst (expiry_step E now s) = Ok ()
    \<and> (\<forall>j. bt_get (st_leases (snd (expiry_step E now s))) j =
            (case bt_get (st_leases s) j of
               Some l \<Rightarrow> if ls_expires_at l \<le> now then None else Some l | None \<Rightarrow> None))
    \<and> view_of (snd (expiry_step E now s)) =
        spec_delete (attached {ls_id l | l. \<exists>j. bt_get (st_leases s) j = Some l \<and> ls_expires_at l \<le> now}
          (view_of s)) (view_of s)
    \<and> st_expiry_notify (snd (expiry_step E now s)) =
        (st_expiry_notify s \<or> (\<exists>j l. bt_get (st_leases s) j = Some l \<and> ls_expires_at l \<le> now))"
  by (rule expiry_step_effect [OF assms])

lemma expiry_step_correct_witness:
  "fst (expiry_step ref_libs 10 demo_attached) = Ok ()
   \<and> bt_get (st_leases (snd (expiry_step ref_libs 10 demo_attached))) 7 = None
   \<and> view_of (snd (expiry_step ref_libs 10 demo_attached)) [1] = None
   \<and> st_expiry_notify (snd (expiry_step ref_libs 10 demo_attached))"
proof -
  let ?l = "\<lparr>ls_id = 7, ls_ttl = 9, ls_expires_at = 9, ls_key_count = 0\<rparr>"
  have g: "bt_get (st_leases demo_attached) j = (if j = 7 then Some ?l else None)" for j
    by (simp add: demo_attached_def bt_get_def)
  then have d: "{ls_id l | l. \<exists>j. bt_get (st_leases demo_attached) j = Some l \<and> ls_expires_at l \<le> 10} = {7}"
    by (auto split: if_splits)
  have "unat (st_next_rev demo_attached) + length (st_leases demo_attached) < 2 ^ 64" by (simp add: demo_attached_def)
  note c = expiry_step_correct [OF demo_leased_ok(1) this demo_attached_facts(2), of ref_libs 10, unfolded d]
  have "[1] \<in> attached {7} (view_of demo_attached)" by (simp add: demo_attached_facts(5))
  then have "view_of (snd (expiry_step ref_libs 10 demo_attached)) [1] = None"
    using c by (simp add: spec_delete_def)
  moreover have "\<exists>j l. bt_get (st_leases demo_attached) j = Some l \<and> ls_expires_at l \<le> 10"
    using g [of 7] by (intro exI [of _ 7] exI [of _ ?l]) simp
  ultimately show ?thesis using c g [of 7] by simp
qed

lemma keep_alive_effect:
  assumes "store_ok s" and "now < 2 ^ 62 * 1000000000"
  shows "store_ok (snd (lease_keep_alive now lease_id s))
    \<and> st_keys (snd (lease_keep_alive now lease_id s)) = st_keys s
    \<and> (\<forall>j. bt_get (st_leases (snd (lease_keep_alive now lease_id s))) j =
            map_option (\<lambda>l. if ls_id l = lease_id
                             then l\<lparr>ls_expires_at := now + nat (sint (ls_ttl l)) * 1000000000\<rparr> else l)
              (bt_get (st_leases s) j))
    \<and> (is_ok (fst (lease_keep_alive now lease_id s)) \<longleftrightarrow> has_lease s lease_id)
    \<and> fst (lease_keep_alive now lease_id s) \<noteq> Panic"
proof -
  have lok: "leases_ok s" using assms(1) by (simp add: store_ok_def)
  have key: "j = sint (ls_id l)" if "bt_get (st_leases s) j = Some l" for j l
    using that lok by (simp add: leases_ok_def)
  show ?thesis
  proof (cases "bt_get (st_leases s) (sint lease_id)")
    case None
    have "ls_id l \<noteq> lease_id" if "bt_get (st_leases s) j = Some l" for j l
      using key [OF that] that None by auto
    then have "bt_get (st_leases s) j = map_option (\<lambda>l. if ls_id l = lease_id
          then l\<lparr>ls_expires_at := now + nat (sint (ls_ttl l)) * 1000000000\<rparr> else l) (bt_get (st_leases s) j)" for j
      by (cases "bt_get (st_leases s) j") auto
    with None assms(1) show ?thesis by (simp add: lease_keep_alive_def has_lease_def)
  next
    case (Some l)
    then have l: "2 \<le> sint (ls_ttl l)" "sint (ls_ttl l) \<le> 9223372035" "sint (ls_id l) = sint lease_id"
      using lok by (auto simp: leases_ok_def)
    then have id: "ls_id l = lease_id" by (simp add: signed_word_eqI)
    define l' where "l' = l\<lparr>ls_expires_at := now + nat (sint (ls_ttl l)) * 1000000000\<rparr>"
    define u where "u = s\<lparr>st_leases := bt_insert (sint lease_id) l' (st_leases s), st_expiry_notify := True\<rparr>"
    have e: "lease_keep_alive now lease_id s =
        (Ok \<lparr>lka_header = Some (header u), lka_id = lease_id, lka_ttl = ls_ttl l\<rparr>, u)"
      using Some instant_add_ttl [OF l(1,2) assms(2)] by (simp add: lease_keep_alive_def u_def l'_def Let_def)
    have "leases_ok u" using lok l id
      by (simp add: leases_ok_def u_def bt_ok_insert bt_get_insert l'_def)
    then have "store_ok u" using assms(1) by (simp add: store_ok_def u_def keys_ok_def)
    moreover have "bt_get (st_leases u) j = map_option (\<lambda>l. if ls_id l = lease_id
        then l\<lparr>ls_expires_at := now + nat (sint (ls_ttl l)) * 1000000000\<rparr> else l) (bt_get (st_leases s) j)" for j
    proof (cases "j = sint lease_id")
      case True
      then show ?thesis using Some id by (simp add: u_def bt_get_insert l'_def)
    next
      case False
      then have "ls_id l0 \<noteq> lease_id" if "bt_get (st_leases s) j = Some l0" for l0
        using key [OF that] by auto
      with False show ?thesis by (cases "bt_get (st_leases s) j") (simp_all add: u_def bt_get_insert)
    qed
    ultimately show ?thesis using Some by (simp add: e has_lease_def) (simp add: u_def)
  qed
qed

text \<open>The time the expiry task chooses to sleep ends at the earliest deadline, at once when that has passed, and has no
  limit only while there is no lease.\<close>

lemma expiry_sleep_earliest:
  "case expiry_sleep now s of
     None \<Rightarrow> st_leases s = []
   | Some d \<Rightarrow> (\<exists>e \<in> set (st_leases s). d = ls_expires_at (snd e) - now)
       \<and> (\<forall>e \<in> set (st_leases s). now + d \<le> max now (ls_expires_at (snd e)))"
proof (cases "st_leases s")
  case Nil
  then show ?thesis by (simp add: expiry_sleep_def bt_iter_def)
next
  case (Cons a es)
  let ?ts = "map (\<lambda>e. ls_expires_at (snd e)) (st_leases s)"
  define m where "m = fold min (map (\<lambda>e. ls_expires_at (snd e)) es) (ls_expires_at (snd a))"
  have "m = Min (set ?ts)"
    using Min.set_eq_fold [of "ls_expires_at (snd a)" "map (\<lambda>e. ls_expires_at (snd e)) es"]
    by (simp add: m_def Cons)
  moreover have "finite (set ?ts)" "set ?ts \<noteq> {}" by (simp_all add: Cons)
  ultimately have m: "m \<in> set ?ts" "\<forall>t \<in> set ?ts. m \<le> t" using Min_in Min_le by metis+
  have "expiry_sleep now s = Some (m - now)"
    by (simp add: expiry_sleep_def bt_iter_def Cons m_def [symmetric] Let_def)
  with m show ?thesis by auto
qed

definition demo_due :: store_state where
  "demo_due = (StoreState_new demo_wal)
     \<lparr>st_leases := [(5, \<lparr>ls_id = 5, ls_ttl = 2, ls_expires_at = 10, ls_key_count = 0\<rparr>),
                    (6, \<lparr>ls_id = 6, ls_ttl = 2, ls_expires_at = 9, ls_key_count = 0\<rparr>)]\<rparr>"

text \<open>C35. Revoking a lease whose key deletions cannot be logged loses the lease and keeps the keys:
  they stay alive, attached to a lease that no longer exists and so can never expire.\<close>

theorem lease_revoke_orphans_keys:
  assumes "store_ok s" and "st_next_rev s \<noteq> - 1"
    and "has_lease s lease_id" and "\<not> is_ok (fst (lease_revoke E lease_id s))"
  shows "\<not> has_lease (snd (lease_revoke E lease_id s)) lease_id
    \<and> view_of (snd (lease_revoke E lease_id s)) = view_of s"
proof -
  define t where "t = s\<lparr>st_leases := bt_remove (sint lease_id) (st_leases s), st_expiry_notify := True\<rparr>"
  have t: "store_ok t" "st_next_rev t \<noteq> - 1" "view_of t = view_of s"
    using store_ok_remove_lease [OF assms(1)] assms(2) by (simp_all add: t_def)
  have g: "bt_get (st_leases t) (sint lease_id) = None"
    using assms(1) bt.get_remove [of "st_leases s" "sint lease_id" "sint lease_id"]
    by (simp add: t_def store_ok_def leases_ok_def)
  define r where "r = delete_keys_for_lease E lease_id t"
  note c = delete_keys_for_lease_correct [OF t(1,2), of E lease_id, folded r_def]
  have e: "lease_revoke E lease_id s = (case fst r of Ok _ \<Rightarrow> Ok (header (snd r)) | Err e \<Rightarrow> Err e | Panic \<Rightarrow> Panic, snd r)"
    using assms(3) by (cases r) (auto simp: lease_revoke_def t_def [symmetric] r_def [symmetric] split: res.splits)
  then have "\<not> is_ok (fst r)" using assms(4) by (auto split: res.splits)
  with c g t(3) show ?thesis by (simp add: e has_lease_def)
qed

lemma lease_revoke_orphans_keys_witness:
  "\<not> has_lease (snd (lease_revoke ref_libs 7 demo_leased)) 7
   \<and> view_of (snd (lease_revoke ref_libs 7 demo_leased)) [1] \<noteq> None"
proof -
  have l: "has_lease demo_leased 7" by (simp add: demo_leased_def demo_attached_def has_lease_def bt_get_def)
  have f: "\<not> is_ok (fst (lease_revoke ref_libs 7 demo_leased))"
    using l by (simp add: lease_revoke_def delete_keys_for_lease_def demo_leased_def demo_attached_def StoreState_new_def
        demo_wal_def bt_iter_def is_alive_def alloc_revision_def get_alive_def bt_get_def write_all_def
        Let_def)
  have v: "view_of demo_leased [1] \<noteq> None"
    by (simp add: view_of_def get_alive_def demo_leased_def demo_attached_def bt_get_def is_alive_def)
  have n: "st_next_rev demo_leased \<noteq> - 1"
    by (simp_all add: demo_leased_def demo_attached_def)
  from lease_revoke_orphans_keys [OF demo_leased_ok(2) n l f] v show ?thesis by simp
qed

end
