(* ===== verification/Recovery.thy ===== *)
theory Recovery
  imports Txn Lease
begin

text \<open>
  Start-up and compaction of the log (\<^verbatim>\<open>Store::open\<close> and \<^verbatim>\<open>Store::compact_wal\<close> of
  \<^verbatim>\<open>src/storage/store.rs\<close>).  The central invariant, \<open>durable\<close>, ties the bytes of the log to the key
  space: replaying the records of the log, in the abstract, gives what clients see.  It is kept by
  every write, and the start-up code turns the log back into that key space.
\<close>

section \<open>Start-up\<close>

fun replay_records ::
    "libs \<Rightarrow> kv_wal_record list \<Rightarrow> store_state \<Rightarrow> u64 \<Rightarrow> u64 res \<times> store_state" where
  "replay_records E [] s max_rev = (Ok max_rev, s)"
| "replay_records E (r # rs) s max_rev =
     (let revision = (case rec_mod_revision r of Some v \<Rightarrow> v | None \<Rightarrow> 0) :: u64
      in if revision \<le> st_compact_rev s then replay_records E rs s max_rev
         else case apply_record E r s of
           (Ok _, s) \<Rightarrow> replay_records E rs s (if revision > max_rev then revision else max_rev)
         | (Err e, s) \<Rightarrow> (Err e, s)
         | (Panic, s) \<Rightarrow> (Panic, s))"

text \<open>The set of lease ids that live keys carry, ascending as signed integers.\<close>

definition live_lease_ids :: "store_state \<Rightarrow> int list" where
  "live_lease_ids s =
     map fst (foldr (\<lambda>e m. bt_insert (sint (ks_lease (snd e))) () m)
                (filter (\<lambda>e. is_alive (snd e) \<and> ks_lease (snd e) \<noteq> 0) (bt_iter (st_keys s))) [])"

definition DEFAULT_TTL :: i64 where "DEFAULT_TTL = 3600"

fun restore_lease_loop :: "nat \<Rightarrow> int list \<Rightarrow> store_state \<Rightarrow> unit res \<times> store_state" where
  "restore_lease_loop now [] s = (Ok (), s)"
| "restore_lease_loop now (i # is) s =
     (case instant_add now DEFAULT_TTL of
        None \<Rightarrow> (Panic, s)
      | Some expires_at \<Rightarrow>
          restore_lease_loop now is
            (s\<lparr>st_leases := bt_insert i \<lparr>ls_id = word_of_int i, ls_ttl = DEFAULT_TTL,
                                        ls_expires_at = expires_at, ls_key_count = 0\<rparr>
                              (st_leases s)\<rparr>))"

definition restore_leases :: "nat \<Rightarrow> store_state \<Rightarrow> unit res \<times> store_state" where
  "restore_leases now s =
     (let unique = live_lease_ids s;
          max_id = (if unique = [] then 0 else last unique);
          s = (if max_id > 0 then s\<lparr>st_next_lease_id := word_of_int max_id + 1\<rparr> else s)
      in restore_lease_loop now unique s)"

definition open_store ::
    "libs \<Rightarrow> string \<Rightarrow> bytes option \<Rightarrow> nat option list \<Rightarrow> nat \<Rightarrow> io_error + store_state res" where
  "open_store E path existing faults now =
     (let wal = WalFile_open path existing faults
      in case scan_kv_collect E wal of
           Inl e \<Rightarrow> Inl e
         | Inr records \<Rightarrow>
             (case replay_records E records (StoreState_new wal) 0 of
                (Ok max_rev, s) \<Rightarrow>
                  (case restore_leases now (s\<lparr>st_next_rev := max_rev + 1\<rparr>) of
                     (Ok _, s) \<Rightarrow> Inr (Ok s)
                   | (Err e, s) \<Rightarrow> Inr (Err e)
                   | (Panic, s) \<Rightarrow> Inr Panic)
              | (Err e, s) \<Rightarrow> Inr (Err e)
              | (Panic, s) \<Rightarrow> Inr Panic))"

section \<open>Compaction of the log\<close>

definition snapshot_records :: "libs \<Rightarrow> store_state \<Rightarrow> kv_wal_record list" where
  "snapshot_records E s =
     map (\<lambda>(key, ks).
            let flags = (if ks_lease ks \<noteq> 0 then HAS_LEASE else 0)
            in KvWalRecord_new E flags key (ks_value ks) (ks_create_revision ks) (ks_mod_revision ks)
                 (ks_version ks) (ks_lease ks))
       (filter (\<lambda>e. ks_delete_revision (snd e) = 0) (bt_iter (st_keys s)))"

text \<open>Phase A, under the read lock: the records of the live keys and the size of the log.\<close>

definition compact_phase_a :: "libs \<Rightarrow> store_state \<Rightarrow> kv_wal_record list \<times> nat" where
  "compact_phase_a E s = (snapshot_records E s, length (wf_content (st_wal s)))"

text \<open>Phase B, without a lock: the truncated temporary file receives the records and is synced.\<close>

fun write_snapshot :: "kv_wal_record list \<Rightarrow> wal_file \<Rightarrow> (io_error + unit) \<times> wal_file" where
  "write_snapshot [] f = (Inr (), f)"
| "write_snapshot (r # rs) f =
     (case write_all (serialize r) f of
        (Inl e, f) \<Rightarrow> (Inl e, f)
      | (Inr _, f) \<Rightarrow> write_snapshot rs f)"

definition compact_phase_b ::
    "kv_wal_record list \<Rightarrow> io_error + unit \<Rightarrow> wal_file \<Rightarrow> (io_error + unit) \<times> wal_file" where
  "compact_phase_b records synced temp =
     (case write_snapshot records (temp\<lparr>wf_content := []\<rparr>) of
        (Inl e, f) \<Rightarrow> (Inl e, f)
      | (Inr _, f) \<Rightarrow> (synced, f))"

text \<open>Phase C, under the write lock: what was logged since phase A is appended, and the temporary file
  is renamed over the log and opened in its place.  A failing append, sync or rename leaves the log as
  it is.  When the renamed file cannot be opened, the handle is not replaced: the store goes on writing
  to the old file, which no longer has a name, and \<open>wf_detached\<close> records what the path now holds.
  (A failing \<open>metadata\<close>, \<open>seek\<close>, read or open before the rename ends the call the way a failing sync or
  rename does; the arguments \<open>synced\<close> and \<open>renamed\<close> stand for them too.)\<close>

definition compact_phase_c ::
    "nat \<Rightarrow> io_error + unit \<Rightarrow> io_error + unit \<Rightarrow> io_error + unit \<Rightarrow> wal_file \<Rightarrow> store_state
       \<Rightarrow> (io_error + unit) \<times> store_state" where
  "compact_phase_c snapshot_wal_size synced renamed reopened temp s =
     (let content = wf_content (st_wal s);
          tail = (if length content > snapshot_wal_size then drop snapshot_wal_size content else [])
      in case (if tail \<noteq> [] then
                 (case write_all tail temp of
                    (Inl e, f) \<Rightarrow> (Inl e, f)
                  | (Inr _, f) \<Rightarrow> (synced, f))
               else (Inr (), temp)) of
           (Inl e, f) \<Rightarrow> (Inl e, s)
         | (Inr _, f) \<Rightarrow>
             (case renamed of
                Inl e \<Rightarrow> (Inl e, s)
              | Inr _ \<Rightarrow>
                  (case reopened of
                     Inl e \<Rightarrow> (Inl e, s\<lparr>st_wal := (st_wal s)\<lparr>wf_detached := Some (wf_content f)\<rparr>\<rparr>)
                   | Inr _ \<Rightarrow>
                       (Inr (), s\<lparr>st_wal := (st_wal s)\<lparr>wf_content := wf_content f, wf_dirty := True,
                                                      wf_detached := None\<rparr>\<rparr>))))"

definition compact_wal ::
    "libs \<Rightarrow> store_state \<Rightarrow> io_error + unit \<Rightarrow> io_error + unit \<Rightarrow> io_error + unit \<Rightarrow> io_error + unit
       \<Rightarrow> wal_file \<Rightarrow> store_state \<Rightarrow> (io_error + unit) \<times> store_state" where
  "compact_wal E s_a synced_b synced_c renamed reopened temp s_c =
     (case compact_phase_a E s_a of (records, snapshot_wal_size) \<Rightarrow>
        (case compact_phase_b records synced_b temp of
           (Inl e, f) \<Rightarrow> (Inl e, s_c)
         | (Inr _, f) \<Rightarrow> compact_phase_c snapshot_wal_size synced_c renamed reopened f s_c))"

section \<open>The log as a specification of the key space\<close>

text \<open>The library functions behave as documented.\<close>

definition libs_ok :: "libs \<Rightarrow> bool" where
  "libs_ok E \<longleftrightarrow> crc_law E \<and> prost_law E"

lemma libs_ok_ref: "libs_ok ref_libs"
  by (simp add: libs_ok_def crc_law_ref prost_law_ref)

text \<open>Keys short enough for the 16-bit offset in a record, and records that fit their length field.\<close>

definition fits :: "bytes \<Rightarrow> bytes \<Rightarrow> bool" where
  "fits key val \<longleftrightarrow> length key < 65500 \<and> length key + length val < 4294967000"

definition rec_made :: "libs \<Rightarrow> u64 \<Rightarrow> kv_wal_record \<Rightarrow> bool" where
  "rec_made E N r \<longleftrightarrow>
     (\<exists>flags key val cr rv ver lease. r = KvWalRecord_new E flags key val cr rv ver lease
        \<and> fits key val \<and> 0 < rv \<and> rv < N)"

definition rec_spec ::
    "libs \<Rightarrow> (bytes \<Rightarrow> abs_kv option) \<Rightarrow> kv_wal_record \<Rightarrow> bytes \<Rightarrow> abs_kv option" where
  "rec_spec E m r =
     (if rec_flags r AND DELETED \<noteq> 0 then spec_delete {the (rec_key r)} m
      else case x_kv_decode E (rec_kv_bytes r) of
        Some kv \<Rightarrow> spec_put (kv_key kv) (kv_value kv) (kv_lease kv) (rec_rev r) m
      | None \<Rightarrow> m)"

definition replay_spec :: "libs \<Rightarrow> kv_wal_record list \<Rightarrow> bytes \<Rightarrow> abs_kv option" where
  "replay_spec E rs = foldl (rec_spec E) (\<lambda>_. None) rs"

lemma replay_spec_simps [simp]:
  "replay_spec E [] = (\<lambda>_. None)" "replay_spec E (rs @ [r]) = rec_spec E (replay_spec E rs) r"
  by (simp_all add: replay_spec_def)

lemma rec_new_facts:
  assumes "libs_ok E" and "fits key val"
  shows "rec_wf E (KvWalRecord_new E flags key val cr rv ver lease)"
    and "rec_key (KvWalRecord_new E flags key val cr rv ver lease) = Some key"
    and "rec_mod_revision (KvWalRecord_new E flags key val cr rv ver lease) = Some rv"
    and "rec_rev (KvWalRecord_new E flags key val cr rv ver lease) = rv"
    and "x_kv_decode E (kv_blob key val cr rv ver lease) =
      Some \<lparr>kv_key = key, kv_create_revision = cr, kv_mod_revision = rv, kv_version = ver,
            kv_value = val, kv_lease = lease\<rparr>"
    and "rec_spec E m (KvWalRecord_new E flags key val cr rv ver lease) =
      (if flags AND DELETED \<noteq> 0 then spec_delete {key} m else spec_put key val lease rv m)"
proof -
  have v: "length (encode_varint x) \<le> 10" for x by (rule length_encode_varint(2))
  have "13 + length (kv_blob key val cr rv ver lease) < 2 ^ 32"
    using assms(2) v [of cr] v [of ver] v [of lease] by (simp add: length_kv_blob fits_def)
  then show "rec_wf E (KvWalRecord_new E flags key val cr rv ver lease)"
    using assms(1) by (intro rec_wf_new) (simp_all add: libs_ok_def)
  show k: "rec_key (KvWalRecord_new E flags key val cr rv ver lease) = Some key"
    using assms(2) by (intro rec_key_new) (simp add: fits_def)
  show m: "rec_mod_revision (KvWalRecord_new E flags key val cr rv ver lease) = Some rv"
    using assms(2) v [of cr] by (intro rec_mod_revision_new) (simp add: mod_rev_pos_def fits_def)
  then show r: "rec_rev (KvWalRecord_new E flags key val cr rv ver lease) = rv" by (simp add: rec_rev_def)
  show d: "x_kv_decode E (kv_blob key val cr rv ver lease) =
      Some \<lparr>kv_key = key, kv_create_revision = cr, kv_mod_revision = rv, kv_version = ver,
            kv_value = val, kv_lease = lease\<rparr>"
    using assms by (simp add: libs_ok_def prost_law_def fits_def)
  show "rec_spec E m (KvWalRecord_new E flags key val cr rv ver lease) =
      (if flags AND DELETED \<noteq> 0 then spec_delete {key} m else spec_put key val lease rv m)"
    unfolding rec_spec_def k r rec_fields_new d by simp
qed

lemma rec_made_wf: "libs_ok E \<Longrightarrow> rec_made E N r \<Longrightarrow> rec_wf E r"
  by (auto simp: rec_made_def rec_new_facts)

lemma rec_made_rev: "libs_ok E \<Longrightarrow> rec_made E N r \<Longrightarrow> 0 < rec_rev r \<and> rec_rev r < N"
  by (auto simp: rec_made_def rec_new_facts)

lemma rec_made_mono: "rec_made E N r \<Longrightarrow> N \<le> N' \<Longrightarrow> rec_made E N' r"
  by (force simp: rec_made_def)

text \<open>A record that encodes what it means: on top of the key space \<open>m\<close>, a put has the creation revision and version
  that its key gets, and a tombstone those of the key it deletes.\<close>

definition blob_of :: "bytes \<Rightarrow> abs_kv \<Rightarrow> bytes" where
  "blob_of k v = kv_blob k (a_value v) (a_create v) (a_mod v) (a_version v) (a_lease v)"

definition rec_exact :: "libs \<Rightarrow> (bytes \<Rightarrow> abs_kv option) \<Rightarrow> kv_wal_record \<Rightarrow> bool" where
  "rec_exact E m r =
     (let key = the (rec_key r) in
      if rec_flags r AND DELETED \<noteq> 0
      then m key = None \<or> rec_kv_bytes r = blob_of key ((the (m key))\<lparr>a_mod := rec_rev r\<rparr>)
      else rec_kv_bytes r = blob_of key (the (rec_spec E m r key)))"

fun exact_log :: "libs \<Rightarrow> (bytes \<Rightarrow> abs_kv option) \<Rightarrow> kv_wal_record list \<Rightarrow> bool" where
  "exact_log E m [] = True"
| "exact_log E m (r # rs) \<longleftrightarrow> rec_exact E m r \<and> exact_log E (rec_spec E m r) rs"

section \<open>Replaying refines the specification\<close>

lemma next_rev_simps [simp]:
  "get_alive (s\<lparr>st_next_rev := N\<rparr>) k = get_alive s k" "view_of (s\<lparr>st_next_rev := N\<rparr>) = view_of s"
  by (simp_all add: get_alive_def view_of_def fun_eq_iff)

text \<open>Applying a record does not look at the next revision.\<close>

lemma apply_put_next_rev:
  "apply_put key val lease r kb (s\<lparr>st_next_rev := N\<rparr>) =
     (fst (apply_put key val lease r kb s), (snd (apply_put key val lease r kb s))\<lparr>st_next_rev := N\<rparr>)"
  by (simp add: apply_put_eq put_entry_def put_event_def notify_watchers_def)

lemma apply_delete_next_rev:
  "apply_delete key r (s\<lparr>st_next_rev := N\<rparr>) =
     (fst (apply_delete key r s), (snd (apply_delete key r s))\<lparr>st_next_rev := N\<rparr>)"
  by (simp add: apply_delete_def notify_watchers_def Let_def split: option.splits)

lemma apply_record_correct:
  assumes E: "libs_ok E" and r: "r = KvWalRecord_new E flags key val cr rv ver lease" "fits key val"
    and s: "keys_ok (s\<lparr>st_next_rev := N\<rparr>)" and rv: "rev_ok rv key (s\<lparr>st_next_rev := N\<rparr>)"
  shows "\<exists>s'. apply_record E r s = (Ok (), s') \<and> keys_ok (s'\<lparr>st_next_rev := N\<rparr>)
    \<and> view_of s' = rec_spec E (view_of s) r \<and> st_leases s' = st_leases s
    \<and> st_compact_rev s' = st_compact_rev s \<and> st_wal s' = st_wal s
    \<and> st_next_lease_id s' = st_next_lease_id s"
proof (cases "flags AND DELETED = 0")
  case True
  let ?kb = "Some (kv_blob key val cr rv ver lease)"
  define s' where "s' = snd (apply_put key val lease rv ?kb s)"
  have "keys_ok (snd (apply_put key val lease rv ?kb (s\<lparr>st_next_rev := N\<rparr>)))"
    using s rv r(2) by (intro keys_ok_apply_put) (auto simp: fits_def)
  then have "keys_ok (s'\<lparr>st_next_rev := N\<rparr>)" unfolding apply_put_next_rev s'_def by simp
  moreover have "apply_record E r s = (Ok (), s')"
    using True by (simp add: apply_record_def r(1) rec_fields_new rec_new_facts [OF E r(2)] s'_def)
  moreover have "view_of s' = rec_spec E (view_of s) r"
    unfolding s'_def view_apply_put r(1) rec_new_facts(6) [OF E r(2)] using True by simp
  ultimately show ?thesis by (auto simp: s'_def apply_put_eq)
next
  case False
  define t where "t = s\<lparr>st_next_rev := N\<rparr>"
  define s' where "s' = snd (apply_delete key rv s)"
  have t: "keys_ok t" "rev_ok rv key t" using s rv by (simp_all add: t_def)
  have e: "apply_delete key rv t = (fst (apply_delete key rv s), s'\<lparr>st_next_rev := N\<rparr>)"
    by (simp add: t_def s'_def apply_delete_next_rev)
  have k: "keys_ok (s'\<lparr>st_next_rev := N\<rparr>)" using keys_ok_apply_delete [OF t] e by simp
  have "fst (apply_delete key rv s) = Ok (get_alive t key)"
    using apply_delete_ok [OF t(1), of key rv] e by (metis fst_conv)
  then have "apply_record E r s = (Ok (), s')"
    using False by (cases "apply_delete key rv s")
      (simp add: apply_record_def r(1) rec_fields_new rec_new_facts [OF E r(2)] s'_def)
  moreover have "view_of s' = rec_spec E (view_of s) r"
  proof -
    have "rv \<noteq> 0" using t(2) by (auto simp: rev_ok_def)
    from view_apply_delete [OF t(1) this, of key] e have "view_of s' = spec_delete {key} (view_of s)"
      by (simp add: t_def)
    then show ?thesis using False by (simp add: r(1) rec_new_facts(6) [OF E r(2)])
  qed
  moreover have "same_env t (s'\<lparr>st_next_rev := N\<rparr>)" "st_wal (s'\<lparr>st_next_rev := N\<rparr>) = st_wal t"
    using same_env_apply_delete [OF t(1), of key rv] wal_apply_delete [OF t(1), of key rv] e by simp_all
  ultimately show ?thesis using k by (auto simp: same_env_def t_def)
qed

text \<open>Exact records leave exact rows.\<close>

lemma exact_entry_blob: "exact_entry k ks \<longleftrightarrow> ks_kv_bytes ks = blob_of k (abs_entry ks)"
  by (simp add: exact_entry_def blob_of_def abs_entry_def)

lemma apply_record_exact:
  assumes E: "libs_ok E" and r: "r = KvWalRecord_new E flags key val cr rv ver lease" "fits key val"
    and s: "keys_ok (s\<lparr>st_next_rev := N\<rparr>)" "0 < rv" and x: "exact_blobs s" "rec_exact E (view_of s) r"
    and s': "apply_record E r s = (res, s')"
  shows "exact_blobs s'"
proof (cases "flags AND DELETED = 0")
  case True
  let ?kb = "kv_blob key val cr rv ver lease"
  have s'_eq: "s' = snd (apply_put key val lease rv (Some ?kb) s)"
    using True s' by (simp add: apply_record_def r(1) rec_fields_new rec_new_facts [OF E r(2)])
  have "view_of s' = rec_spec E (view_of s) r"
    unfolding s'_eq view_apply_put r(1) rec_new_facts(6) [OF E r(2)] using True by simp
  then have "?kb = blob_of key (the (view_of s' key))"
    using x(2) True by (simp add: rec_exact_def r(1) rec_fields_new rec_new_facts(2) [OF E r(2)] Let_def)
  moreover have "ks_kv_bytes (put_entry key val lease rv (Some ?kb) s) = ?kb" by (simp add: put_entry_def Let_def)
  moreover have "get_alive s' key = Some (put_entry key val lease rv (Some ?kb) s)"
    by (simp add: s'_eq get_alive_apply_put)
  ultimately have "exact_entry key (put_entry key val lease rv (Some ?kb) s)"
    by (simp add: exact_entry_blob view_of_def)
  then show ?thesis using x(1) by (simp add: exact_blobs_def s'_eq get_alive_apply_put)
next
  case False
  define t where "t = s\<lparr>st_next_rev := N\<rparr>"
  have t: "keys_ok t" using s by (simp add: t_def)
  have "s' = snd (apply_delete key rv s)"
    using False s' by (cases "apply_delete key rv s")
      (auto simp: apply_record_def r(1) rec_fields_new rec_new_facts [OF E r(2)] split: res.splits)
  then have "s'\<lparr>st_next_rev := N\<rparr> = snd (apply_delete key rv t)" by (simp add: t_def apply_delete_next_rev)
  then have "get_alive s' k = (if k = key then None else get_alive s k)" for k
    using get_alive_apply_delete [OF t, of rv key k] s(2) next_rev_simps(1) by (metis t_def word_gt_0)
  then show ?thesis using x(1) by (auto simp: exact_blobs_def split: if_splits)
qed

text \<open>The records of each key are in the order of their revisions.\<close>

definition revs_ok :: "kv_wal_record list \<Rightarrow> bool" where
  "revs_ok rs \<longleftrightarrow> sorted_wrt (\<lambda>a b. rec_key a = rec_key b \<longrightarrow> rec_rev a \<le> rec_rev b) rs"

lemma rec_spec_mod:
  assumes "libs_ok E" and "rec_made E N r" and "rec_spec E m r k = Some v"
  shows "m k = Some v \<or> rec_key r = Some k \<and> a_mod v = rec_rev r"
  using assms(2,3)
  by (auto simp: rec_made_def rec_new_facts [OF assms(1)] spec_put_def spec_delete_def restrict_map_def
      split: if_splits option.splits)

definition max_rev_of :: "u64 \<Rightarrow> kv_wal_record list \<Rightarrow> u64" where
  "max_rev_of m rs = foldl (\<lambda>m r. max m (rec_rev r)) m rs"

lemma replay_records_correct:
  assumes E: "libs_ok E" and "\<forall>r \<in> set rs. rec_made E N r" and "revs_ok rs"
    and "keys_ok (s\<lparr>st_next_rev := N\<rparr>)" and "st_compact_rev s = 0"
    and "\<And>k v r. view_of s k = Some v \<Longrightarrow> r \<in> set rs \<Longrightarrow> rec_key r = Some k \<Longrightarrow> a_mod v \<le> rec_rev r"
  shows "\<exists>s'. replay_records E rs s m = (Ok (max_rev_of m rs), s') \<and> keys_ok (s'\<lparr>st_next_rev := N\<rparr>)
    \<and> view_of s' = foldl (rec_spec E) (view_of s) rs \<and> st_leases s' = st_leases s
    \<and> st_compact_rev s' = 0 \<and> st_wal s' = st_wal s \<and> st_next_lease_id s' = st_next_lease_id s
    \<and> (exact_blobs s \<and> exact_log E (view_of s) rs \<longrightarrow> exact_blobs s')"
  using assms(2-)
proof (induction rs arbitrary: s m)
  case Nil
  then show ?case by (simp add: max_rev_of_def)
next
  case (Cons r rs)
  from Cons.prems(1) obtain flags key val cr rv ver lease where
    r: "r = KvWalRecord_new E flags key val cr rv ver lease" "fits key val" "0 < rv" "rv < N"
    by (auto simp: rec_made_def)
  have f: "rec_key r = Some key" "rec_mod_revision r = Some rv" "rec_rev r = rv"
    by (simp_all add: r(1) rec_new_facts [OF E r(2)])
  have "ks_mod_revision p \<le> rv" if "get_alive s key = Some p" for p
    using Cons.prems(5) [of key "abs_entry p" r] that f(1,3) by (simp add: view_of_def abs_entry_def)
  then have "rev_ok rv key (s\<lparr>st_next_rev := N\<rparr>)" using r by (simp add: rev_ok_def)
  from apply_record_correct [OF E r(1,2) Cons.prems(3) this] obtain t where
    t: "apply_record E r s = (Ok (), t)" "keys_ok (t\<lparr>st_next_rev := N\<rparr>)"
    "view_of t = rec_spec E (view_of s) r" "st_leases t = st_leases s" "st_compact_rev t = st_compact_rev s"
    "st_wal t = st_wal s" "st_next_lease_id t = st_next_lease_id s" by blast
  have "a_mod v \<le> rec_rev r'" if "view_of t k = Some v" "r' \<in> set rs" "rec_key r' = Some k" for k v r'
  proof -
    have "view_of s k = Some v \<or> rec_key r = Some k \<and> a_mod v = rec_rev r"
      using rec_spec_mod [OF E, of N r] Cons.prems(1) that(1) t(3) by simp
    then show ?thesis using Cons.prems(2) Cons.prems(5) [of k v r'] that by (auto simp: revs_ok_def)
  qed
  with Cons.IH [of t "max m rv"] t Cons.prems obtain s' where
    "replay_records E rs t (max m rv) = (Ok (max_rev_of (max m rv) rs), s')" "keys_ok (s'\<lparr>st_next_rev := N\<rparr>)"
    "view_of s' = foldl (rec_spec E) (view_of s) (r # rs)" "st_leases s' = st_leases s"
    "st_compact_rev s' = 0" "st_wal s' = st_wal s" "st_next_lease_id s' = st_next_lease_id s"
    "exact_blobs t \<and> exact_log E (view_of t) rs \<longrightarrow> exact_blobs s'"
    by (auto simp: revs_ok_def)
  moreover have "exact_blobs t" if "exact_blobs s" "rec_exact E (view_of s) r"
    by (rule apply_record_exact [OF E r(1,2) Cons.prems(3) r(3) that t(1)])
  moreover have "replay_records E (r # rs) s m = replay_records E rs t (max m rv)"
    using Cons.prems(4) r(3) t(1) f(2) by (auto simp: max_def)
  moreover have "max_rev_of (max m rv) rs = max_rev_of m (r # rs)" by (simp add: max_rev_of_def f(3))
  ultimately show ?case using t(3) by (intro exI [of _ s'] conjI impI) (simp_all del: replay_records.simps)
qed

section \<open>Restoring leases\<close>

lemma set_bt_keys: "bt_ok m \<Longrightarrow> y \<in> fst ` set m \<longleftrightarrow> bt_get m y \<noteq> None"
  using bt.iter_get [of m y] by (force simp: bt_iter_def)

lemma set_live_lease_ids':
  "set (live_lease_ids s) =
     (\<lambda>e. sint (ks_lease (snd e))) ` {e \<in> set (st_keys s). is_alive (snd e) \<and> ks_lease (snd e) \<noteq> 0}"
proof -
  have f: "fst ` set (foldr (\<lambda>e m. bt_insert (sint (ks_lease (snd e))) () m) es []) =
      (\<lambda>e. sint (ks_lease (snd e))) ` set es
      \<and> bt_ok (foldr (\<lambda>e m. bt_insert (sint (ks_lease (snd e))) () m) es [])" for es :: "(bytes \<times> key_state) list"
  proof (induction es)
    case (Cons e es)
    define m where "m = foldr (\<lambda>e m. bt_insert (sint (ks_lease (snd e))) () m) es []"
    have m: "bt_ok m" "fst ` set m = (\<lambda>e. sint (ks_lease (snd e))) ` set es" using Cons by (simp_all add: m_def)
    have "fst ` set (bt_insert x () m) = insert x (fst ` set m)" for x
      unfolding set_eq_iff set_bt_keys [OF bt_ok_insert [OF m(1)]] insert_iff set_bt_keys [OF m(1)]
      by (simp add: bt_get_insert)
    with m show ?case by (simp add: m_def [symmetric] bt_ok_insert)
  qed simp
  show ?thesis unfolding live_lease_ids_def set_map using f by (simp add: bt_iter_def)
qed

lemma live_lease_ids_sint: "i \<in> set (live_lease_ids s) \<Longrightarrow> sint (word_of_int i :: i64) = i"
  by (auto simp: set_live_lease_ids')

lemma restore_lease_loop_correct:
  assumes "leases_ok s" and "\<forall>i \<in> set is. sint (word_of_int i :: i64) = i" and "now < 2 ^ 62 * 1000000000"
  shows "\<exists>s'. restore_lease_loop now is s = (Ok (), s') \<and> leases_ok s'
    \<and> s' = s\<lparr>st_leases := st_leases s'\<rparr>
    \<and> (\<forall>j. bt_get (st_leases s') j =
         (if j \<in> set is then Some \<lparr>ls_id = word_of_int j, ls_ttl = DEFAULT_TTL,
            ls_expires_at = now + 3600000000000, ls_key_count = 0\<rparr> else bt_get (st_leases s) j))"
  using assms
proof (induction "is" arbitrary: s)
  case Nil
  then show ?case by simp
next
  case (Cons i "is")
  have a: "instant_add now DEFAULT_TTL = Some (now + 3600000000000)"
    using instant_add_ttl [of DEFAULT_TTL now] Cons.prems(3) by (simp add: DEFAULT_TTL_def)
  define l where "l = \<lparr>ls_id = word_of_int i, ls_ttl = DEFAULT_TTL, ls_expires_at = now + 3600000000000,
    ls_key_count = (0 :: u64)\<rparr>"
  define t where "t = s\<lparr>st_leases := bt_insert i l (st_leases s)\<rparr>"
  have "leases_ok t" using Cons.prems(1,2)
    by (simp add: leases_ok_def t_def bt_ok_insert bt_get_insert l_def DEFAULT_TTL_def)
  with Cons.IH [of t] Cons.prems obtain s' where
    s': "restore_lease_loop now is t = (Ok (), s')" "leases_ok s'" "s' = t\<lparr>st_leases := st_leases s'\<rparr>"
    "\<forall>j. bt_get (st_leases s') j = (if j \<in> set is then Some \<lparr>ls_id = word_of_int j, ls_ttl = DEFAULT_TTL,
       ls_expires_at = now + 3600000000000, ls_key_count = 0\<rparr> else bt_get (st_leases t) j)" by auto
  have "restore_lease_loop now (i # is) s = (Ok (), s')"
    using s'(1) by (simp add: a t_def l_def)
  moreover have "s' = s\<lparr>st_leases := st_leases s'\<rparr>" using s'(3) by (simp add: t_def)
  moreover have "bt_get (st_leases t) j = (if j = i then Some l else bt_get (st_leases s) j)" for j
    by (simp add: t_def bt_get_insert)
  ultimately show ?case using s'(2,4) by (intro exI [of _ s']) (auto simp: l_def)
qed

text \<open>After start-up every lease that a live key carries exists again, with the default time to live.\<close>

lemma set_live_lease_ids:
  assumes "keys_ok s"
  shows "i \<in> set (live_lease_ids s) \<longleftrightarrow>
    (\<exists>k v. view_of s k = Some v \<and> a_lease v \<noteq> 0 \<and> i = sint (a_lease v))"
proof -
  have ok: "bt_ok (st_keys s)" using assms by (simp add: keys_ok_def)
  have "i \<in> set (live_lease_ids s) \<longleftrightarrow>
      (\<exists>k ks. get_alive s k = Some ks \<and> ks_lease ks \<noteq> 0 \<and> i = sint (ks_lease ks))"
    unfolding set_live_lease_ids' using bt.iter_get [OF ok] by (force simp: get_alive_Some bt_iter_def)
  moreover have "(\<exists>v. view_of s k = Some v \<and> a_lease v \<noteq> 0 \<and> i = sint (a_lease v)) \<longleftrightarrow>
      (\<exists>ks. get_alive s k = Some ks \<and> ks_lease ks \<noteq> 0 \<and> i = sint (ks_lease ks))" for k
    by (cases "get_alive s k") (simp_all add: view_of_def abs_entry_def)
  ultimately show ?thesis by simp
qed

section \<open>Start-up rebuilds the key space\<close>

text \<open>A log as the store writes it: every record was built by \<open>KvWalRecord::new\<close> at a revision below
  \<open>N\<close>, and the records of a key are in revision order.\<close>

definition log_ok :: "libs \<Rightarrow> u64 \<Rightarrow> kv_wal_record list \<Rightarrow> bool" where
  "log_ok E N rs \<longleftrightarrow> (\<forall>r \<in> set rs. rec_made E N r) \<and> revs_ok rs"

lemma max_rev_of_bound:
  "m \<le> max_rev_of m rs" "r \<in> set rs \<Longrightarrow> rec_rev r \<le> max_rev_of m rs"
proof -
  have "m \<le> max_rev_of m rs \<and> (\<forall>r \<in> set rs. rec_rev r \<le> max_rev_of m rs)"
  proof (induction rs arbitrary: m)
    case (Cons r rs)
    then show ?case by (auto simp: max_rev_of_def intro: order_trans [OF max.cobounded1]
        order_trans [OF max.cobounded2])
  qed (simp add: max_rev_of_def)
  then show "m \<le> max_rev_of m rs" "r \<in> set rs \<Longrightarrow> rec_rev r \<le> max_rev_of m rs" by simp_all
qed

lemma max_rev_of_less: "m < N \<Longrightarrow> \<forall>r \<in> set rs. rec_rev r < N \<Longrightarrow> max_rev_of m rs < N"
  unfolding max_rev_of_def by (induction rs arbitrary: m) auto

lemma open_store_state:
  assumes E: "libs_ok E" and log: "log_ok E N rs" and tail: "\<forall>cur. scan_kv_loop E tail cur = ([], Inr cur)"
    and now: "now < 2 ^ 62 * 1000000000"
  shows "\<exists>s. open_store E path (Some (log_bytes rs @ tail)) faults now = Inr (Ok s)
    \<and> store_ok s \<and> view_of s = replay_spec E rs
    \<and> st_next_rev s = max_rev_of 0 rs + 1
    \<and> (\<forall>k v. view_of s k = Some v \<longrightarrow> a_lease v \<noteq> 0 \<longrightarrow> has_lease s (a_lease v))
    \<and> st_wal s = WalFile_open path (Some (log_bytes rs @ tail)) faults
    \<and> log_ok E (st_next_rev s) rs
    \<and> (exact_log E (\<lambda>_. None) rs \<longrightarrow> exact_blobs s)"
proof -
  define w where "w = WalFile_open path (Some (log_bytes rs @ tail)) faults"
  define M where "M = max_rev_of 0 rs + 1"
  have wf: "\<forall>r \<in> set rs. rec_wf E r" using log rec_made_wf [OF E] by (auto simp: log_ok_def)
  have "scan_kv_collect E w = Inr rs"
    unfolding scan_kv_collect_def scan_kv_def scan_kv_file_def w_def WalFile_open_def
    by (simp add: scan_log_append [OF wf] tail)
  have revs: "\<forall>r \<in> set rs. 0 < rec_rev r \<and> rec_rev r < N" using log rec_made_rev [OF E] by (auto simp: log_ok_def)
  have nm: "max_rev_of 0 rs \<noteq> - 1"
  proof (cases rs)
    case (Cons a as)
    then have "0 < N" using revs order_le_less_trans [of 0 "rec_rev a" N] by auto
    with revs have "max_rev_of 0 rs < N" by (intro max_rev_of_less) auto
    then show ?thesis using word_n1_ge [of N] by (auto dest: order_less_le_trans)
  qed (simp add: max_rev_of_def)
  have M: "\<forall>r \<in> set rs. rec_made E M r"
  proof
    fix r assume r: "r \<in> set rs"
    then obtain flags key val cr rv ver lease where
      m: "r = KvWalRecord_new E flags key val cr rv ver lease" "fits key val" "0 < rv"
      using log by (auto simp: log_ok_def rec_made_def)
    have "rec_rev r < M" unfolding M_def using max_rev_of_bound(2) [OF r, of 0] nm by (simp add: word_le_less_succ [symmetric])
    then have "rv < M" by (simp add: m(1) rec_new_facts [OF E m(2)])
    with m show "rec_made E M r" unfolding rec_made_def by blast
  qed
  have k0: "keys_ok ((StoreState_new w)\<lparr>st_next_rev := M\<rparr>)"
    by (simp add: keys_ok_def StoreState_new_def bt_get_def alive_count_def bt_iter_def)
  have v0: "view_of (StoreState_new w) = (\<lambda>_. None)"
    by (rule ext) (simp add: view_of_def get_alive_def StoreState_new_def bt_get_def)
  have x0: "exact_blobs (StoreState_new w)"
    by (simp add: exact_blobs_def get_alive_def StoreState_new_def bt_get_def)
  obtain s where s: "replay_records E rs (StoreState_new w) 0 = (Ok (max_rev_of 0 rs), s)"
    "keys_ok (s\<lparr>st_next_rev := M\<rparr>)" "view_of s = replay_spec E rs" "st_leases s = []"
    "st_compact_rev s = 0" "st_wal s = w" "exact_log E (\<lambda>_. None) rs \<longrightarrow> exact_blobs s"
    using replay_records_correct [OF E M _ k0, of 0] log v0 x0
    by (auto simp: log_ok_def replay_spec_def StoreState_new_def)
  define t where "t = s\<lparr>st_next_rev := M\<rparr>"
  define u where "u = (let max_id = (if live_lease_ids t = [] then 0 else last (live_lease_ids t))
    in if max_id > 0 then t\<lparr>st_next_lease_id := word_of_int max_id + 1\<rparr> else t)"
  have u: "keys_ok u" "view_of u = replay_spec E rs" "st_leases u = []" "st_compact_rev u = 0"
    "st_next_rev u = M" "leases_ok u" "st_wal u = w"
    using s by (simp_all add: u_def t_def Let_def keys_ok_def leases_ok_def bt_get_def view_of_def get_alive_def fun_eq_iff)
  obtain z where z: "restore_lease_loop now (live_lease_ids t) u = (Ok (), z)" "leases_ok z"
    "z = u\<lparr>st_leases := st_leases z\<rparr>"
    "\<forall>j. j \<in> set (live_lease_ids t) \<longrightarrow> bt_get (st_leases z) j \<noteq> None"
    using restore_lease_loop_correct [OF u(6), of "live_lease_ids t" now] live_lease_ids_sint now by force
  have "restore_leases now t = (Ok (), z)"
    unfolding restore_leases_def Let_def u_def [unfolded Let_def, symmetric] by (rule z(1))
  then have "open_store E path (Some (log_bytes rs @ tail)) faults now = Inr (Ok z)"
    unfolding open_store_def w_def [symmetric] Let_def \<open>scan_kv_collect E w = Inr rs\<close>
    using s(1) by (simp add: M_def [symmetric] t_def [symmetric])
  moreover have zv: "view_of z = replay_spec E rs" "keys_ok z" "st_next_rev z = M" "st_compact_rev z = 0"
    "st_wal z = w"
    using u by (subst z(3), simp)+
  moreover have "0 < M" using word_le_less_succ [OF nm, of 0] by (simp add: M_def)
  moreover have "has_lease z (a_lease v)" if "view_of z k = Some v" "a_lease v \<noteq> 0" for k v
  proof -
    have "keys_ok t" "view_of t = view_of z" using s zv by (simp_all add: t_def)
    with set_live_lease_ids [of t "sint (a_lease v)"] that z(4) show ?thesis by (auto simp: has_lease_def)
  qed
  moreover have "st_keys z = st_keys s" by (subst z(3)) (simp add: u_def t_def Let_def)
  then have "exact_log E (\<lambda>_. None) rs \<longrightarrow> exact_blobs z" using s(7) by (simp add: exact_blobs_def get_alive_def)
  ultimately show ?thesis using z(2) M log
    by (intro exI [of _ z]) (auto simp: store_ok_def M_def w_def log_ok_def)
qed

section \<open>The durability invariant\<close>

text \<open>While no write fails, the log is a sequence of records whose replay gives the key space.\<close>

text \<open>What is compared of two key spaces; \<open>p\<close> selects the attributes.  Compaction of the log keeps
  only some of them, hence the parameter: \<open>p\<close> must be determined by the records alone.\<close>

definition proj :: "(abs_kv \<Rightarrow> 'a) \<Rightarrow> (bytes \<Rightarrow> abs_kv option) \<Rightarrow> bytes \<Rightarrow> 'a option" where
  "proj p m k = map_option p (m k)"

definition stable :: "(abs_kv \<Rightarrow> 'a) \<Rightarrow> bool" where
  "stable p \<longleftrightarrow> (\<forall>m m' key val lease r. proj p m = proj p m' \<longrightarrow>
     proj p (spec_put key val lease r m) = proj p (spec_put key val lease r m'))"

lemma stable_id: "stable (\<lambda>v. v)"
proof -
  have "proj (\<lambda>v. v) m = m" for m by (rule ext) (simp add: proj_def option.map_ident)
  then show ?thesis by (simp add: stable_def)
qed

definition core :: "abs_kv \<Rightarrow> bytes \<times> u64 \<times> i64" where
  "core v = (a_value v, a_mod v, a_lease v)"

lemma stable_core: "stable core"
proof -
  have "proj core (spec_put key val lease r m) = (proj core m)(key \<mapsto> (val, r, lease))" for key val lease r m
    by (rule ext) (simp add: proj_def spec_put_def core_def split: option.splits)
  then show ?thesis by (simp add: stable_def)
qed

lemma proj_spec_delete: "proj p (spec_delete K m) = proj p m |` (- K)"
  by (rule ext) (simp add: proj_def spec_delete_def restrict_map_def)

lemma proj_replay:
  assumes "stable p" and "proj p m = proj p m'"
  shows "proj p (foldl (rec_spec E) m rs) = proj p (foldl (rec_spec E) m' rs)"
  using assms(2)
proof (induction rs arbitrary: m m')
  case (Cons r rs)
  have sp: "proj p (spec_put k v l x m) = proj p (spec_put k v l x m')" for k v l x
    using assms(1) Cons.prems unfolding stable_def by blast
  have "proj p (rec_spec E m r) = proj p (rec_spec E m' r)"
    by (simp add: rec_spec_def proj_spec_delete Cons.prems sp split: option.splits)
  from Cons.IH [OF this] show ?case by simp
qed simp

text \<open>The invariant is relative to a point of the log: the bytes, the key space and the next revision
  there.  The start of the log is the point of a fresh store; the snapshot of a running compaction is
  another.\<close>

record log_base =
  lb_bytes :: bytes
  lb_view :: "bytes \<Rightarrow> abs_kv option"
  lb_rev :: u64

definition log_start :: log_base where
  "log_start = \<lparr>lb_bytes = [], lb_view = (\<lambda>_. None), lb_rev = 0\<rparr>"

lemma log_start_simps [simp]: "lb_bytes log_start = []" "lb_view log_start = (\<lambda>_. None)" "lb_rev log_start = 0"
  by (simp_all add: log_start_def)

definition durable_from :: "log_base \<Rightarrow> (abs_kv \<Rightarrow> 'a) \<Rightarrow> libs \<Rightarrow> store_state \<Rightarrow> bool" where
  "durable_from B p E s \<longleftrightarrow>
     stable p \<and> wf_faults (st_wal s) = [] \<and> lb_rev B \<le> st_next_rev s
     \<and> (\<exists>rs. wf_content (st_wal s) = lb_bytes B @ log_bytes rs \<and> log_ok E (st_next_rev s) rs
            \<and> (\<forall>r \<in> set rs. lb_rev B \<le> rec_rev r)
            \<and> proj p (foldl (rec_spec E) (lb_view B) rs) = proj p (view_of s))
     \<and> (\<forall>k v. view_of s k = Some v \<longrightarrow> fits k (a_value v))"

abbreviation durable :: "(abs_kv \<Rightarrow> 'a) \<Rightarrow> libs \<Rightarrow> store_state \<Rightarrow> bool" where
  "durable \<equiv> durable_from log_start"

lemma durable_def:
  "durable p E s \<longleftrightarrow> stable p \<and> wf_faults (st_wal s) = []
     \<and> (\<exists>rs. wf_content (st_wal s) = log_bytes rs \<and> log_ok E (st_next_rev s) rs
            \<and> proj p (replay_spec E rs) = proj p (view_of s))
     \<and> (\<forall>k v. view_of s k = Some v \<longrightarrow> fits k (a_value v))"
  by (simp add: durable_from_def replay_spec_def)

definition put_fits :: "put_request \<Rightarrow> bool" where
  "put_fits req \<longleftrightarrow> fits (pr_key req) (pr_value req)"

lemma put_fits_small: "put_fits req \<Longrightarrow> put_small req"
  by (simp add: put_fits_def put_small_def fits_def)

text \<open>Appending records of the last allocated revision.\<close>

lemma log_ok_append:
  assumes E: "libs_ok E" and "log_ok E (st_next_rev s) rs" and r: "at_rev r s"
    and "\<forall>x \<in> set xs. rec_made E (st_next_rev s) x \<and> rec_rev x = r"
  shows "log_ok E (st_next_rev s) (rs @ xs)"
proof -
  have "rec_rev x \<le> r" if "x \<in> set rs" for x
    using assms(2) that rec_made_rev [OF E] at_rev_less [OF r] by (auto simp: log_ok_def)
  moreover have "revs_ok xs" using assms(4) unfolding revs_ok_def
    by (induction xs) auto
  ultimately show ?thesis using assms(2,4) by (auto simp: log_ok_def revs_ok_def sorted_wrt_append)
qed

lemma replay_spec_append: "replay_spec E (rs @ xs) = foldl (rec_spec E) (replay_spec E rs) xs"
  by (simp add: replay_spec_def)

lemma durable_append:
  assumes "libs_ok E" and "durable_from B p E s" and "at_rev r s" and "lb_rev B \<le> r"
    and "\<forall>x \<in> set xs. rec_made E (st_next_rev s) x \<and> rec_rev x = r"
    and "wf_content (st_wal s') = wf_content (st_wal s) @ log_bytes xs" "wf_faults (st_wal s') = []"
    and "st_next_rev s' = st_next_rev s" and "view_of s' = foldl (rec_spec E) (view_of s) xs"
    and "\<forall>k v. view_of s' k = Some v \<longrightarrow> fits k (a_value v)"
  shows "durable_from B p E s'"
proof -
  from assms(2) obtain rs where rs: "wf_content (st_wal s) = lb_bytes B @ log_bytes rs" "log_ok E (st_next_rev s) rs"
    "proj p (foldl (rec_spec E) (lb_view B) rs) = proj p (view_of s)" "\<forall>r \<in> set rs. lb_rev B \<le> rec_rev r" by (auto simp: durable_from_def)
  have "stable p" using assms(2) by (simp add: durable_from_def)
  with proj_replay [OF this rs(3), of E xs] log_ok_append [OF assms(1) rs(2) assms(3,5)] rs(1,4) assms(2,4-10)
  show ?thesis
    unfolding durable_from_def by (intro conjI exI [of _ "rs @ xs"]) (auto simp: durable_from_def)
qed

lemma durable_alloc:
  assumes "durable_from B p E s" and "st_next_rev s \<noteq> - 1"
  shows "durable_from B p E (snd (alloc_revision s))"
proof -
  from assms(1) obtain rs where rs: "wf_content (st_wal s) = lb_bytes B @ log_bytes rs" "log_ok E (st_next_rev s) rs"
    "proj p (foldl (rec_spec E) (lb_view B) rs) = proj p (view_of s)" "\<forall>r \<in> set rs. lb_rev B \<le> rec_rev r" by (auto simp: durable_from_def)
  have "log_ok E (st_next_rev s + 1) rs"
    using rs(2) rec_made_mono [of E "st_next_rev s" _ "st_next_rev s + 1"] word_less_succ [OF assms(2)]
    by (auto simp: log_ok_def)
  moreover have "lb_rev B \<le> st_next_rev s + 1"
    using assms word_less_succ [OF assms(2)] by (auto simp: durable_from_def)
  ultimately show ?thesis using rs assms(1) by (auto simp: durable_from_def)
qed

lemma durable_cong:
  "durable_from B p E s \<Longrightarrow> st_wal s' = st_wal s \<Longrightarrow> st_next_rev s' = st_next_rev s \<Longrightarrow> view_of s' = view_of s
     \<Longrightarrow> durable_from B p E s'"
  by (simp add: durable_from_def)

lemma fits_put_value:
  assumes "durable_from B p E s" and "put_fits req" and "\<not> put_reuses_missing req s"
  shows "fits (pr_key req) (put_value req s)"
proof (cases "pr_ignore_value req")
  case True
  then obtain p where p: "get_alive s (pr_key req) = Some p" using assms(3) by (auto simp: put_reuses_missing_def)
  then have "view_of s (pr_key req) = Some (abs_entry p)" by (simp add: view_of_def)
  with assms(1) have "fits (pr_key req) (a_value (abs_entry p))" by (simp add: durable_from_def)
  then show ?thesis using True p by (simp add: put_value_def abs_entry_def)
qed (use assms(2) in \<open>simp add: put_value_def put_fits_def\<close>)

lemma durable_put_at:
  assumes E: "libs_ok E" and d: "durable_from B p E s" and k: "keys_ok s" and r: "at_rev r s" "lb_rev B \<le> r" and "put_fits req"
  shows "durable_from B p E (snd (put_at E req r s))"
proof (cases "put_reuses_missing req s \<or> put_lease_missing req s")
  case True
  then show ?thesis using d by (auto simp: put_at_eq)
next
  case False
  have f: "wf_faults (st_wal s) = []" using d by (simp add: durable_from_def)
  have ok: "is_ok (fst (put_at E req r s))" using False by (simp add: put_at_eq append_kv_no_fault [OF f] Let_def)
  have fit: "fits (pr_key req) (put_value req s)" using fits_put_value [OF d assms(6)] False by simp
  let ?x = "put_record E req r s"
  have N: "0 < r" "r < st_next_rev s" using r at_rev_less [OF r(1)] by (auto simp: at_rev_def)
  have m: "rec_made E (st_next_rev s) ?x"
    unfolding rec_made_def put_record_def using fit N by blast
  have flags: "((if A then IS_CREATE else 0) OR (if B then HAS_LEASE else 0)) AND DELETED = (0 :: u8)" for A B
    by (simp add: flag_defs)
  have sp: "rec_rev ?x = r" "rec_spec E v ?x = spec_put (pr_key req) (put_value req s) (put_lease req s) r v" for v
    unfolding put_record_def by (simp_all only: rec_new_facts [OF E fit] flags) simp
  have c: "same_env s (snd (put_at E req r s))" "view_of (snd (put_at E req r s)) =
      spec_put (pr_key req) (put_value req s) (put_lease req s) r (view_of s)"
    using put_at_correct [OF k r(1) put_fits_small [OF assms(6)], of E] ok by simp_all
  have ft: "fits k (a_value v)" if "view_of (snd (put_at E req r s)) k = Some v" for k v
    using that fit d unfolding c(2) durable_from_def
    by (auto simp: spec_put_def split: if_splits option.splits)
  show ?thesis
  proof (rule durable_append [OF E d r, of "[?x]"])
    show "wf_faults (st_wal (snd (put_at E req r s))) = []"
      using False f by (simp add: put_at_eq append_kv_no_fault [OF f] Let_def)
  qed (use m sp c ft put_at_log [OF ok] in \<open>auto simp: same_env_def\<close>)
qed

text \<open>The tombstones of a set of live keys, replayed, delete exactly these keys.\<close>

lemma delete_records_facts:
  assumes E: "libs_ok E" and d: "durable_from B p E s" and "at_rev r s" and "\<forall>k \<in> set ks. get_alive s k \<noteq> None"
  defines "xs \<equiv> map (\<lambda>k. delete_record E k r (the (get_alive s k))) ks"
  shows "\<forall>x \<in> set xs. rec_made E (st_next_rev s) x \<and> rec_rev x = r"
    and "foldl (rec_spec E) m xs = spec_delete (set ks) m"
proof -
  have N: "0 < r" "r < st_next_rev s" using assms(3) at_rev_less [OF assms(3)] by (auto simp: at_rev_def)
  have x: "rec_made E (st_next_rev s) (delete_record E k r p) \<and> rec_rev (delete_record E k r p) = r
      \<and> rec_spec E m (delete_record E k r p) = spec_delete {k} m" if "get_alive s k = Some p" for k p m
  proof -
    have "view_of s k = Some (abs_entry p)" using that by (simp add: view_of_def)
    with d have "fits k (a_value (abs_entry p))" by (simp add: durable_from_def)
    then have fit: "fits k (ks_value p)" by (simp add: abs_entry_def)
    have flags: "(if A then DELETED OR HAS_LEASE else DELETED) AND DELETED \<noteq> 0" for A by (simp add: flag_defs)
    have "rec_made E (st_next_rev s) (delete_record E k r p)"
      unfolding rec_made_def delete_record_def Let_def using fit N by blast
    then show ?thesis unfolding delete_record_def Let_def rec_new_facts [OF E fit] using flags by simp
  qed
  show "\<forall>x \<in> set xs. rec_made E (st_next_rev s) x \<and> rec_rev x = r" using x assms(4) by (force simp: xs_def)
  have "foldl (rec_spec E) m (map (\<lambda>k. delete_record E k r (the (get_alive s k))) ks) = spec_delete (set ks) m"
    if "\<forall>k \<in> set ks. get_alive s k \<noteq> None" for ks
    using that
  proof (induction ks arbitrary: m)
    case (Cons k ks)
    then obtain p where p: "get_alive s k = Some p" by auto
    have "spec_delete (set ks) (spec_delete {k} m) = spec_delete (set (k # ks)) m"
      by (auto simp: spec_delete_def restrict_map_def)
    then show ?case using Cons x [OF p, of m] p by simp
  qed simp
  then show "foldl (rec_spec E) m xs = spec_delete (set ks) m" using assms(4) by (simp add: xs_def)
qed

lemma fits_spec_delete:
  "durable_from B p E s \<Longrightarrow> \<forall>k v. spec_delete K (view_of s) k = Some v \<longrightarrow> fits k (a_value v)"
  by (auto simp: durable_from_def spec_delete_def restrict_map_def split: if_splits)

text \<open>Logging the tombstones of live keys and applying the deletions.\<close>

lemma durable_deletes:
  assumes E: "libs_ok E" and d: "durable_from B p E s" and k: "keys_ok s" and r: "at_rev r s" "lb_rev B \<le> r"
    and live: "\<forall>k \<in> set ks. get_alive s k \<noteq> None"
  defines "w \<equiv> snd (append_kv_batch (delete_records E ks r s) (st_wal s))"
  shows "durable_from B p E (snd (apply_deletes ks r (s\<lparr>st_wal := w\<rparr>)))"
    and "append_kv_batch (delete_records E ks r s) (st_wal s) = (Inr (), w)"
proof -
  have f: "wf_faults (st_wal s) = []" using d by (simp add: durable_from_def)
  show a: "append_kv_batch (delete_records E ks r s) (st_wal s) = (Inr (), w)"
    unfolding w_def append_kv_batch_no_fault [OF f] by simp
  let ?xs = "map (\<lambda>k. delete_record E k r (the (get_alive s k))) ks"
  have xs: "delete_records E ks r s = ?xs"
    unfolding delete_records_eq using live by (simp add: filter_id_conv [THEN iffD2])
  have w: "wf_content w = wf_content (st_wal s) @ log_bytes ?xs" "wf_faults w = []"
    using a f unfolding append_kv_batch_no_fault [OF f] xs by auto
  note c = apply_deletes_correct [of "s\<lparr>st_wal := w\<rparr>" r ks]
  show "durable_from B p E (snd (apply_deletes ks r (s\<lparr>st_wal := w\<rparr>)))"
    by (rule durable_append [OF E d r delete_records_facts(1) [OF E d r(1) live]])
      (use c k r w delete_records_facts(2) [OF E d r(1) live] fits_spec_delete [OF d, of "set ks"] in
        \<open>auto simp: same_env_def\<close>)
qed

lemma durable_delete_range_at:
  assumes E: "libs_ok E" and d: "durable_from B p E s" and k: "keys_ok s" and r: "at_rev r s" "lb_rev B \<le> r"
  shows "durable_from B p E (snd (delete_range_at E req r s))"
proof -
  have ok: "bt_ok (st_keys s)" using k by (simp add: keys_ok_def)
  have live: "\<forall>k \<in> set (live_in (dr_bound req) s). get_alive s k \<noteq> None" using set_live_in [OF ok] by blast
  define ks where "ks = live_in (dr_bound req) s"
  define w where "w = snd (append_kv_batch (delete_records E ks r s) (st_wal s))"
  note D = durable_deletes [OF E d k r live, folded ks_def, folded w_def]
  obtain x t where t: "apply_deletes ks r (s\<lparr>st_wal := w\<rparr>) = (x, t)" by fastforce
  have "snd (delete_range_at E req r s) = (if bad_bound (dr_bound req) then s else t)"
    unfolding delete_range_at_def delete_targets_eq [OF ok]
    by (cases x) (simp_all add: ks_def [symmetric] D(2) t Let_def)
  then show ?thesis using d D(1) t by simp
qed

lemma durable_delete_keys_for_lease:
  assumes E: "libs_ok E" and d: "durable_from B p E s" and k: "store_ok s" and n: "st_next_rev s \<noteq> - 1"
  shows "durable_from B p E (snd (delete_keys_for_lease E lease_id s))"
proof (cases "lease_keys lease_id s = []")
  case True
  then show ?thesis using d by (simp add: delete_keys_for_lease_def lease_keys_def)
next
  case False
  let ?t = "snd (alloc_revision s)"
  from alloc_revision_at [OF k n] have t: "at_rev (st_next_rev s) ?t" "keys_ok ?t" by (simp_all add: store_ok_def)
  have "\<forall>k \<in> set (lease_keys lease_id s). get_alive ?t k \<noteq> None"
    using set_lease_keys [of s lease_id] k by (auto simp: store_ok_def attached_def view_of_def)
  note live = this
  define u where "u = ?t"
  define w where "w = snd (append_kv_batch (delete_records E (lease_keys lease_id s) (st_next_rev s) u) (st_wal u))"
  have b: "lb_rev B \<le> st_next_rev s" using d by (simp add: durable_from_def)
  note D = durable_deletes [OF E durable_alloc [OF d n] t(2,1) b live, folded u_def, folded w_def]
  have a: "alloc_revision s = (st_next_rev s, u)" by (simp add: u_def alloc_revision_def Let_def)
  have "delete_keys_for_lease E lease_id s =
      apply_deletes (lease_keys lease_id s) (st_next_rev s) (u\<lparr>st_wal := w\<rparr>)"
    unfolding delete_keys_for_lease_def lease_keys_def [symmetric] a Let_def prod.case
    using False D(2) by simp
  then show ?thesis using D(1) by simp
qed

section \<open>Compaction keeps what the log says\<close>

text \<open>The snapshot of a state, replayed: every live key with its value, revision and lease, but as if
  it had been created by its last write.\<close>

definition fresh :: "key_state \<Rightarrow> abs_kv" where
  "fresh ks = \<lparr>a_value = ks_value ks, a_create = ks_mod_revision ks, a_mod = ks_mod_revision ks,
     a_version = 1, a_lease = ks_lease ks\<rparr>"

definition snapshot_record :: "libs \<Rightarrow> bytes \<times> key_state \<Rightarrow> kv_wal_record" where
  "snapshot_record E e =
     KvWalRecord_new E (if ks_lease (snd e) \<noteq> 0 then HAS_LEASE else 0) (fst e) (ks_value (snd e))
       (ks_create_revision (snd e)) (ks_mod_revision (snd e)) (ks_version (snd e)) (ks_lease (snd e))"

lemma snapshot_records_eq:
  "snapshot_records E s = map (snapshot_record E) (filter (\<lambda>e. is_alive (snd e)) (st_keys s))"
  by (simp add: snapshot_records_def snapshot_record_def is_alive_def bt_iter_def Let_def case_prod_unfold)

lemma snapshot_record_spec:
  assumes "libs_ok E" and "fits (fst e) (ks_value (snd e))"
  shows "rec_spec E m (snapshot_record E e) =
      spec_put (fst e) (ks_value (snd e)) (ks_lease (snd e)) (ks_mod_revision (snd e)) m"
    and "rec_key (snapshot_record E e) = Some (fst e)"
    and "rec_rev (snapshot_record E e) = ks_mod_revision (snd e)"
proof -
  have "(if A then HAS_LEASE else 0) AND DELETED = (0 :: u8)" for A by (simp add: flag_defs)
  then show "rec_spec E m (snapshot_record E e) =
      spec_put (fst e) (ks_value (snd e)) (ks_lease (snd e)) (ks_mod_revision (snd e)) m"
    unfolding snapshot_record_def by (simp only: rec_new_facts [OF assms]) simp
  show "rec_key (snapshot_record E e) = Some (fst e)"
    "rec_rev (snapshot_record E e) = ks_mod_revision (snd e)"
    by (simp_all add: snapshot_record_def rec_new_facts [OF assms])
qed

lemma replay_snapshot:
  assumes E: "libs_ok E" and "\<forall>e \<in> set es. fits (fst e) (ks_value (snd e))" and "distinct (map fst es)"
    and "\<forall>e \<in> set es. m (fst e) = None"
  shows "foldl (rec_spec E) m (map (snapshot_record E) es) k =
    (case map_of es k of Some ks \<Rightarrow> Some (fresh ks) | None \<Rightarrow> m k)"
  using assms(2-)
proof (induction es arbitrary: m)
  case (Cons e es)
  let ?m = "rec_spec E m (snapshot_record E e)"
  have m: "?m = m(fst e \<mapsto> fresh (snd e))"
    using Cons.prems snapshot_record_spec(1) [OF E, of e m] by (simp add: spec_put_def fresh_def)
  have "\<forall>e' \<in> set es. ?m (fst e') = None"
  proof
    fix e' assume e': "e' \<in> set es"
    then have "fst e' \<noteq> fst e" using Cons.prems(2) by (auto simp: image_iff)
    with e' show "?m (fst e') = None" using Cons.prems(3) by (simp add: m)
  qed
  with Cons.IH [of ?m] Cons.prems have
    "foldl (rec_spec E) ?m (map (snapshot_record E) es) k =
      (case map_of es k of Some ks \<Rightarrow> Some (fresh ks) | None \<Rightarrow> ?m k)" by simp
  moreover have "map_of es (fst e) = None" using Cons.prems(2) by (simp add: map_of_eq_None_iff)
  ultimately show ?case using m by (cases e) (auto split: option.splits)
qed simp

lemma map_of_filter_alive:
  assumes "bt_ok (st_keys s)"
  shows "map_of (filter (\<lambda>e. is_alive (snd e)) (st_keys s)) k = get_alive s k"
proof -
  have d: "distinct (map fst (st_keys s))" using bt.distinct_keys [OF assms] by (simp add: bt_iter_def)
  then have "map_of (filter (\<lambda>e. is_alive (snd e)) (st_keys s)) k = Some v \<longleftrightarrow> get_alive s k = Some v" for v
    using map_of_eq_Some_iff [of "filter (\<lambda>e. is_alive (snd e)) (st_keys s)" k v] distinct_map_filter [OF d]
      map_of_eq_Some_iff [OF d, of k v] by (auto simp: get_alive_Some bt_get_def)
  then show ?thesis by (metis option.exhaust)
qed

lemma snapshot_facts:
  assumes E: "libs_ok E" and s: "keys_ok s" and f: "\<forall>k v. view_of s k = Some v \<longrightarrow> fits k (a_value v)"
  shows "log_ok E (st_next_rev s) (snapshot_records E s)"
    and "proj core (replay_spec E (snapshot_records E s)) = proj core (view_of s)"
    and "\<forall>r \<in> set (snapshot_records E s). rec_rev r < st_next_rev s"
    and "replay_spec E (snapshot_records E s) = (\<lambda>k. map_option fresh (get_alive s k))"
proof -
  have ok: "bt_ok (st_keys s)" using s by (simp add: keys_ok_def)
  let ?es = "filter (\<lambda>e. is_alive (snd e)) (st_keys s)"
  have alive: "get_alive s (fst e) = Some (snd e)" if "e \<in> set ?es" for e
    using that bt.iter_get [OF ok, of "fst e" "snd e"] by (simp add: get_alive_Some bt_iter_def)
  have fit: "fits (fst e) (ks_value (snd e))" if "e \<in> set ?es" for e
  proof -
    have "view_of s (fst e) = Some (abs_entry (snd e))" using alive [OF that] by (simp add: view_of_def)
    with f have "fits (fst e) (a_value (abs_entry (snd e)))" by blast
    then show ?thesis by (simp add: abs_entry_def)
  qed
  have ent: "0 < ks_mod_revision (snd e) \<and> ks_mod_revision (snd e) < st_next_rev s" if "e \<in> set ?es" for e
    using keys_ok_get_alive [OF s alive [OF that]] by (auto simp: entry_ok_def)
  have d: "distinct (map fst ?es)"
    using bt.distinct_keys [OF ok] by (simp add: bt_iter_def distinct_map_filter)
  have made: "rec_made E (st_next_rev s) (snapshot_record E e)" if "e \<in> set ?es" for e
    unfolding rec_made_def snapshot_record_def using fit [OF that] ent [OF that] by blast
  have "sorted_wrt (\<lambda>a b. fst a < fst b) ?es"
    using ok by (simp add: bt_ok_def sorted_wrt_map sorted_wrt_filter)
  then have "sorted_wrt (\<lambda>a b. rec_key (snapshot_record E a) = rec_key (snapshot_record E b) \<longrightarrow>
      rec_rev (snapshot_record E a) \<le> rec_rev (snapshot_record E b)) ?es"
    by (rule sorted_wrt_mono_rel [rotated]) (auto simp: snapshot_record_spec(2) [OF E fit])
  with made show "log_ok E (st_next_rev s) (snapshot_records E s)"
    by (auto simp: log_ok_def revs_ok_def snapshot_records_eq sorted_wrt_map)
  have r: "replay_spec E (snapshot_records E s) k = map_option fresh (get_alive s k)" for k
    using replay_snapshot [OF E, of ?es "\<lambda>_. None" k] fit d map_of_filter_alive [OF ok, of k]
    by (simp add: replay_spec_def snapshot_records_eq split: option.splits)
  then show "replay_spec E (snapshot_records E s) = (\<lambda>k. map_option fresh (get_alive s k))" by (rule ext)
  show "proj core (replay_spec E (snapshot_records E s)) = proj core (view_of s)"
    by (rule ext) (simp add: r proj_def view_of_def core_def fresh_def abs_entry_def option.map_comp comp_def)
  show "\<forall>r \<in> set (snapshot_records E s). rec_rev r < st_next_rev s"
    using ent snapshot_record_spec(3) [OF E fit] by (auto simp: snapshot_records_eq)
qed

lemma write_all_ok: "write_all d f = (Inr u, f') \<Longrightarrow> wf_content f' = wf_content f @ d"
  by (auto simp: write_all_def split: list.splits option.splits)

lemma write_snapshot_ok: "write_snapshot rs f = (Inr u, f') \<Longrightarrow> wf_content f' = wf_content f @ log_bytes rs"
  by (induction rs f rule: write_snapshot.induct) (auto dest: write_all_ok split: prod.splits sum.splits)

lemma compact_wal_content:
  assumes "compact_wal E s_a sb sc rn ro temp s_c = (Inr u, s')"
    and "wf_content (st_wal s_c) = wf_content (st_wal s_a) @ rest"
  shows "wf_content (st_wal s') = log_bytes (snapshot_records E s_a) @ rest"
    and "s' = s_c\<lparr>st_wal := (st_wal s_c)\<lparr>wf_content := wf_content (st_wal s'), wf_dirty := True, wf_detached := None\<rparr>\<rparr>"
proof -
  obtain x f where b: "compact_phase_b (snapshot_records E s_a) sb temp = (x, f)" by fastforce
  with assms(1) obtain v where x: "x = Inr v" by (cases x) (auto simp: compact_wal_def compact_phase_a_def)
  have f: "wf_content f = log_bytes (snapshot_records E s_a)"
    using b x write_snapshot_ok [of "snapshot_records E s_a" "temp\<lparr>wf_content := []\<rparr>"]
    by (auto simp: compact_phase_b_def split: prod.splits sum.splits)
  have c: "compact_phase_c (length (wf_content (st_wal s_a))) sc rn ro f s_c = (Inr u, s')"
    using assms(1) b x by (simp add: compact_wal_def compact_phase_a_def)
  obtain f' :: wal_file where f': "wf_content f' = log_bytes (snapshot_records E s_a) @ rest"
    "s' = s_c\<lparr>st_wal := (st_wal s_c)\<lparr>wf_content := wf_content f', wf_dirty := True, wf_detached := None\<rparr>\<rparr>"
  proof (cases "rest = []")
    case True
    then show ?thesis using that [of f] c f assms(2) by (simp add: compact_phase_c_def split: sum.splits)
  next
    case False
    obtain y g where g: "write_all rest f = (y, g)" by fastforce
    show ?thesis
    proof (rule that [of g])
      show "wf_content g = log_bytes (snapshot_records E s_a) @ rest"
        using c g False assms(2) f write_all_ok [of rest f _ g]
        by (auto simp: compact_phase_c_def split: sum.splits)
      show "s' = s_c\<lparr>st_wal := (st_wal s_c)\<lparr>wf_content := wf_content g, wf_dirty := True, wf_detached := None\<rparr>\<rparr>"
        using c g False assms(2) by (auto simp: compact_phase_c_def split: sum.splits)
    qed
  qed
  then show "wf_content (st_wal s') = log_bytes (snapshot_records E s_a) @ rest"
    "s' = s_c\<lparr>st_wal := (st_wal s_c)\<lparr>wf_content := wf_content (st_wal s'), wf_dirty := True, wf_detached := None\<rparr>\<rparr>" by simp_all
qed

text \<open>When every step up to the rename succeeds and the renamed file cannot be opened, the call fails,
  the handle is that of the old log, and the path holds the compacted one.\<close>

lemma compact_wal_detaches:
  assumes "wf_content (st_wal s_c) = wf_content (st_wal s_a) @ rest" and "wf_faults temp = []"
  shows "compact_wal E s_a (Inr ()) (Inr ()) (Inr ()) (Inl e) temp s_c =
    (Inl e, s_c\<lparr>st_wal := (st_wal s_c)\<lparr>wf_detached := Some (log_bytes (snapshot_records E s_a) @ rest)\<rparr>\<rparr>)"
proof -
  have "write_snapshot rs f = (Inr (), f\<lparr>wf_content := wf_content f @ log_bytes rs\<rparr>)" if "wf_faults f = []" for rs f
    using that by (induction rs arbitrary: f) (simp_all add: write_all_def)
  then show ?thesis
    using assms by (simp add: compact_wal_def compact_phase_a_def compact_phase_b_def compact_phase_c_def write_all_def)
qed

section \<open>Examples\<close>

definition demo_record :: kv_wal_record where
  "demo_record = KvWalRecord_new ref_libs 2 [1] [2] 1 1 1 0"

lemma demo_log_ok: "log_ok ref_libs 2 [demo_record]" "rec_wf ref_libs demo_record"
proof -
  have f: "fits [1] [2]" by (simp add: fits_def)
  show "log_ok ref_libs 2 [demo_record]"
    unfolding log_ok_def revs_ok_def rec_made_def demo_record_def using f by (auto intro!: exI)
  show "rec_wf ref_libs demo_record" unfolding demo_record_def by (rule rec_new_facts [OF libs_ok_ref f])
qed

section \<open>Properties\<close>

lemma compact_wal_effect:
  assumes "libs_ok E" and "store_ok s_a" and "\<forall>k v. view_of s_a k = Some v \<longrightarrow> fits k (a_value v)"
    and "wf_content (st_wal s_c) = wf_content (st_wal s_a) @ log_bytes xs"
    and "log_ok E N xs" and "\<forall>x \<in> set xs. st_next_rev s_a \<le> rec_rev x" and "st_next_rev s_a \<le> N"
    and "proj core (view_of s_c) = proj core (foldl (rec_spec E) (view_of s_a) xs)"
    and "compact_wal E s_a sb sc rn ro temp s_c = (Inr u, s')"
  shows "\<exists>rs. wf_content (st_wal s') = log_bytes rs \<and> log_ok E N rs
    \<and> proj core (replay_spec E rs) = proj core (view_of s') \<and> st_keys s' = st_keys s_c
    \<and> replay_spec E rs = foldl (rec_spec E) (\<lambda>k. map_option fresh (get_alive s_a k)) xs"
proof -
  note c = compact_wal_content [OF assms(9,4)]
  have k: "keys_ok s_a" using assms(2) by (simp add: store_ok_def)
  note sn = snapshot_facts [OF assms(1) k assms(3)]
  have "rec_rev x \<le> rec_rev y" if "x \<in> set (snapshot_records E s_a)" "y \<in> set xs" for x y
    using sn(3) assms(6) that by (meson less_imp_le order.strict_trans2)
  then have "log_ok E N (snapshot_records E s_a @ xs)"
    using sn(1) assms(5,7) by (auto simp: log_ok_def revs_ok_def sorted_wrt_append intro: rec_made_mono)
  moreover have "proj core (replay_spec E (snapshot_records E s_a @ xs)) = proj core (view_of s_c)"
    unfolding replay_spec_append assms(8) by (rule proj_replay [OF stable_core sn(2)])
  moreover have "view_of s' = view_of s_c" "st_keys s' = st_keys s_c" by (subst c(2), simp)+
  moreover have "replay_spec E (snapshot_records E s_a @ xs) = foldl (rec_spec E) (\<lambda>k. map_option fresh (get_alive s_a k)) xs"
    unfolding replay_spec_append sn(4) ..
  ultimately show ?thesis using c(1) by (intro exI [of _ "snapshot_records E s_a @ xs"]) simp
qed

text \<open>C10. Compaction of the log while writes go on: when it succeeds, the new log is well-formed, no key of the
  state changes, and the replay of the new log gives every key the value, revision and lease it has in memory.  It is
  that of the records written since, from the state of the snapshot with every key as if it had been created by its
  last write: creation revisions and versions are forgotten.\<close>

theorem compact_wal_keeps_keys:
  assumes "libs_ok E" and "store_ok s_a" and "\<forall>k v. view_of s_a k = Some v \<longrightarrow> fits k (a_value v)"
    and "wf_content (st_wal s_c) = wf_content (st_wal s_a) @ log_bytes xs"
    and "log_ok E N xs" and "\<forall>x \<in> set xs. st_next_rev s_a \<le> rec_rev x" and "st_next_rev s_a \<le> N"
    and "proj core (view_of s_c) = proj core (foldl (rec_spec E) (view_of s_a) xs)"
    and "compact_wal E s_a sb sc rn ro temp s_c = (Inr u, s')"
  shows "\<exists>rs. wf_content (st_wal s') = log_bytes rs \<and> log_ok E N rs
    \<and> proj core (replay_spec E rs) = proj core (view_of s') \<and> st_keys s' = st_keys s_c
    \<and> replay_spec E rs = foldl (rec_spec E) (\<lambda>k. map_option fresh (get_alive s_a k)) xs"
  by (rule compact_wal_effect [OF assms])

lemma write_snapshot_no_fault:
  "wf_faults f = [] \<Longrightarrow> write_snapshot rs f = (Inr (), f\<lparr>wf_content := wf_content f @ log_bytes rs\<rparr>)"
  by (induction rs arbitrary: f) (simp_all add: write_all_def)

lemma compact_wal_keeps_keys_witness:
  "\<exists>s'. compact_wal ref_libs demo_state (Inr ()) (Inr ()) (Inr ()) (Inr ()) demo_wal demo_state = (Inr (), s')
     \<and> (\<exists>rs. wf_content (st_wal s') = log_bytes rs \<and> proj core (replay_spec ref_libs rs) = proj core (view_of s'))"
proof -
  obtain s' where c: "compact_wal ref_libs demo_state (Inr ()) (Inr ()) (Inr ()) (Inr ()) demo_wal demo_state = (Inr (), s')"
    by (simp add: compact_wal_def compact_phase_a_def compact_phase_b_def compact_phase_c_def
        write_snapshot_no_fault demo_wal_def)
  have v: "\<forall>k v. view_of demo_state k = Some v \<longrightarrow> fits k (a_value v)"
    by (simp add: demo_state_def demo_view spec_put_def fits_def)
  have l: "log_ok ref_libs 2 []" by (simp add: log_ok_def revs_ok_def)
  from compact_wal_keeps_keys [OF libs_ok_ref demo_state_ok(1) v _ l _ _ _ c] demo_state_ok(2) c
  show ?thesis by auto
qed

end
