(* ===== verification/System.thy ===== *)
theory System
  imports Recovery
begin

text \<open>
  The store as a state machine: every request and background task is a step, a restart replaces the
  state by what start-up reads from the log.  The invariants of the components hold in every
  reachable state, and a restart loses nothing that clients could see.
\<close>

section \<open>Durability of the remaining operations\<close>

interpretation dur: txn_ops E
  "\<lambda>rv s. libs_ok E \<and> lb_rev B \<le> n \<and> txn_inv n rv s \<and> durable_from B p E s"
  "\<lambda>_ _ rv s. libs_ok E \<and> lb_rev B \<le> n \<and> txn_inv n rv s \<and> durable_from B p E s" put_fits for E n B p
proof
  fix rv rv' :: "u64 option" and s s' s'' :: store_state and q r x
  assume a: "libs_ok E \<and> lb_rev B \<le> n \<and> txn_inv n rv s \<and> durable_from B p E s" and "put_fits q"
    and g: "get_or_alloc rv s = (r, rv', s')" and w: "put_at E q r s' = (x, s'')"
  have "txn_inv n rv' s''"
    using txn_put [of n rv s q r rv' s' E x s''] a \<open>put_fits q\<close> g w by (simp add: txn_post_def put_fits_small)
  moreover have "durable_from B p E s'"
    using a g durable_alloc [of B p E s]
    by (auto simp: get_or_alloc_def txn_inv_def alloc_revision_def Let_def split: option.splits)
  ultimately show "libs_ok E \<and> lb_rev B \<le> n \<and> txn_inv n rv' s'' \<and> durable_from B p E s''"
    using durable_put_at [of E B p s' r q] get_or_alloc_inv [of n rv s r rv' s'] a g w \<open>put_fits q\<close>
    by (simp add: store_ok_def)
next
  fix rv rv' :: "u64 option" and s s' s'' :: store_state and r d y
  assume a: "libs_ok E \<and> lb_rev B \<le> n \<and> txn_inv n rv s \<and> durable_from B p E s"
    and g: "get_or_alloc rv s = (r, rv', s')" and w: "delete_range_at E d r s' = (y, s'')"
  have "txn_inv n rv' s''" using txn_delete [of n rv s r rv' s' E d y s''] a g w by (simp add: txn_post_def)
  moreover have "durable_from B p E s'"
    using a g durable_alloc [of B p E s]
    by (auto simp: get_or_alloc_def txn_inv_def alloc_revision_def Let_def split: option.splits)
  ultimately show "libs_ok E \<and> lb_rev B \<le> n \<and> txn_inv n rv' s'' \<and> durable_from B p E s''"
    using durable_delete_range_at [of E B p s' r d] get_or_alloc_inv [of n rv s r rv' s'] a g w
    by (simp add: store_ok_def)
qed auto

lemma durable_txn:
  assumes "libs_ok E" and "store_ok s" and "durable_from B p E s" and "st_next_rev s \<noteq> - 1"
    and "all_puts put_fits (tx_success req)" and "all_puts put_fits (tx_failure req)"
  shows "store_ok (snd (txn E env req s)) \<and> durable_from B p E (snd (txn E env req s))"
proof -
  have "libs_ok E \<and> lb_rev B \<le> st_next_rev s \<and> txn_inv (st_next_rev s) None s \<and> durable_from B p E s"
    using assms by (simp add: txn_inv_def durable_from_def)
  from dur.txn_state [OF this assms(5,6), of env] show ?thesis by (auto simp: txn_inv_def)
qed

lemma durable_put:
  assumes "libs_ok E" and "store_ok s" and "durable_from B p E s" and "st_next_rev s \<noteq> - 1" and "put_fits req"
  shows "store_ok (snd (put E req s)) \<and> durable_from B p E (snd (put E req s))"
proof -
  have a: "at_rev (st_next_rev s) (snd (alloc_revision s))" "keys_ok (snd (alloc_revision s))"
    "lb_rev B \<le> st_next_rev s"
    using alloc_revision_at [OF assms(2,4)] assms(3) by (simp_all add: store_ok_def durable_from_def)
  have "durable_from B p E (snd (put E req s))"
    using durable_put_at [OF assms(1) durable_alloc [OF assms(3,4)] a(2,1,3) assms(5)] assms(3)
    by (simp add: put_unfold split: res.splits)
  then show ?thesis using put_correct [OF assms(2,4) put_fits_small [OF assms(5)]] by simp
qed

lemma delete_range_ok:
  assumes "store_ok s" and "st_next_rev s \<noteq> - 1"
  shows "store_ok (snd (delete_range E req s))"
proof -
  from alloc_revision_at [OF assms] have t: "at_rev (st_next_rev s) (snd (alloc_revision s))"
    "store_ok (snd (alloc_revision s))" .
  with delete_range_at_correct [of "snd (alloc_revision s)" "st_next_rev s" E req] assms(1) show ?thesis
    by (auto simp: delete_range_unfold store_ok_def [of "snd (alloc_revision s)"] intro: store_ok_keys [OF t(2)])
qed

lemma durable_delete_range:
  assumes "libs_ok E" and "store_ok s" and "durable_from B p E s" and "st_next_rev s \<noteq> - 1"
  shows "durable_from B p E (snd (delete_range E req s))"
proof -
  have a: "at_rev (st_next_rev s) (snd (alloc_revision s))" "keys_ok (snd (alloc_revision s))"
    "lb_rev B \<le> st_next_rev s"
    using alloc_revision_at [OF assms(2,4)] assms(3) by (simp_all add: store_ok_def durable_from_def)
  show ?thesis
    using durable_delete_range_at [OF assms(1) durable_alloc [OF assms(3,4)] a(2,1,3)] assms(3)
    by (simp add: delete_range_unfold)
qed

lemma durable_expire_leases:
  assumes "libs_ok E" and "store_ok s" and "durable_from B p E s" and "unat (st_next_rev s) + length is < 2 ^ 64"
  shows "durable_from B p E (snd (expire_leases E is s))"
  using assms(2-)
proof (induction "is" arbitrary: s)
  case (Cons i "is")
  define t where "t = s\<lparr>st_leases := bt_remove i (st_leases s)\<rparr>"
  have t: "store_ok t" "durable_from B p E t" "st_next_rev t = st_next_rev s"
    using store_ok_remove_lease [OF Cons.prems(1)] durable_cong [OF Cons.prems(2), of t] by (simp_all add: t_def)
  have n: "st_next_rev t \<noteq> - 1" using Cons.prems(3) t(3) by (auto simp: unat_max)
  define r where "r = delete_keys_for_lease E (word_of_int i) t"
  note c = delete_keys_for_lease_correct [OF t(1) n, of E "word_of_int i", folded r_def]
  have d: "durable_from B p E (snd r)"
    unfolding r_def by (rule durable_delete_keys_for_lease [OF assms(1) t(2,1) n])
  have "unat (st_next_rev (snd r)) + length is < 2 ^ 64"
    using c Cons.prems(3) t(3) unat_word_plus_bool [of "st_next_rev s" "length (i # is)"] by simp
  from Cons.IH [OF _ d this] c have "durable_from B p E (snd (expire_leases E is (snd r)))" by simp
  moreover have "expire_leases E (i # is) s = expire_leases E is (snd r)"
    using c by (cases r; cases "fst r") (simp_all add: t_def [symmetric] r_def [symmetric])
  ultimately show ?case by simp
qed simp

section \<open>The store as a state machine\<close>

text \<open>
  Every request that writes, every lease request, every watcher request and every round of a background task is a
  step.  Revisions and times stay in range, and keys and values fit a log record.
\<close>

inductive store_step :: "libs \<Rightarrow> store_state \<Rightarrow> store_state \<Rightarrow> bool" for E where
  put_step: "put_fits req \<Longrightarrow> st_next_rev s \<noteq> - 1 \<Longrightarrow> store_step E s (snd (put E req s))"
| delete_range_step: "st_next_rev s \<noteq> - 1 \<Longrightarrow> store_step E s (snd (delete_range E req s))"
| txn_step: "all_puts put_fits (tx_success req) \<Longrightarrow> all_puts put_fits (tx_failure req)
    \<Longrightarrow> st_next_rev s \<noteq> - 1 \<Longrightarrow> store_step E s (snd (txn E env req s))"
| compact_step: "store_step E s (snd (compact r s))"
| lease_grant_step: "now < 2 ^ 62 * 1000000000 \<Longrightarrow> store_step E s (snd (lease_grant now lreq s))"
| lease_revoke_step: "st_next_rev s \<noteq> - 1 \<Longrightarrow> store_step E s (snd (lease_revoke E lease_id s))"
| lease_keep_alive_step: "now < 2 ^ 62 * 1000000000 \<Longrightarrow> store_step E s (snd (lease_keep_alive now lease_id s))"
| expiry_task_step: "unat (st_next_rev s) + length (st_leases s) < 2 ^ 64
    \<Longrightarrow> store_step E s (snd (expiry_step E now s))"
| fsync_task_step: "store_step E s (s\<lparr>st_wal := fst (fsync_step synced (st_wal s))\<rparr>)"
| register_step: "store_step E s (snd (register_watcher reg s))"
| cancel_step: "store_step E s (snd (cancel_watcher watch_id s))"

lemma durable_faults: "durable_from B p E s \<Longrightarrow> wf_faults (st_wal s) = []"
  by (simp add: durable_from_def)

lemma durable_idle:
  "durable_from B p E s \<Longrightarrow> wf_content (st_wal s') = wf_content (st_wal s) \<Longrightarrow> wf_faults (st_wal s') = wf_faults (st_wal s)
     \<Longrightarrow> st_next_rev s' = st_next_rev s \<Longrightarrow> view_of s' = view_of s \<Longrightarrow> durable_from B p E s'"
  by (simp add: durable_from_def)

lemma view_of_keys: "st_keys s' = st_keys s \<Longrightarrow> view_of s' = view_of s"
  by (simp add: view_of_def get_alive_def fun_eq_iff)

lemma lease_request_frame:
  "st_wal (snd (lease_grant now req s)) = st_wal s" "st_next_rev (snd (lease_grant now req s)) = st_next_rev s"
  "st_keys (snd (lease_grant now req s)) = st_keys s"
  "st_wal (snd (lease_keep_alive now lease_id s)) = st_wal s"
  "st_next_rev (snd (lease_keep_alive now lease_id s)) = st_next_rev s"
  "st_keys (snd (lease_keep_alive now lease_id s)) = st_keys s"
  by (auto simp: lease_grant_def lease_keep_alive_def alloc_lease_id_def Let_def
      split: res.splits option.splits if_splits prod.splits)

lemma durable_lease_revoke:
  assumes "libs_ok E" and "store_ok s" and "durable_from B p E s" and "st_next_rev s \<noteq> - 1"
  shows "durable_from B p E (snd (lease_revoke E lease_id s))"
proof (cases "has_lease s lease_id")
  case True
  define t where "t = s\<lparr>st_leases := bt_remove (sint lease_id) (st_leases s), st_expiry_notify := True\<rparr>"
  have t: "store_ok t" "st_next_rev t \<noteq> - 1" "durable_from B p E t"
    using store_ok_remove_lease [OF assms(2)] assms(4) durable_idle [OF assms(3), of t] by (simp_all add: t_def)
  have "snd (lease_revoke E lease_id s) = snd (delete_keys_for_lease E lease_id t)"
    using True by (simp add: lease_revoke_def t_def [symmetric] split: prod.splits res.splits)
  then show ?thesis using durable_delete_keys_for_lease [OF assms(1) t(3,1,2)] by simp
qed (use assms(3) in \<open>simp add: lease_revoke_def\<close>)

lemma durable_expiry_step:
  assumes "libs_ok E" and "store_ok s" and "durable_from B p E s"
    and "unat (st_next_rev s) + length (st_leases s) < 2 ^ 64"
  shows "durable_from B p E (snd (expiry_step E now s))"
proof -
  have "length (expired_ids now s) \<le> length (st_leases s)" by (simp add: expired_ids_def bt_iter_def)
  with assms(4) have "unat (st_next_rev s) + length (expired_ids now s) < 2 ^ 64" by linarith
  note d = durable_expire_leases [OF assms(1-3) this]
  have "durable_from B p E (t\<lparr>st_expiry_notify := True\<rparr>) \<longleftrightarrow> durable_from B p E t" for t
    by (simp add: durable_from_def)
  note n = this
  obtain x t where t: "expire_leases E (expired_ids now s) s = (x, t)" by fastforce
  with d have "durable_from B p E t" by simp
  then show ?thesis using n [of t] assms(3) t by (cases x) (simp_all add: expiry_step_def Let_def)
qed

text \<open>Every step keeps the state well-formed and durable.\<close>

lemma store_step_durable:
  assumes "store_step E s s'" and "libs_ok E" and "store_ok s" and "durable_from B p E s"
  shows "store_ok s' \<and> durable_from B p E s'"
  using assms(1)
proof cases
  case (put_step req)
  then show ?thesis using durable_put [OF assms(2-4)] by simp
next
  case (delete_range_step req)
  then show ?thesis using delete_range_ok [OF assms(3)] durable_delete_range [OF assms(2-4)] by simp
next
  case (txn_step req env)
  then show ?thesis using durable_txn [OF assms(2-4)] by simp
next
  case (compact_step r)
  then show ?thesis using compact_effect [OF assms(3), of r] durable_idle [OF assms(4), of s'] view_of_keys [of s' s]
    by (simp add: compact_def Let_def split: if_splits)
next
  case (lease_grant_step now req)
  then show ?thesis
    using lease_grant_effect [OF assms(3), of now req] durable_idle [OF assms(4), of s'] view_of_keys [of s' s]
    by (simp add: lease_request_frame)
next
  case (lease_revoke_step lease_id)
  then show ?thesis
    using lease_revoke_effect [OF assms(3), of E lease_id] durable_lease_revoke [OF assms(2-4)] durable_faults [OF assms(4)]
    by simp
next
  case (lease_keep_alive_step now lease_id)
  then show ?thesis
    using keep_alive_effect [OF assms(3), of now lease_id] durable_idle [OF assms(4), of s'] view_of_keys [of s' s]
    by (simp add: lease_request_frame)
next
  case (expiry_task_step now)
  then show ?thesis
    using expiry_step_effect [OF assms(3), of E now] durable_expiry_step [OF assms(2-4)] durable_faults [OF assms(4)]
    by simp
next
  case (fsync_task_step synced)
  then show ?thesis
    using assms(3) durable_idle [OF assms(4), of s'] view_of_keys [of s' s]
    by (simp add: fsync_step_def store_ok_def keys_ok_def leases_ok_def)
next
  case (register_step reg)
  then show ?thesis
    using assms(3) durable_idle [OF assms(4), of s'] view_of_keys [of s' s]
    by (simp add: register_watcher_def Let_def store_ok_def keys_ok_def leases_ok_def)
next
  case (cancel_step watch_id)
  then show ?thesis
    using assms(3) durable_idle [OF assms(4), of s'] view_of_keys [of s' s]
    by (simp add: cancel_watcher_def Let_def store_ok_def keys_ok_def leases_ok_def)
qed

text \<open>
  The machine: the store, and the state whose records a running compaction of the log has collected.
  Requests interleave with the compaction, which ends in success or failure; a restart replaces the
  store by what start-up reads from the log.  In this machine the log accepts every write and the
  compaction can open the file it has renamed; what happens otherwise is shown by the properties of
  the single operations and by \<open>detached_put_lost\<close> below.
\<close>

type_synonym machine = "store_state \<times> store_state option"

inductive machine_step :: "libs \<Rightarrow> machine \<Rightarrow> machine \<Rightarrow> bool" for E where
  request: "store_step E s s' \<Longrightarrow> machine_step E (s, c) (s', c)"
| snapshot: "machine_step E (s, None) (s, Some s)"
| compacted: "compact_wal E s_a sb sc rn (Inr ()) temp s = (res, s') \<Longrightarrow> machine_step E (s, Some s_a) (s', None)"
| restart: "now < 2 ^ 62 * 1000000000 \<Longrightarrow> open_store E path (Some (wf_content (st_wal s))) [] now = Inr (Ok s')
    \<Longrightarrow> machine_step E (s, c) (s', None)"

inductive reachable :: "libs \<Rightarrow> machine \<Rightarrow> bool" for E where
  fresh_store: "reachable E (StoreState_new (WalFile_open path None []), None)"
| step: "reachable E m \<Longrightarrow> machine_step E m m' \<Longrightarrow> reachable E m'"

definition base_at :: "store_state \<Rightarrow> log_base" where
  "base_at s = \<lparr>lb_bytes = wf_content (st_wal s), lb_view = view_of s, lb_rev = st_next_rev s\<rparr>"

fun machine_ok :: "libs \<Rightarrow> machine \<Rightarrow> bool" where
  "machine_ok E (s, c) \<longleftrightarrow> store_ok s \<and> durable core E s
     \<and> (case c of None \<Rightarrow> True | Some s_a \<Rightarrow> store_ok s_a \<and> durable core E s_a \<and> durable_from (base_at s_a) core E s)"

lemma durable_base_at: "durable p E s \<Longrightarrow> durable_from (base_at s) p E s"
  by (auto simp: durable_from_def base_at_def log_ok_def revs_ok_def intro!: exI [of _ "[]"])

lemma compacted_durable:
  assumes "libs_ok E" and "store_ok s" and "store_ok s_a" and "durable core E s" and "durable core E s_a"
    and "durable_from (base_at s_a) core E s" and "compact_wal E s_a sb sc rn (Inr ()) temp s = (res, s')"
  shows "store_ok s' \<and> durable core E s'"
proof (cases res)
  case (Inl e)
  then have "s' = s" using assms(7)
    by (auto simp: compact_wal_def compact_phase_c_def Let_def split: prod.splits sum.splits if_splits)
  then show ?thesis using assms(2,4) by simp
next
  case (Inr u)
  note c = assms(7) [unfolded Inr]
  from assms(6) obtain xs where xs: "wf_content (st_wal s) = wf_content (st_wal s_a) @ log_bytes xs"
    "log_ok E (st_next_rev s) xs" "\<forall>r \<in> set xs. st_next_rev s_a \<le> rec_rev r" "st_next_rev s_a \<le> st_next_rev s"
    "proj core (view_of s) = proj core (foldl (rec_spec E) (view_of s_a) xs)"
    by (auto simp: durable_from_def base_at_def)
  have f: "\<forall>k v. view_of s_a k = Some v \<longrightarrow> fits k (a_value v)" "\<forall>k v. view_of s k = Some v \<longrightarrow> fits k (a_value v)"
    "wf_faults (st_wal s) = []" using assms(4,5) by (simp_all add: durable_from_def)
  obtain rs where rs: "wf_content (st_wal s') = log_bytes rs" "log_ok E (st_next_rev s) rs"
    "proj core (replay_spec E rs) = proj core (view_of s')" "st_keys s' = st_keys s"
    using compact_wal_effect [OF assms(1,3) f(1) xs c] by blast
  have "st_next_rev s' = st_next_rev s \<and> wf_faults (st_wal s') = wf_faults (st_wal s) \<and> st_leases s' = st_leases s
      \<and> st_compact_rev s' = st_compact_rev s \<and> st_key_count s' = st_key_count s"
    by (subst (1 2 3 4 5) compact_wal_content(2) [OF c xs(1)]) simp
  with rs view_of_keys [OF rs(4)] f(2,3) assms(2) stable_core show ?thesis
    by (auto simp: durable_def store_ok_def keys_ok_def leases_ok_def)
qed

lemma replay_fits:
  assumes "libs_ok E" and "log_ok E N rs" and "replay_spec E rs k = Some v"
  shows "fits k (a_value v)"
  using assms(2,3)
proof (induction rs arbitrary: k v rule: rev_induct)
  case (snoc r rs)
  then have "rec_made E N r" "log_ok E N rs" by (auto simp: log_ok_def revs_ok_def sorted_wrt_append)
  then show ?case
    using snoc.IH snoc.prems(2)
    by (auto simp: rec_made_def rec_new_facts [OF assms(1)] spec_put_def spec_delete_def restrict_map_def
        split: if_splits option.splits)
qed simp

text \<open>A restart of a durable store succeeds and shows the same key space.\<close>

lemma restart_durable:
  assumes "libs_ok E" and "durable p E s" and "now < 2 ^ 62 * 1000000000"
  shows "\<exists>s'. open_store E path (Some (wf_content (st_wal s))) [] now = Inr (Ok s') \<and> store_ok s'
    \<and> durable p E s' \<and> proj p (view_of s') = proj p (view_of s)"
proof -
  from assms(2) obtain rs where rs: "wf_content (st_wal s) = log_bytes rs" "log_ok E (st_next_rev s) rs"
    "proj p (replay_spec E rs) = proj p (view_of s)" "stable p" by (auto simp: durable_def)
  have t: "\<forall>cur. scan_kv_loop E [] cur = ([], Inr cur)" by simp
  obtain s' where s': "open_store E path (Some (log_bytes rs)) [] now = Inr (Ok s')" "store_ok s'"
    "view_of s' = replay_spec E rs" "st_wal s' = WalFile_open path (Some (log_bytes rs)) []" "log_ok E (st_next_rev s') rs"
    using open_store_state [OF assms(1) rs(2) t assms(3), of path "[]"] by auto
  have "durable p E s'"
    using s' rs(4) replay_fits [OF assms(1) rs(2)] by (auto simp: durable_def WalFile_open_def)
  then show ?thesis using s' rs by auto
qed

lemma fresh_durable: "stable p \<Longrightarrow> durable p E (StoreState_new (WalFile_open path None []))"
  by (auto simp: durable_def WalFile_open_def StoreState_new_def view_of_def get_alive_def bt_get_def proj_def
      log_ok_def revs_ok_def fun_eq_iff intro!: exI [of _ "[]"])

lemma machine_step_ok:
  assumes "machine_step E m m'" and "libs_ok E" and "machine_ok E m"
  shows "machine_ok E m'"
  using assms(1)
proof cases
  case (request s s' c)
  then show ?thesis using store_step_durable [OF _ assms(2), of s s'] assms(3) by (auto split: option.splits)
next
  case (snapshot s)
  then show ?thesis using assms(3) durable_base_at [of core E s] by simp
next
  case (compacted s_a sb sc rn temp s res s')
  then show ?thesis using compacted_durable [OF assms(2), of s s_a] assms(3) by simp
next
  case (restart now path s s' c)
  then show ?thesis using restart_durable [OF assms(2), of core s now path] assms(3) by auto
qed

lemma reachable_ok: "reachable E m \<Longrightarrow> libs_ok E \<Longrightarrow> machine_ok E m"
  by (induction rule: reachable.induct) (auto simp: store_ok_new fresh_durable stable_core intro: machine_step_ok)

section \<open>Properties\<close>

text \<open>Nothing acknowledged is lost: in every state that requests, background tasks, compactions of the log interleaved
  with writes, failures of compactions and restarts can reach, the store is well-formed, and a restart from
  the bytes of the log succeeds and gives every key its value, modification revision and lease, and no other
  key.\<close>

theorem reachable_restart:
  assumes "libs_ok E" and "reachable E (s, c)" and "now < 2 ^ 62 * 1000000000"
  shows "store_ok s \<and> (\<exists>s'. open_store E path (Some (wf_content (st_wal s))) [] now = Inr (Ok s')
    \<and> store_ok s' \<and> proj core (view_of s') = proj core (view_of s))"
proof -
  have "store_ok s" "durable core E s" using reachable_ok [OF assms(2,1)] by simp_all
  with restart_durable [OF assms(1) _ assms(3), of core s path] show ?thesis by blast
qed

lemma demo_fits: "put_fits (demo_put [1] [2])" "put_fits (demo_put [1] [3])"
  by (simp_all add: put_fits_def demo_put_def fits_def)

lemma demo_reachable: "reachable ref_libs (demo_state, Some demo_state)"
proof -
  have w: "demo_wal = WalFile_open ''wal'' None []" by (simp add: demo_wal_def WalFile_open_def)
  have "reachable ref_libs (StoreState_new demo_wal, None)" unfolding w by (rule reachable.fresh_store)
  moreover have "store_step ref_libs (StoreState_new demo_wal) demo_state"
    unfolding demo_state_def by (rule store_step.put_step [OF demo_fits(1)]) (simp add: StoreState_new_def)
  ultimately show ?thesis by (blast intro: reachable.step machine_step.request machine_step.snapshot)
qed

lemma reachable_restart_witness:
  "store_ok demo_state \<and> (\<exists>s'. open_store ref_libs ''wal'' (Some (wf_content (st_wal demo_state))) [] 5 = Inr (Ok s')
     \<and> proj core (view_of s') [1] = Some ([2], 1, 0))"
proof -
  have "proj core (view_of demo_state) [1] = Some ([2], 1, 0)"
    by (simp add: proj_def demo_state_def demo_view spec_put_def core_def)
  with reachable_restart [OF libs_ok_ref demo_reachable, of 5 "''wal''"] show ?thesis by auto
qed

text \<open>C9. Without compactions of the log, a restart is exact: after any sequence of requests and background rounds from a
  fresh store, start-up from the log gives every key its value, creation and modification revisions, version
  and lease.\<close>

theorem exact_restart:
  assumes "libs_ok E" and "(store_step E)\<^sup>*\<^sup>* (StoreState_new (WalFile_open path None [])) s"
    and "now < 2 ^ 62 * 1000000000"
  shows "\<exists>s'. open_store E path (Some (wf_content (st_wal s))) [] now = Inr (Ok s') \<and> store_ok s' \<and> view_of s' = view_of s"
proof -
  have "store_ok s \<and> durable (\<lambda>v. v) E s"
    using assms(2) by (induction rule: rtranclp_induct)
      (auto simp: store_ok_new fresh_durable stable_id dest: store_step_durable [OF _ assms(1)])
  moreover have "proj (\<lambda>v. v) m = m" for m by (rule ext) (simp add: proj_def option.map_ident)
  ultimately show ?thesis using restart_durable [OF assms(1) _ assms(3), of "\<lambda>v. v" s path] by auto
qed

lemma exact_restart_witness:
  "\<exists>s'. open_store ref_libs ''wal'' (Some (wf_content (st_wal demo_state))) [] 5 = Inr (Ok s')
     \<and> view_of s' [1] = Some \<lparr>a_value = [2], a_create = 1, a_mod = 1, a_version = 1, a_lease = 0\<rparr>"
proof -
  have "store_step ref_libs (StoreState_new (WalFile_open ''wal'' None [])) demo_state"
    unfolding demo_state_def demo_wal_def using demo_fits(1)
    by (auto simp: WalFile_open_def StoreState_new_def intro!: store_step.put_step)
  then have "(store_step ref_libs)\<^sup>*\<^sup>* (StoreState_new (WalFile_open ''wal'' None [])) demo_state" by simp
  with exact_restart [OF libs_ok_ref, of "''wal''" demo_state 5] show ?thesis
    by (auto simp: demo_state_def demo_view spec_put_def)
qed

section \<open>The bound on keys is needed\<close>

lemma or_septets_zeros: "or_septets i (replicate m 0) v = v"
  by (induction m arbitrary: i) simp_all

lemma long_key_revision:
  assumes "65536 \<le> n" and "n < 131000"
  shows "rec_mod_revision (KvWalRecord_new E flags (replicate n 0) val cr mr ver lease) = Some 0"
proof -
  define vl where "vl = length (encode_varint cr)"
  have vl: "vl \<le> 10" using length_encode_varint(2) by (simp add: vl_def)
  define q where "q = 8 + n + vl - 65536"
  have pos: "mod_rev_pos (replicate n 0) cr = q + 65536" using assms(1) by (simp add: mod_rev_pos_def q_def vl_def)
  have ofs: "unat (word_of_nat (mod_rev_pos (replicate n 0) cr) :: u16) = q"
  proof -
    have "(q + 65536) mod 2 ^ LENGTH(16) = q" using assms(2) vl by (simp add: q_def)
    then show ?thesis unfolding pos unat_of_nat .
  qed
  have q: "6 \<le> q" "q + 10 \<le> 6 + n" using assms vl by (simp_all add: q_def)
  let ?kb = "kv_blob (replicate n 0) val cr mr ver lease"
  obtain tail where kb: "?kb = 0x0a # encode_overlong_u32 (word_of_nat n) @ replicate n 0 @ tail"
    by (simp add: kv_blob_eq)
  have "take 10 (drop q ?kb) = replicate 10 0"
    using q unfolding kb by (simp add: drop_Cons' take_drop min_def)
  moreover have "q + 10 \<le> length ?kb" using q unfolding kb by simp
  ultimately show ?thesis
    using or_septets_zeros [of 0 10 0]
    by (simp add: rec_mod_revision_def rec_fields_new read_mod_revision_from_kv_def ofs decode_overlong_u64_def)
qed

text \<open>C31. The limit on the length of keys is needed: a log record holds the position of its revision in 16 bits, so a
  put of a key of 64 KiB or more is acknowledged and visible, but its record is read back with revision 0
  and skipped, and the key is gone after a restart.\<close>

theorem long_key_lost:
  assumes "libs_ok E" and "65536 \<le> n" and "n < 131000" and "length (pr_value req) < 2 ^ 31"
    and "pr_key req = replicate n 0" and "pr_lease req = 0" and "\<not> pr_ignore_value req" and "\<not> pr_ignore_lease req"
    and "s = StoreState_new (WalFile_open path None [])"
  shows "is_ok (fst (put E req s)) \<and> view_of (snd (put E req s)) (pr_key req) \<noteq> None
    \<and> (\<exists>s'. open_store E path (Some (wf_content (st_wal (snd (put E req s))))) [] now = Inr (Ok s')
         \<and> view_of s' = (\<lambda>_. None))"
proof -
  have v: "validate_put req s = Ok ()" using assms by (simp add: validate_put_def check_key_def)
  have h: "\<not> put_reuses_missing req s" "\<not> put_lease_missing req s" "put_value req s = pr_value req" "put_lease req s = 0"
    using assms by (simp_all add: put_reuses_missing_def put_lease_missing_def put_lease_def put_value_def)
  have f: "wf_faults (st_wal s) = []" "wf_content (st_wal s) = []" "st_next_rev s = 1"
    using assms(9) by (simp_all add: StoreState_new_def WalFile_open_def)
  have ok: "is_ok (fst (put E req s))"
    using v h f by (simp add: put_unfold put_at_eq append_kv_no_fault Let_def)
  have "put_small req" using assms(3-5) by (simp add: put_small_def)
  with put_correct [of s req E] ok f(3) assms(9) store_ok_new
  have seen: "view_of (snd (put E req s)) (pr_key req) \<noteq> None" by (simp add: spec_put_def)
  define r where "r = put_record E req 1 s"
  obtain flags cr ver where r: "r = KvWalRecord_new E flags (replicate n 0) (pr_value req) cr 1 ver 0"
    using assms(5) h by (simp add: r_def put_record_def)
  have log: "wf_content (st_wal (snd (put E req s))) = log_bytes [r]"
    using ok v f put_at_log [of E req 1 "snd (alloc_revision s)"] by (simp add: put_unfold r_def)
  have l: "length (encode_varint x) \<le> 10" for x by (rule length_encode_varint)
  have "13 + length (kv_blob (replicate n 0) (pr_value req) cr 1 ver 0) < 2 ^ 32"
    using assms(3,4) l [of cr] l [of ver] l [of 0] by (simp add: length_kv_blob)
  then have wf: "rec_wf E r" using assms(1) rec_wf_new [of E] by (simp add: r libs_ok_def)
  define w where "w = WalFile_open path (Some (log_bytes [r])) []"
  have scan: "scan_kv_collect E w = Inr [r]"
    using scan_log_append [of "[r]" E "[]" 0] wf
    by (simp add: scan_kv_collect_def scan_kv_def scan_kv_file_def w_def WalFile_open_def)
  have rep: "replay_records E [r] (StoreState_new w) 0 = (Ok 0, StoreState_new w)"
    using long_key_revision [OF assms(2,3)] by (simp add: r)
  have "open_store E path (Some (log_bytes [r])) [] now = Inr (Ok ((StoreState_new w)\<lparr>st_next_rev := 1\<rparr>))"
    unfolding open_store_def Let_def w_def [symmetric] scan rep sum.case res.case prod.case
    by (simp add: restore_leases_def live_lease_ids_def StoreState_new_def bt_iter_def)
  moreover have "view_of ((StoreState_new w)\<lparr>st_next_rev := 1\<rparr>) = (\<lambda>_. None)"
    by (rule ext) (simp add: view_of_def get_alive_def StoreState_new_def bt_get_def)
  ultimately show ?thesis using ok seen log by simp
qed

lemma long_key_lost_witness:
  "view_of (snd (put ref_libs (demo_put (replicate 65536 0) [7]) (StoreState_new (WalFile_open ''wal'' None []))))
       (replicate 65536 0) \<noteq> None
   \<and> (\<exists>s'. open_store ref_libs ''wal'' (Some (wf_content (st_wal (snd (put ref_libs (demo_put (replicate 65536 0) [7])
           (StoreState_new (WalFile_open ''wal'' None []))))))) [] 5 = Inr (Ok s') \<and> view_of s' = (\<lambda>_. None))"
  using long_key_lost [OF libs_ok_ref, of 65536 "demo_put (replicate 65536 0) [7]" _ "''wal''" 5]
  by (simp add: demo_put_def)

section \<open>A compacted log that cannot be opened\<close>

lemma put_detached: "wf_detached (st_wal (snd (put E req s))) = wf_detached (st_wal s)"
proof -
  have a: "wf_detached w' = wf_detached w" if "append_kv r w = (x, w')" for r w x w'
    using that by (auto simp: append_kv_def write_all_def Let_def split: list.splits option.splits)
  show ?thesis
    by (auto simp: put_unfold put_at_eq alloc_revision_def Let_def dest!: a split: prod.splits sum.splits res.splits)
qed

text \<open>When the compaction has renamed the new log and cannot open it, the call fails but the store goes on: a put is
  accepted and visible, it is written to the unlinked file, and a restart from the path finds the keys as they were
  before the put.\<close>

theorem detached_put_lost:
  assumes "libs_ok E" and "store_ok s" and "durable core E s" and "wf_faults temp = []"
    and "compact_wal E s (Inr ()) (Inr ()) (Inr ()) (Inl e) temp s = (res, s')"
    and "is_ok (fst (put E req s'))" and "put_small req" and "st_next_rev s \<noteq> - 1" and "now < 2 ^ 62 * 1000000000"
  shows "res = Inl e
    \<and> view_of (snd (put E req s')) = spec_put (pr_key req) (put_value req s) (put_lease req s) (st_next_rev s) (view_of s)
    \<and> (\<exists>c s''. wf_detached (st_wal (snd (put E req s'))) = Some c \<and> open_store E path (Some c) [] now = Inr (Ok s'')
         \<and> proj core (view_of s'') = proj core (view_of s))"
proof -
  let ?c = "log_bytes (snapshot_records E s)"
  have s': "res = Inl e" "s' = s\<lparr>st_wal := (st_wal s)\<lparr>wf_detached := Some ?c\<rparr>\<rparr>"
    using assms(5) compact_wal_detaches [of s s "[]" temp E e] assms(4) by simp_all
  have g: "get_alive s' = get_alive s" unfolding s'(2) by (rule ext) (simp add: get_alive_def)
  have v: "view_of s' = view_of s" "put_value req s' = put_value req s" "put_lease req s' = put_lease req s"
    by (simp_all add: view_of_def put_value_def put_lease_def g fun_eq_iff)
  have f: "st_next_rev s' = st_next_rev s" "st_keys s' = st_keys s" "st_leases s' = st_leases s"
    "st_compact_rev s' = st_compact_rev s" "st_key_count s' = st_key_count s" unfolding s'(2) by simp_all
  have ok: "store_ok s'" using assms(2) by (simp add: store_ok_def keys_ok_def leases_ok_def f)
  have put: "view_of (snd (put E req s')) = spec_put (pr_key req) (put_value req s) (put_lease req s) (st_next_rev s) (view_of s)"
    using put_correct [OF ok, of req E] v f(1) assms(6-8) by simp
  obtain t where t: "compact_wal E s (Inr ()) (Inr ()) (Inr ()) (Inr ()) temp s = (Inr (), t)"
    using assms(4)
    by (simp add: compact_wal_def compact_phase_a_def compact_phase_b_def compact_phase_c_def write_snapshot_no_fault)
  have w: "wf_content (st_wal t) = ?c" and k: "st_keys t = st_keys s"
    using compact_wal_content(1) [OF t, of "[]"] arg_cong [OF compact_wal_content(2) [OF t, of "[]"], of st_keys] by simp_all
  have "durable core E t" using compacted_durable [OF assms(1,2,2,3,3) durable_base_at [OF assms(3)] t] by simp
  from restart_durable [OF assms(1) this assms(9), of path] obtain s'' where
    "open_store E path (Some ?c) [] now = Inr (Ok s'')" "proj core (view_of s'') = proj core (view_of t)" by (auto simp: w)
  with s' put put_detached [of E req s'] view_of_keys [OF k] show ?thesis by simp
qed

end
