(* ===== verification/Text.thy ===== *)
theory Text
  imports Prelude
begin

text \<open>
  Text as the sources print and parse it: ASCII literals as bytes, unsigned decimal numbers with and without
  zero padding (the \<^verbatim>\<open>{}\<close> and \<^verbatim>\<open>{:0w}\<close> of the formatting macros), \<^verbatim>\<open>parse::<u64>\<close>, and the decoding of bytes
  as UTF-8 with replacement characters (\<^verbatim>\<open>String::from_utf8_lossy\<close>).
\<close>

section \<open>Printing\<close>

definition ascii :: "string \<Rightarrow> bytes" where
  "ascii s = map (\<lambda>c. word_of_nat (of_char c)) s"

text \<open>Decimal digits, as the formatting macro prints an unsigned integer.\<close>

fun show_nat :: "nat \<Rightarrow> string" where
  "show_nat n =
     (if n < 10 then [char_of (48 + n)] else show_nat (n div 10) @ [char_of (48 + n mod 10)])"

declare show_nat.simps [simp del]

definition zero_pad :: "nat \<Rightarrow> nat \<Rightarrow> string" where
  "zero_pad w n = replicate (w - length (show_nat n)) (char_of (48 :: nat)) @ show_nat n"

section \<open>Parsing\<close>

definition is_digit :: "char \<Rightarrow> bool" where
  "is_digit c \<longleftrightarrow> 48 \<le> (of_char c :: nat) \<and> (of_char c :: nat) < 58"

definition read_digits :: "string \<Rightarrow> nat" where
  "read_digits s = foldl (\<lambda>a c. 10 * a + (of_char c - 48)) 0 s"

text \<open>An optional plus sign, then at least one digit and nothing else; a value that does not fit is an error.\<close>

definition parse_u64 :: "string \<Rightarrow> u64 option" where
  "parse_u64 s =
     (let ds = (case s of c # cs \<Rightarrow> if c = CHR ''+'' then cs else s | [] \<Rightarrow> [])
      in if ds = [] \<or> \<not> list_all is_digit ds \<or> read_digits ds \<ge> 2 ^ 64 then None
         else Some (word_of_nat (read_digits ds)))"

section \<open>Lossy decoding\<close>

text \<open>The result of \<open>from_utf8_lossy\<close>, as the bytes of the string.  \<open>utf8_chunk\<close> looks at the start of the input: how
  many bytes belong together, and whether they encode a character; otherwise they are the longest start of one, or a
  single byte, and are replaced by U+FFFD.\<close>

definition utf8_width :: "u8 \<Rightarrow> nat" where
  "utf8_width b =
     (if b < 0x80 then 1 else if 0xC2 \<le> b \<and> b \<le> 0xDF then 2 else if 0xE0 \<le> b \<and> b \<le> 0xEF then 3
      else if 0xF0 \<le> b \<and> b \<le> 0xF4 then 4 else 0)"

definition utf8_continues :: "u8 \<Rightarrow> bool" where
  "utf8_continues c \<longleftrightarrow> 0x80 \<le> c \<and> c \<le> 0xBF"

definition utf8_second :: "u8 \<Rightarrow> u8 \<Rightarrow> bool" where
  "utf8_second b c \<longleftrightarrow>
     (if b = 0xE0 then 0xA0 \<le> c \<and> c \<le> 0xBF else if b = 0xED then 0x80 \<le> c \<and> c \<le> 0x9F
      else if b = 0xF0 then 0x90 \<le> c \<and> c \<le> 0xBF else if b = 0xF4 then 0x80 \<le> c \<and> c \<le> 0x8F
      else utf8_continues c)"

fun utf8_chunk :: "bytes \<Rightarrow> nat \<times> bool" where
  "utf8_chunk [] = (0, True)"
| "utf8_chunk (b # s) =
     (let w = utf8_width b
      in if w = 0 then (1, False)
         else if w = 1 then (1, True)
         else if \<not> (1 \<le> length s \<and> utf8_second b (s ! 0)) then (1, False)
         else if w = 2 then (2, True)
         else if \<not> (2 \<le> length s \<and> utf8_continues (s ! 1)) then (2, False)
         else if w = 3 then (3, True)
         else if \<not> (3 \<le> length s \<and> utf8_continues (s ! 2)) then (3, False)
         else (4, True))"

lemma utf8_chunk_pos: "s \<noteq> [] \<Longrightarrow> 0 < fst (utf8_chunk s)"
  by (cases s) (simp_all add: Let_def)

function utf8_lossy :: "bytes \<Rightarrow> bytes" where
  "utf8_lossy s =
     (if s = [] then []
      else let (n, valid) = utf8_chunk s
           in (if valid then take n s else [0xEF, 0xBF, 0xBD]) @ utf8_lossy (drop n s))"
  by pat_completeness auto
termination
proof (relation "measure length")
  fix s x n v
  assume s: "s \<noteq> []" "x = utf8_chunk s" "(n, v) = x"
  then have "0 < n" using utf8_chunk_pos [of s] by (metis fst_conv)
  then show "(drop n s, s) \<in> measure length" using s(1) by simp
qed simp

declare utf8_lossy.simps [simp del]

section \<open>Lemmas\<close>

lemma utf8_lossy_Nil [simp]: "utf8_lossy [] = []"
  by (simp add: utf8_lossy.simps)

lemma utf8_lossy_ascii [simp]: "b < 0x80 \<Longrightarrow> utf8_lossy (b # s) = b # utf8_lossy s"
  by (subst utf8_lossy.simps) (simp add: utf8_width_def)

text \<open>A test for an ASCII prefix does not see the decoding.\<close>

lemma utf8_lossy_high:
  assumes "\<not> b < 0x80"
  shows "\<exists>c t. utf8_lossy (b # s) = c # t \<and> \<not> c < 0x80"
proof -
  obtain n v where n: "utf8_chunk (b # s) = (n, v)" by fastforce
  moreover have "0 < n" using utf8_chunk_pos [of "b # s"] n by simp
  then have "take n (b # s) = b # take (n - 1) s" by (cases n) simp_all
  ultimately show ?thesis using assms by (subst utf8_lossy.simps) simp
qed

lemma prefix_utf8_lossy:
  assumes "list_all (\<lambda>c. c < 0x80) p"
  shows "prefix p (utf8_lossy s) \<longleftrightarrow> prefix p s"
  using assms
proof (induction p arbitrary: s)
  case (Cons c p)
  show ?case
  proof (cases s)
    case (Cons b s')
    show ?thesis
    proof (cases "b < 0x80")
      case True
      then show ?thesis using Cons.IH [of s'] Cons.prems \<open>s = b # s'\<close> by simp
    next
      case False
      with utf8_lossy_high [OF False, of s'] show ?thesis using Cons.prems \<open>s = b # s'\<close> by auto
    qed
  qed simp
qed simp

lemma utf8_lossy_id: "list_all (\<lambda>c. c < 0x80) s \<Longrightarrow> utf8_lossy s = s"
  by (induction s) simp_all

lemma is_digit_char: "(n :: nat) < 10 \<Longrightarrow> is_digit (char_of (48 + n))"
  by (simp add: is_digit_def)

lemma show_nat_digits: "list_all is_digit (show_nat n)"
  by (induction n rule: show_nat.induct) (subst show_nat.simps, simp add: is_digit_char)

lemma show_nat_nonempty [simp]: "show_nat n \<noteq> []"
  by (subst show_nat.simps) simp

lemma read_digits_snoc: "read_digits (s @ [c]) = 10 * read_digits s + (of_char c - 48)"
  by (simp add: read_digits_def)

lemma read_show_nat [simp]: "read_digits (show_nat n) = n"
proof (induction n rule: show_nat.induct)
  case (1 n)
  then show ?case
    by (subst show_nat.simps) (simp add: read_digits_snoc read_digits_def [of "[_]"])
qed

lemma read_digits_zeros: "read_digits (replicate k (char_of (48 :: nat)) @ s) = read_digits s"
proof -
  have "foldl (\<lambda>a c. 10 * a + (of_char c - 48)) 0 (replicate k (char_of (48 :: nat))) = (0 :: nat)"
    by (induction k) simp_all
  then show ?thesis by (simp add: read_digits_def)
qed

lemma read_zero_pad [simp]: "read_digits (zero_pad w n) = n"
  by (simp add: zero_pad_def read_digits_zeros)

lemma zero_pad_inject: "zero_pad w m = zero_pad w n \<longleftrightarrow> m = n"
  by (metis read_zero_pad)

lemma zero_pad_digits: "list_all is_digit (zero_pad w n)"
  using show_nat_digits [of n] by (auto simp: zero_pad_def list_all_iff is_digit_def)

lemma length_show_nat: "n < 10 ^ w \<Longrightarrow> 0 < w \<Longrightarrow> length (show_nat n) \<le> w"
proof (induction w arbitrary: n)
  case (Suc w)
  show ?case
  proof (cases "n < 10")
    case False
    then have "w \<noteq> 0" using Suc.prems by (cases w) auto
    moreover have "n div 10 < 10 ^ w" using Suc.prems by (simp add: less_mult_imp_div_less mult.commute)
    ultimately show ?thesis using Suc.IH [of "n div 10"] False by (subst show_nat.simps) simp
  qed (subst show_nat.simps, simp)
qed simp

lemma length_zero_pad: "n < 10 ^ w \<Longrightarrow> 0 < w \<Longrightarrow> length (zero_pad w n) = w"
  using length_show_nat [of n w] by (simp add: zero_pad_def)

lemma parse_show_nat: "n < 2 ^ 64 \<Longrightarrow> parse_u64 (show_nat n) = Some (word_of_nat n)"
proof -
  assume n: "n < 2 ^ 64"
  obtain c cs where c: "show_nat n = c # cs" by (cases "show_nat n") simp_all
  have "is_digit c" using show_nat_digits [of n] c by simp
  then have "c \<noteq> CHR ''+''" by (auto simp: is_digit_def)
  then have "parse_u64 (show_nat n) = (if 2 ^ 64 \<le> read_digits (show_nat n) then None
      else Some (word_of_nat (read_digits (show_nat n))))"
    using show_nat_digits [of n] unfolding parse_u64_def c by (simp del: One_nat_def)
  then show ?thesis using n by simp
qed

lemma ascii_append [simp]: "ascii (s @ t) = ascii s @ ascii t"
  by (simp add: ascii_def)

lemma length_ascii [simp]: "length (ascii s) = length s"
  by (simp add: ascii_def)

lemma ascii_inject: "ascii s = ascii t \<longleftrightarrow> s = t"
proof -
  have u: "unat (word_of_nat (of_char c) :: u8) = of_char c" for c by (simp add: unat_of_nat take_bit_eq_mod)
  have "inj (\<lambda>c. word_of_nat (of_char c) :: u8)" by (rule injI) (metis u of_char_eq_iff)
  then show ?thesis by (simp add: ascii_def inj_map_eq_map)
qed

end
