(* ===== verification/Watch_Batch.thy ===== *)
theory Watch_Batch
  imports Recovery Text
begin

text \<open>
  Creation of watchers (\<^verbatim>\<open>src/server/watch.rs\<close>): create requests of all streams are collected into
  batches; a batch is checked, replayed from the log up to a checkpoint without the lock and from the
  checkpoint on under the lock, and only then registered.  Channels are numbers, as in
  \<^verbatim>\<open>Store_State\<close>: the events sent into them are collected in order, and so are the replies of the
  one-shot channels.  A send to a dropped receiver is only logged by the code, so it is not
  distinguished.
\<close>

section \<open>Messages\<close>

record proto_event =
  pe_type :: i32
  pe_kv :: bytes
  pe_prev_kv :: bytes

record watch_response =
  ws_header :: "response_header option"
  ws_watch_id :: i64
  ws_created :: bool
  ws_canceled :: bool
  ws_compact_revision :: i64
  ws_cancel_reason :: string
  ws_events :: "proto_event list"
  ws_fragment :: bool

definition make_header :: "i64 \<Rightarrow> response_header" where
  "make_header revision = \<lparr>cluster_id = 1, member_id = 1, hdr_revision = revision, raft_term = 1\<rparr>"

definition resolve_start_revision :: "store_state \<Rightarrow> u64 \<Rightarrow> u64" where
  "resolve_start_revision s requested =
     (if requested = 0 then current_revision s + 1 else requested)"

definition make_progress_response :: "i64 \<Rightarrow> watch_response" where
  "make_progress_response revision =
     \<lparr>ws_header = Some (make_header revision), ws_watch_id = - 1, ws_created = False,
      ws_canceled = False, ws_compact_revision = 0, ws_cancel_reason = [], ws_events = [],
      ws_fragment = False\<rparr>"

fun event_type_i32 :: "event_type \<Rightarrow> i32" where
  "event_type_i32 EvPut = 0"
| "event_type_i32 EvDelete = 1"

definition event_to_proto :: "watch_event \<Rightarrow> proto_event" where
  "event_to_proto ev =
     \<lparr>pe_type = event_type_i32 (ev_type ev), pe_kv = ev_kv_bytes ev, pe_prev_kv = ev_prev_kv_bytes ev\<rparr>"

fun should_send_event :: "i32 list \<Rightarrow> i32 \<Rightarrow> bool" where
  "should_send_event [] event_type = True"
| "should_send_event (f # fs) event_type =
     (if f = 0 \<and> event_type = 0 then False
      else if f = 1 \<and> event_type = 1 then False
      else should_send_event fs event_type)"

section \<open>Requests in flight\<close>

record pending_create =
  pc_key :: bytes
  pc_range_end :: bytes
  pc_start_revision :: u64
  pc_progress_notify :: bool
  pc_filters :: "i32 list"
  pc_prev_kv :: bool

record global_create =
  gc_pending :: pending_create
  gc_event_tx :: nat
  gc_reply :: nat
  gc_stream_id :: u64
  gc_remote_addr :: string
  gc_watch_id :: i64

record watch_context =
  wc_key :: bytes
  wc_range_end :: bytes
  wc_start_revision :: u64
  wc_watch_id :: i64
  wc_progress_notify :: bool
  wc_filters :: "i32 list"
  wc_prev_kv :: bool
  wc_bound :: range_bound
  wc_event_tx :: nat
  wc_stream_id :: u64
  wc_remote_addr :: string
  wc_reply :: nat

text \<open>What the batching loop sees at each turn of its biased select.\<close>

datatype batch_input = Arrived global_create | QueueClosed | TimerFired

text \<open>The inner loop: the rest of a batch, and the inputs that are left for the next one.\<close>

fun collect_batch :: "batch_input list \<Rightarrow> global_create list \<times> batch_input list" where
  "collect_batch [] = ([], [])"
| "collect_batch (Arrived c # inputs) =
     (let (batch, rest) = collect_batch inputs in (c # batch, rest))"
| "collect_batch (QueueClosed # inputs) = ([], QueueClosed # inputs)"
| "collect_batch (TimerFired # inputs) = ([], inputs)"

text \<open>The revision and the length of the log file at one moment; \<open>stat\<close> tells whether the file's
  metadata could be read.\<close>

definition current_checkpoint :: "bool \<Rightarrow> store_state \<Rightarrow> u64 \<times> nat" where
  "current_checkpoint stat s =
     (current_revision s, if stat then length (wf_content (st_wal s)) else 0)"

section \<open>Checking a batch\<close>

definition context_of :: "global_create \<Rightarrow> watch_context" where
  "context_of c =
     (let p = gc_pending c
      in \<lparr>wc_key = pc_key p, wc_range_end = pc_range_end p, wc_start_revision = pc_start_revision p,
          wc_watch_id = gc_watch_id c, wc_progress_notify = pc_progress_notify p,
          wc_filters = pc_filters p, wc_prev_kv = pc_prev_kv p,
          wc_bound = resolve_range (pc_key p) (pc_range_end p), wc_event_tx = gc_event_tx c,
          wc_stream_id = gc_stream_id c, wc_remote_addr = gc_remote_addr c, wc_reply = gc_reply c\<rparr>)"

definition canceled_response :: "u64 \<Rightarrow> i64 \<Rightarrow> string \<Rightarrow> watch_response" where
  "canceled_response revision compact_revision cancel_reason =
     \<lparr>ws_header = Some (make_header revision), ws_watch_id = - 1, ws_created = False,
      ws_canceled = True, ws_compact_revision = compact_revision, ws_cancel_reason = cancel_reason,
      ws_events = [], ws_fragment = False\<rparr>"

definition too_large_reason :: "u64 \<Rightarrow> u64 \<Rightarrow> string" where
  "too_large_reason start_revision cur_rev =
     ''too large resource version: '' @ show_nat (unat start_revision) @ '', current: ''
       @ show_nat (unat cur_rev)"

text \<open>Why a request is refused at once: its start is compacted, or too far in the future.\<close>

definition refusal :: "u64 \<Rightarrow> u64 \<Rightarrow> u64 \<Rightarrow> watch_response option" where
  "refusal compact_rev cur_rev start_revision =
     (if start_revision > 0 \<and> start_revision < compact_rev
      then Some (canceled_response cur_rev compact_rev ''compacted'')
      else
        let gap = (if start_revision < cur_rev then 0 else start_revision - cur_rev)
        in if start_revision > cur_rev \<and> gap > 10000
           then Some (canceled_response cur_rev 0 (too_large_reason start_revision cur_rev))
           else None)"

text \<open>The first loop: each request reads the store once, \<open>cur i\<close> being the state it sees.\<close>

fun split_batch ::
    "(nat \<Rightarrow> store_state) \<Rightarrow> nat \<Rightarrow> u64 \<Rightarrow> global_create list
       \<Rightarrow> (nat \<times> watch_response) list \<times> watch_context list" where
  "split_batch cur i compact_rev [] = ([], [])"
| "split_batch cur i compact_rev (c # cs) =
     (let (replies, active) = split_batch cur (i + 1) compact_rev cs
      in case refusal compact_rev (current_revision (cur i)) (pc_start_revision (gc_pending c)) of
           Some resp \<Rightarrow> ((gc_reply c, resp) # replies, active)
         | None \<Rightarrow> (replies, context_of c # active))"

text \<open>The positions whose watch id is taken by a registered watcher or an earlier position.\<close>

definition rejected :: "store_state \<Rightarrow> watch_context list \<Rightarrow> nat list" where
  "rejected s active =
     filter (\<lambda>i. list_ex (\<lambda>w. wr_watch_id w = wc_watch_id (active ! i)) (st_watchers s)
               \<or> list_ex (\<lambda>other. wc_watch_id other = wc_watch_id (active ! i)) (take i active))
       [0..<length active]"

text \<open>\<open>Vec::swap_remove\<close>; \<open>None\<close> is its index panic.\<close>

definition swap_remove :: "nat \<Rightarrow> 'a list \<Rightarrow> ('a \<times> 'a list) option" where
  "swap_remove i xs =
     (if i < length xs then Some (xs ! i, butlast (xs[i := last xs])) else None)"

fun reject_loop ::
    "(nat \<Rightarrow> store_state) \<Rightarrow> nat \<Rightarrow> nat list \<Rightarrow> watch_context list
       \<Rightarrow> ((nat \<times> watch_response) list \<times> watch_context list) option" where
  "reject_loop cur n [] active = Some ([], active)"
| "reject_loop cur n (i # is) active =
     (case swap_remove i active of
        None \<Rightarrow> None
      | Some (ctx, active) \<Rightarrow>
          (case reject_loop cur (n + 1) is active of
             None \<Rightarrow> None
           | Some (replies, active) \<Rightarrow>
               Some ((wc_reply ctx, canceled_response (current_revision (cur n)) 0 ''duplicate watch_id'')
                       # replies, active)))"

definition reject_duplicates ::
    "(nat \<Rightarrow> store_state) \<Rightarrow> nat \<Rightarrow> store_state \<Rightarrow> watch_context list
       \<Rightarrow> ((nat \<times> watch_response) list \<times> watch_context list) option" where
  "reject_duplicates cur n s active = reject_loop cur n (rev (rejected s active)) active"

section \<open>Replay\<close>

text \<open>The event of a record and the map of current encodings, which both phases build in the same way.\<close>

definition record_event ::
    "kv_wal_record \<Rightarrow> bytes \<Rightarrow> u64 \<Rightarrow> (bytes \<rightharpoonup> bytes) \<Rightarrow> watch_event \<times> (bytes \<rightharpoonup> bytes)" where
  "record_event r key revision prev_kv_map =
     (let deleted = (rec_flags r AND DELETED \<noteq> 0);
          event_type = (if deleted then EvDelete else EvPut);
          prev_kv = (case prev_kv_map key of Some b \<Rightarrow> b | None \<Rightarrow> []);
          prev_kv_map = (if deleted then prev_kv_map(key := None)
                         else prev_kv_map(key \<mapsto> rec_kv_bytes r))
      in (\<lparr>ev_revision = revision, ev_type = event_type, ev_key = key, ev_kv_bytes = rec_kv_bytes r,
           ev_prev_kv_bytes = prev_kv\<rparr>, prev_kv_map))"

definition phase1_visit ::
    "u64 \<Rightarrow> watch_context list \<Rightarrow> kv_wal_record
       \<Rightarrow> (bytes \<rightharpoonup> bytes) \<times> (nat \<times> watch_event) list \<Rightarrow> (bytes \<rightharpoonup> bytes) \<times> (nat \<times> watch_event) list" where
  "phase1_visit checkpoint_rev active r acc =
     (case acc of (prev_kv_map, sent) \<Rightarrow>
        let revision = (case rec_mod_revision r of Some v \<Rightarrow> v | None \<Rightarrow> 0)
        in if revision > checkpoint_rev then (prev_kv_map, sent)
           else case rec_key r of
             None \<Rightarrow> (prev_kv_map, sent)
           | Some key \<Rightarrow>
               let (ev, prev_kv_map) = record_event r key revision prev_kv_map
               in (prev_kv_map,
                   sent @ map (\<lambda>ctx. (wc_event_tx ctx, ev))
                            (filter (\<lambda>ctx. revision \<ge> wc_start_revision ctx
                                       \<and> matches_range (wc_bound ctx) key
                                       \<and> should_send_event (wc_filters ctx) (event_type_i32 (ev_type ev)))
                               active)))"

definition phase2_visit ::
    "u64 \<Rightarrow> watch_context list \<Rightarrow> kv_wal_record
       \<Rightarrow> (bytes \<rightharpoonup> bytes) \<times> (nat \<times> watch_event) list \<Rightarrow> (bytes \<rightharpoonup> bytes) \<times> (nat \<times> watch_event) list" where
  "phase2_visit checkpoint_rev active r acc =
     (case acc of (prev_kv_map, sent) \<Rightarrow>
        let revision = (case rec_mod_revision r of Some v \<Rightarrow> v | None \<Rightarrow> 0)
        in if revision \<le> checkpoint_rev then (prev_kv_map, sent)
           else case rec_key r of
             None \<Rightarrow> (prev_kv_map, sent)
           | Some key \<Rightarrow>
               let (ev, prev_kv_map) = record_event r key revision prev_kv_map
               in (prev_kv_map,
                   sent @ map (\<lambda>ctx. (wc_event_tx ctx, ev))
                            (filter (\<lambda>ctx. matches_range (wc_bound ctx) key
                                       \<and> should_send_event (wc_filters ctx) (event_type_i32 (ev_type ev)))
                               active)))"

text \<open>Phase 1 reads a file of its own: \<open>opened\<close> is the outcome of opening it, with the bytes the scan
  finds there.  A scan that stops with an error has still visited the records before it.\<close>

definition flush_phase1 ::
    "libs \<Rightarrow> u64 \<Rightarrow> watch_context list \<Rightarrow> io_error + bytes
       \<Rightarrow> (bytes \<rightharpoonup> bytes) \<times> (nat \<times> watch_event) list" where
  "flush_phase1 E checkpoint_rev active opened =
     (case opened of
        Inl e \<Rightarrow> (Map.empty, [])
      | Inr content \<Rightarrow>
          fold (phase1_visit checkpoint_rev active) (fst (scan_kv_file E content 0)) (Map.empty, []))"

definition flush_phase2 ::
    "libs \<Rightarrow> u64 \<Rightarrow> nat \<Rightarrow> watch_context list \<Rightarrow> (bytes \<rightharpoonup> bytes) \<Rightarrow> store_state
       \<Rightarrow> (bytes \<rightharpoonup> bytes) \<times> (nat \<times> watch_event) list" where
  "flush_phase2 E checkpoint_rev checkpoint_offset active prev_kv_map s =
     fold (phase2_visit checkpoint_rev active) (fst (scan_kv E (st_wal s) checkpoint_offset))
       (prev_kv_map, [])"

definition registration_of :: "watch_context \<Rightarrow> watch_registration" where
  "registration_of ctx =
     \<lparr>wr_key = wc_key ctx, wr_range_end = wc_range_end ctx, wr_start_revision = wc_start_revision ctx,
      wr_sender = wc_event_tx ctx, wr_watch_id = wc_watch_id ctx,
      wr_progress_notify = wc_progress_notify ctx, wr_filters = wc_filters ctx,
      wr_prev_kv = wc_prev_kv ctx, wr_bound = wc_bound ctx\<rparr>"

definition register_all :: "watch_context list \<Rightarrow> store_state \<Rightarrow> store_state" where
  "register_all active s = fold (\<lambda>ctx s. snd (register_watcher (registration_of ctx) s)) active s"

fun created_replies ::
    "(nat \<Rightarrow> store_state) \<Rightarrow> nat \<Rightarrow> watch_context list \<Rightarrow> (nat \<times> watch_response) list" where
  "created_replies cur n [] = []"
| "created_replies cur n (ctx # active) =
     (wc_reply ctx,
      \<lparr>ws_header = Some (make_header (current_revision (cur n))), ws_watch_id = wc_watch_id ctx,
       ws_created = True, ws_canceled = False, ws_compact_revision = 0, ws_cancel_reason = [],
       ws_events = [], ws_fragment = False\<rparr>) # created_replies cur (n + 1) active"

text \<open>
  The states a flush sees: where it reads the compaction revision, at each read of the current
  revision, at the duplicate check, the log file of phase 1, and the state under the write lock.
\<close>

record flush_env =
  fe_compact :: store_state
  fe_cur :: "nat \<Rightarrow> store_state"
  fe_dup :: store_state
  fe_opened :: "io_error + bytes"
  fe_lock :: store_state

text \<open>
  The replies of a flush, and the state when it is done.  The events of phase 1 stand behind the
  outbox of the state under the lock: their channels are not registered before, so in each channel
  the order is that of sending.
\<close>

definition flush_global_batch_at ::
    "libs \<Rightarrow> flush_env \<Rightarrow> global_create list \<Rightarrow> u64 \<Rightarrow> nat
       \<Rightarrow> ((nat \<times> watch_response) list \<times> store_state) option" where
  "flush_global_batch_at E env batch checkpoint_rev checkpoint_offset =
     (if batch = [] then Some ([], fe_lock env)
      else
        let compact_rev = st_compact_rev (fe_compact env);
            (replies, active) = split_batch (fe_cur env) 0 compact_rev batch
        in if active = [] then Some (replies, fe_lock env)
           else case reject_duplicates (fe_cur env) (length batch) (fe_dup env) active of
             None \<Rightarrow> None
           | Some (replies', active') \<Rightarrow>
               if active' = [] then Some (replies @ replies', fe_lock env)
               else
                 let (prev_kv_map, sent1) = flush_phase1 E checkpoint_rev active' (fe_opened env);
                     s = fe_lock env;
                     (prev_kv_map, sent2) =
                       flush_phase2 E checkpoint_rev checkpoint_offset active' prev_kv_map s;
                     s = register_all active' (s\<lparr>st_outbox := st_outbox s @ sent1 @ sent2\<rparr>)
                 in Some (replies @ replies'
                            @ created_replies (fe_cur env) (length batch + length replies') active', s))"

definition flush_global_batch ::
    "libs \<Rightarrow> bool \<Rightarrow> store_state \<Rightarrow> flush_env \<Rightarrow> global_create list
       \<Rightarrow> ((nat \<times> watch_response) list \<times> store_state) option" where
  "flush_global_batch E stat s env batch =
     (case current_checkpoint stat s of (checkpoint_rev, checkpoint_offset) \<Rightarrow>
        flush_global_batch_at E env batch checkpoint_rev checkpoint_offset)"

section \<open>What the log says happened\<close>

text \<open>The event of a record behind a log, and the events of a whole log.\<close>

definition event_of :: "kv_wal_record list \<Rightarrow> kv_wal_record \<Rightarrow> watch_event" where
  "event_of rs r =
     \<lparr>ev_revision = rec_rev r, ev_type = (if rec_flags r AND DELETED \<noteq> 0 then EvDelete else EvPut),
      ev_key = the (rec_key r), ev_kv_bytes = rec_kv_bytes r,
      ev_prev_kv_bytes = (case log_value (- 1) rs (the (rec_key r)) of Some b \<Rightarrow> b | None \<Rightarrow> [])\<rparr>"

fun events_after :: "kv_wal_record list \<Rightarrow> kv_wal_record list \<Rightarrow> watch_event list" where
  "events_after rs [] = []"
| "events_after rs (x # xs) = event_of rs x # events_after (rs @ [x]) xs"

abbreviation log_events :: "kv_wal_record list \<Rightarrow> watch_event list" where
  "log_events \<equiv> events_after []"

lemma events_after_append: "events_after rs (xs @ ys) = events_after rs xs @ events_after (rs @ xs) ys"
  by (induction xs arbitrary: rs) simp_all

lemma events_after_rev: "ev \<in> set (events_after rs xs) \<Longrightarrow> \<exists>x \<in> set xs. ev_revision ev = rec_rev x"
  by (induction xs arbitrary: rs) (auto simp: event_of_def)

lemma record_event_log:
  assumes "rec_key r = Some key"
  shows "record_event r key (rec_rev r) (log_value (- 1) rs) = (event_of rs r, log_value (- 1) (rs @ [r]))"
  using assms by (auto simp: record_event_def event_of_def Let_def log_value_snoc fun_eq_iff)

text \<open>Events handed to the contexts that want them, and the contents of one channel.\<close>

definition deliver ::
    "(watch_context \<Rightarrow> watch_event \<Rightarrow> bool) \<Rightarrow> watch_context list \<Rightarrow> watch_event list
       \<Rightarrow> (nat \<times> watch_event) list" where
  "deliver P active evs =
     concat (map (\<lambda>ev. map (\<lambda>ctx. (wc_event_tx ctx, ev)) (filter (\<lambda>ctx. P ctx ev) active)) evs)"

definition channel :: "nat \<Rightarrow> (nat \<times> watch_event) list \<Rightarrow> watch_event list" where
  "channel c out = map snd (filter (\<lambda>p. fst p = c) out)"

lemma channel_append [simp]: "channel c (xs @ ys) = channel c xs @ channel c ys"
  by (simp add: channel_def)

lemma channel_empty [simp]: "channel c [] = []"
  by (simp add: channel_def)

lemma channel_one:
  assumes "distinct (map wc_event_tx active)" and "ctx \<in> set active"
  shows "channel (wc_event_tx ctx) (map (\<lambda>c. (wc_event_tx c, ev)) (filter Q active)) =
    (if Q ctx then [ev] else [])"
proof -
  from assms(2) obtain us vs where a: "active = us @ ctx # vs" by (meson split_list)
  have "channel (wc_event_tx ctx) (map (\<lambda>c. (wc_event_tx c, ev)) (filter Q ws)) = []"
    if "wc_event_tx ctx \<notin> wc_event_tx ` set ws" for ws
    using that by (auto simp: channel_def filter_empty_conv) (metis imageI)
  with assms(1) show ?thesis unfolding a by (auto simp: channel_def)
qed

lemma channel_deliver:
  assumes "distinct (map wc_event_tx active)" and "ctx \<in> set active"
  shows "channel (wc_event_tx ctx) (deliver P active evs) = filter (P ctx) evs"
  by (induction evs) (simp_all add: deliver_def channel_one [OF assms])

definition wants :: "watch_context \<Rightarrow> watch_event \<Rightarrow> bool" where
  "wants ctx ev \<longleftrightarrow> matches_range (wc_bound ctx) (ev_key ev)
     \<and> should_send_event (wc_filters ctx) (event_type_i32 (ev_type ev))"

lemma phase1_step:
  assumes "rec_key r \<noteq> None" and "rec_rev r \<le> cp"
  shows "phase1_visit cp active r (log_value (- 1) rs, sent) =
    (log_value (- 1) (rs @ [r]),
     sent @ deliver (\<lambda>ctx ev. wc_start_revision ctx \<le> ev_revision ev \<and> wants ctx ev) active [event_of rs r])"
proof -
  from assms(1) obtain key where k: "rec_key r = Some key" by auto
  have e: "ev_key (event_of rs r) = key" "ev_revision (event_of rs r) = rec_rev r"
    using k by (simp_all add: event_of_def)
  show ?thesis
    using assms(2) [THEN leD] record_event_log [OF k, of rs]
    by (simp add: phase1_visit_def Let_def rec_rev_def [symmetric] k e deliver_def wants_def)
qed

lemma phase2_step:
  assumes "rec_key r \<noteq> None" and "cp < rec_rev r"
  shows "phase2_visit cp active r (log_value (- 1) rs, sent) =
    (log_value (- 1) (rs @ [r]), sent @ deliver wants active [event_of rs r])"
proof -
  from assms(1) obtain key where k: "rec_key r = Some key" by auto
  have e: "ev_key (event_of rs r) = key" "ev_revision (event_of rs r) = rec_rev r"
    using k by (simp_all add: event_of_def)
  show ?thesis
    using assms(2) [THEN less_le_not_le [THEN iffD1]] record_event_log [OF k, of rs]
    by (simp add: phase2_visit_def Let_def rec_rev_def [symmetric] k e deliver_def wants_def)
qed

lemma deliver_Cons: "deliver P active (ev # evs) = deliver P active [ev] @ deliver P active evs"
  by (simp add: deliver_def)

lemma deliver_Nil [simp]: "deliver P active [] = []"
  by (simp add: deliver_def)

lemma phase1_fold:
  assumes "\<forall>r \<in> set xs. rec_key r \<noteq> None \<and> rec_rev r \<le> cp"
  shows "fold (phase1_visit cp active) xs (log_value (- 1) rs, sent) =
    (log_value (- 1) (rs @ xs),
     sent @ deliver (\<lambda>ctx ev. wc_start_revision ctx \<le> ev_revision ev \<and> wants ctx ev) active
              (events_after rs xs))"
  using assms
  by (induction xs arbitrary: rs sent) (simp_all add: phase1_step deliver_Cons [of _ _ _ "_ # _"]
      deliver_Cons [of _ _ "event_of _ _" "events_after _ _"])

lemma phase1_skip:
  assumes "\<forall>r \<in> set xs. cp < rec_rev r"
  shows "fold (phase1_visit cp active) xs acc = acc"
  using assms by (induction xs arbitrary: acc)
    (auto simp: phase1_visit_def rec_rev_def [symmetric] Let_def split: prod.splits)

lemma phase2_fold:
  assumes "\<forall>r \<in> set xs. rec_key r \<noteq> None \<and> cp < rec_rev r"
  shows "fold (phase2_visit cp active) xs (log_value (- 1) rs, sent) =
    (log_value (- 1) (rs @ xs), sent @ deliver wants active (events_after rs xs))"
  using assms
  by (induction xs arbitrary: rs sent) (simp_all add: phase2_step
      deliver_Cons [of _ _ "event_of _ _" "events_after _ _"])

section \<open>The duplicate check\<close>

lemma mset_swap_remove:
  assumes "i < length xs" and "A \<subseteq> {..<i}"
  shows "mset (nths (butlast (xs[i := last xs])) (- A)) = mset (nths xs (- insert i A))"
proof -
  define us ys where "us = take i xs" and "ys = drop (Suc i) xs"
  have x: "xs = us @ xs ! i # ys" "length us = i"
    using assms(1) by (simp_all add: us_def ys_def id_take_nth_drop [symmetric])
  have u: "{j. j + i \<in> - A} = UNIV" "{j. j + i \<in> - insert i A} = - {0}" using assms(2) by auto
  have us: "nths us (- insert i A) = nths us (- A)"
    using x(2) by (auto simp: nths_def intro!: arg_cong [of _ _ "map fst"] filter_cong dest: set_zip_rightD)
  have "mset (nths (us @ x # ys) (- insert i A)) = mset (nths us (- A)) + mset ys" for x
  proof -
    have "nths (x # ys) (- {0}) = ys" by (simp add: nths_Cons nths_all)
    then show ?thesis unfolding nths_append x(2) u us by simp
  qed
  moreover have "mset (nths (butlast ((us @ x # ys)[i := last (us @ x # ys)])) (- A)) =
      mset (nths us (- A)) + mset ys" for x
  proof (cases ys rule: rev_cases)
    case Nil
    then show ?thesis using x(2) by (simp add: list_update_append butlast_append)
  next
    case (snoc zs z)
    then have b: "butlast ((us @ x # ys)[i := last (us @ x # ys)]) = us @ z # zs"
      using x(2) by (simp add: list_update_append butlast_append)
    show ?thesis unfolding b nths_append x(2) u using snoc by (simp add: nths_all)
  qed
  ultimately show ?thesis using x(1) by metis
qed

text \<open>Removing positions from the back by swapping keeps exactly the other elements.\<close>

lemma reject_loop_correct:
  assumes "sorted_wrt (>) is" and "\<forall>i \<in> set is. i < length active"
  shows "\<exists>replies active'. reject_loop cur n is active = Some (replies, active')
    \<and> mset active' = mset (nths active (- set is))
    \<and> map fst replies = map (\<lambda>i. wc_reply (active ! i)) is
    \<and> (\<forall>x \<in> set replies. ws_canceled (snd x))"
  using assms
proof (induction "is" arbitrary: n active)
  case (Cons i "is")
  let ?a = "butlast (active[i := last active])"
  have i: "i < length active" and lt: "\<forall>j \<in> set is. j < i" using Cons.prems by auto
  have nth: "?a ! j = active ! j" if "j < i" for j
    using that i by (simp add: nth_butlast)
  obtain replies active' where r: "reject_loop cur (n + 1) is ?a = Some (replies, active')"
    "mset active' = mset (nths ?a (- set is))" "map fst replies = map (\<lambda>i. wc_reply (?a ! i)) is"
    "\<forall>x \<in> set replies. ws_canceled (snd x)"
    using Cons.IH [of ?a "n + 1"] Cons.prems i lt by fastforce
  have "map (\<lambda>i. wc_reply (?a ! i)) is = map (\<lambda>i. wc_reply (active ! i)) is" using lt nth by simp
  moreover have "mset active' = mset (nths active (- set (i # is)))"
    using r(2) mset_swap_remove [OF i, of "set is"] lt by auto
  ultimately show ?case using r i by (simp add: swap_remove_def canceled_response_def)
qed (simp add: nths_all)

lemma nths_mset_subset: "mset (nths xs A) \<subseteq># mset xs"
proof (induction xs arbitrary: A)
  case (Cons x xs)
  have "mset (nths xs B) \<subseteq># add_mset x (mset xs)" for B
    using Cons.IH [of B] by (metis add_mset_add_single mset_subset_eq_add_left subset_mset.order_trans)
  then show ?case using Cons by (simp add: nths_Cons)
qed simp

lemma distinct_sub_mset:
  assumes "mset xs \<subseteq># mset ys" and "distinct ys"
  shows "distinct xs"
proof -
  have "count (mset xs) a \<le> 1" for a
    using mset_subset_eq_count [OF assms(1), of a] assms(2) [unfolded distinct_count_atmost_1, rule_format, of a]
    by (cases "a \<in> set ys") (simp_all del: count_mset_0_iff)
  then show ?thesis unfolding distinct_count_atmost_1
    by (metis count_eq_zero_iff le_neq_implies_less less_one set_mset_mset)
qed

lemma nths_map_filter: "nths xs A = map ((!) xs) (filter (\<lambda>i. i \<in> A) [0..<length xs])"
proof (induction xs rule: rev_induct)
  case (snoc x xs)
  have "map ((!) (xs @ [x])) (filter (\<lambda>i. i \<in> A) [0..<length xs]) =
      map ((!) xs) (filter (\<lambda>i. i \<in> A) [0..<length xs])" by (simp add: nth_append)
  with snoc show ?case by (simp add: nths_append nths_singleton)
qed simp

lemma reject_duplicates_correct:
  "\<exists>replies active'. reject_duplicates cur n s active = Some (replies, active')
    \<and> mset active' \<subseteq># mset active
    \<and> distinct (map wc_watch_id active')
    \<and> wc_watch_id ` set active' \<inter> wr_watch_id ` set (st_watchers s) = {}
    \<and> (\<forall>x \<in> set replies. ws_canceled (snd x))
    \<and> mset (map fst replies) + mset (map wc_reply active') = mset (map wc_reply active)"
proof -
  let ?r = "rejected s active"
  let ?k = "filter (\<lambda>i. i \<in> - set ?r) [0..<length active]"
  have so: "sorted_wrt (<) ?r" by (simp add: rejected_def sorted_wrt_filter)
  have "sorted_wrt (>) (rev ?r)" using so by (simp add: sorted_wrt_rev)
  moreover have "\<forall>i \<in> set (rev ?r). i < length active" by (auto simp: rejected_def)
  ultimately obtain replies active' where r: "reject_duplicates cur n s active = Some (replies, active')"
    "mset active' = mset (nths active (- set ?r))" "map fst replies = map (\<lambda>i. wc_reply (active ! i)) (rev ?r)"
    "\<forall>x \<in> set replies. ws_canceled (snd x)"
    using reject_loop_correct [of "rev ?r" active cur n] by (auto simp: reject_duplicates_def)
  have m: "mset active' = mset (map ((!) active) ?k)" using r(2) by (simp only: nths_map_filter)
  have kept: "wc_watch_id (active ! i) \<notin> wr_watch_id ` set (st_watchers s)"
      "\<And>j. j < i \<Longrightarrow> wc_watch_id (active ! j) \<noteq> wc_watch_id (active ! i)"
    if "i \<in> set ?k" for i
  proof -
    from that have i: "i < length active"
        "\<forall>w \<in> set (st_watchers s). wr_watch_id w \<noteq> wc_watch_id (active ! i)"
        "\<forall>c \<in> set (take i active). wc_watch_id c \<noteq> wc_watch_id (active ! i)"
      by (auto simp: rejected_def list_ex_iff)
    then show "wc_watch_id (active ! i) \<notin> wr_watch_id ` set (st_watchers s)" by (metis imageE)
    show "wc_watch_id (active ! j) \<noteq> wc_watch_id (active ! i)" if "j < i" for j
      using that i(1,3) nth_mem [of j "take i active"] by auto
  qed
  have "distinct (map wc_watch_id (map ((!) active) ?k))"
    unfolding map_map distinct_map
  proof (intro conjI inj_onI)
    fix i j assume "i \<in> set ?k" "j \<in> set ?k" "(wc_watch_id \<circ> (!) active) i = (wc_watch_id \<circ> (!) active) j"
    then show "i = j" using kept(2) [of i j] kept(2) [of j i] by (cases i j rule: linorder_cases) auto
  qed simp
  moreover have "mset (map wc_watch_id active') = mset (map wc_watch_id (map ((!) active) ?k))"
    using m by (simp only: mset_map)
  ultimately have d: "distinct (map wc_watch_id active')" by (metis mset_eq_imp_distinct_iff)
  have st: "set active' = (!) active ` set ?k" using m by (metis list.set_map set_mset_mset)
  have "mset (map fst replies) + mset (map wc_reply active') =
      image_mset (\<lambda>i. wc_reply (active ! i)) (mset (filter (\<lambda>i. i \<in> set ?r) [0..<length active]) + mset ?k)"
    (is "_ = image_mset _ ?m")
  proof -
    have "mset ?r = mset (filter (\<lambda>i. i \<in> set ?r) [0..<length active])"
      by (simp add: rejected_def mset_filter cong: filter_mset_cong)
    with r(3) m show ?thesis by (simp add: image_mset.compositionality comp_def)
  qed
  also have "?m = mset [0..<length active]"
    using multiset_partition [of "mset [0..<length active]" "\<lambda>i. i \<in> set ?r"]
    by (simp only: mset_filter Compl_iff)
  also have "image_mset (\<lambda>i. wc_reply (active ! i)) (mset [0..<length active]) =
      mset (map (\<lambda>i. wc_reply (active ! i)) [0..<length active])"
    by (rule mset_map [symmetric])
  also have "map (\<lambda>i. wc_reply (active ! i)) [0..<length active] = map wc_reply active"
    by (rule nth_equalityI) simp_all
  finally have c: "mset (map fst replies) + mset (map wc_reply active') = mset (map wc_reply active)" .
  have "wc_watch_id ` set active' \<inter> wr_watch_id ` set (st_watchers s) = {}"
    unfolding st using kept(1) by auto
  moreover have "mset active' \<subseteq># mset active" unfolding r(2) by (rule nths_mset_subset)
  ultimately have "mset active' \<subseteq># mset active"
      "wc_watch_id ` set active' \<inter> wr_watch_id ` set (st_watchers s) = {}" by blast+
  with r(1,4) d c show ?thesis by (intro exI conjI)
qed

section \<open>A whole flush\<close>

lemma refusal_canceled: "refusal cr cur start = Some x \<Longrightarrow> ws_canceled x"
  by (auto simp: refusal_def canceled_response_def Let_def split: if_splits)

lemma split_batch_correct:
  assumes "split_batch cur i compact_rev batch = (replies, active)"
  shows "(\<exists>cs. subseq cs batch \<and> active = map context_of cs)
    \<and> (\<forall>x \<in> set replies. ws_canceled (snd x))
    \<and> mset (map fst replies) + mset (map wc_reply active) = mset (map gc_reply batch)"
  using assms
proof (induction batch arbitrary: i replies active)
  case (Cons c cs)
  obtain replies' active' where r: "split_batch cur (i + 1) compact_rev cs = (replies', active')" by fastforce
  note IH = Cons.IH [OF r]
  from Cons.prems r consider
      x where "replies = (gc_reply c, x) # replies'" "active = active'" "ws_canceled x"
    | "replies = replies'" "active = context_of c # active'"
    by (auto dest: refusal_canceled split: option.splits)
  then show ?case
  proof cases
    case 1
    then show ?thesis using IH by auto
  next
    case 2
    from IH obtain ds where "subseq ds cs" "active' = map context_of ds" by blast
    with 2 have "subseq (c # ds) (c # cs) \<and> active = map context_of (c # ds)" by simp
    then show ?thesis using IH 2 by (auto simp: context_of_def Let_def)
  qed
qed simp

definition flush_active :: "libs \<Rightarrow> flush_env \<Rightarrow> u64 \<Rightarrow> nat \<Rightarrow> watch_context list \<Rightarrow> store_state" where
  "flush_active E env cp off active =
     (let (m, sent1) = flush_phase1 E cp active (fe_opened env);
          (m', sent2) = flush_phase2 E cp off active m (fe_lock env)
      in register_all active ((fe_lock env)\<lparr>st_outbox := st_outbox (fe_lock env) @ sent1 @ sent2\<rparr>))"

lemma visit_none:
  "snd (fold (phase1_visit cp []) rs acc) = snd acc" "snd (fold (phase2_visit cp []) rs acc) = snd acc"
proof -
  have "snd (phase1_visit cp [] r acc) = snd acc" "snd (phase2_visit cp [] r acc) = snd acc" for r acc
    by (simp_all add: phase1_visit_def phase2_visit_def Let_def split: prod.splits option.splits)
  then show "snd (fold (phase1_visit cp []) rs acc) = snd acc" "snd (fold (phase2_visit cp []) rs acc) = snd acc"
    by (induction rs arbitrary: acc) simp_all
qed

lemma flush_active_Nil: "flush_active E env cp off [] = fe_lock env"
proof -
  have "snd (flush_phase1 E cp [] x) = []" "snd (flush_phase2 E cp off [] m s) = []" for x m s
    by (simp_all add: flush_phase1_def flush_phase2_def visit_none split: sum.split)
  then show ?thesis by (simp add: flush_active_def split_def Let_def register_all_def)
qed

lemma register_all_eq: "register_all active s = s\<lparr>st_watchers := st_watchers s @ map registration_of active\<rparr>"
  unfolding register_all_def
  by (induction active arbitrary: s) (simp_all add: register_watcher_def Let_def)

lemma created_replies_correct:
  "map fst (created_replies cur n active) = map wc_reply active"
  "x \<in> set (created_replies cur n active) \<Longrightarrow> \<exists>ctx \<in> set active. fst x = wc_reply ctx
     \<and> ws_watch_id (snd x) = wc_watch_id ctx \<and> ws_created (snd x) \<and> \<not> ws_canceled (snd x)"
  by (induction active arbitrary: n) auto

text \<open>A flush never panics; it settles on a list of contexts that it replays, registers and answers,
  and cancels every other request of the batch.\<close>

lemma flush_cases:
  obtains replies n active where
    "flush_global_batch_at E env batch cp off =
       Some (replies @ created_replies (fe_cur env) n active, flush_active E env cp off active)"
    "\<forall>x \<in> set replies. ws_canceled (snd x)"
    "mset (map fst replies) + mset (map wc_reply active) = mset (map gc_reply batch)"
    "mset active \<subseteq># mset (map context_of batch)"
    "distinct (map wc_watch_id active)"
    "wc_watch_id ` set active \<inter> wr_watch_id ` set (st_watchers (fe_dup env)) = {}"
proof (cases "batch = []")
  case True
  then show ?thesis
    using that [of "[]" 0 "[]"] by (simp add: flush_global_batch_at_def flush_active_Nil)
next
  case False
  obtain r1 a1 where s: "split_batch (fe_cur env) 0 (st_compact_rev (fe_compact env)) batch = (r1, a1)"
    by fastforce
  note sp = split_batch_correct [OF s]
  then obtain cs where cs: "subseq cs batch" "a1 = map context_of cs" by blast
  have a1: "mset a1 \<subseteq># mset (map context_of batch)"
    using subseq_conv_nths cs nths_mset_subset by (metis image_mset_subseteq_mono mset_map)
  show ?thesis
  proof (cases "a1 = []")
    case True
    then show ?thesis using that [of r1 0 "[]"] sp s False
      by (simp add: flush_global_batch_at_def flush_active_Nil)
  next
    case a1_ne: False
    obtain r2 a2 where r: "reject_duplicates (fe_cur env) (length batch) (fe_dup env) a1 = Some (r2, a2)"
      "mset a2 \<subseteq># mset a1" "distinct (map wc_watch_id a2)"
      "wc_watch_id ` set a2 \<inter> wr_watch_id ` set (st_watchers (fe_dup env)) = {}"
      "\<forall>x \<in> set r2. ws_canceled (snd x)"
      "mset (map fst r2) + mset (map wc_reply a2) = mset (map wc_reply a1)"
      using reject_duplicates_correct [of "fe_cur env" "length batch" "fe_dup env" a1] by blast
    have "flush_global_batch_at E env batch cp off =
        Some ((r1 @ r2) @ created_replies (fe_cur env) (length batch + length r2) a2,
              flush_active E env cp off a2)"
    proof (cases "a2 = []")
      case True
      then show ?thesis using False a1_ne s r(1)
        by (simp add: flush_global_batch_at_def flush_active_Nil)
    next
      case ne: False
      show ?thesis using False a1_ne ne s r(1)
        by (simp add: flush_global_batch_at_def flush_active_def Let_def split: prod.splits)
    qed
    moreover have "mset (map fst (r1 @ r2)) + mset (map wc_reply a2) = mset (map gc_reply batch)"
      using sp r(6) by (simp add: add.assoc)
    ultimately show ?thesis
      using sp r a1 by (intro that [of "r1 @ r2"]) (auto intro: subset_mset.order_trans)
  qed
qed

text \<open>C21. Creating watchers: a flush never panics, answers every request of the batch exactly once,
  and registers watchers whose ids differ from each other and from every registered one; a request is
  answered as created exactly when its watcher is registered.\<close>

theorem flush_registers_unique:
  assumes "distinct (map wr_watch_id (st_watchers (fe_lock env)))"
    and "wr_watch_id ` set (st_watchers (fe_lock env)) \<subseteq> wr_watch_id ` set (st_watchers (fe_dup env))"
  shows "\<exists>replies s' active. flush_global_batch_at E env batch cp off = Some (replies, s')
    \<and> mset (map fst replies) = mset (map gc_reply batch)
    \<and> st_watchers s' = st_watchers (fe_lock env) @ map registration_of active
    \<and> distinct (map wr_watch_id (st_watchers s'))
    \<and> {fst x | x. x \<in> set replies \<and> ws_created (snd x) \<and> \<not> ws_canceled (snd x)} = wc_reply ` set active
    \<and> set active \<subseteq> context_of ` set batch"
proof -
  obtain replies n active where f:
    "flush_global_batch_at E env batch cp off =
       Some (replies @ created_replies (fe_cur env) n active, flush_active E env cp off active)"
    "\<forall>x \<in> set replies. ws_canceled (snd x)"
    "mset (map fst replies) + mset (map wc_reply active) = mset (map gc_reply batch)"
    "mset active \<subseteq># mset (map context_of batch)"
    "distinct (map wc_watch_id active)"
    "wc_watch_id ` set active \<inter> wr_watch_id ` set (st_watchers (fe_dup env)) = {}"
    by (rule flush_cases)
  have w: "st_watchers (flush_active E env cp off active) =
      st_watchers (fe_lock env) @ map registration_of active"
    by (simp add: flush_active_def register_all_eq split: prod.split)
  have m: "map wr_watch_id (map registration_of active) = map wc_watch_id active"
    by (simp add: registration_of_def)
  from assms f(5,6) have d: "distinct (map wr_watch_id (st_watchers (flush_active E env cp off active)))"
    unfolding w map_append m distinct_append by auto
  have "{fst x | x. x \<in> set (replies @ created_replies (fe_cur env) n active) \<and> ws_created (snd x)
      \<and> \<not> ws_canceled (snd x)} = fst ` set (created_replies (fe_cur env) n active)"
    (is "?L = fst ` ?C")
  proof (intro set_eqI iffI)
    fix y assume "y \<in> ?L"
    then obtain x where "y = fst x" "x \<in> set replies \<union> ?C" "\<not> ws_canceled (snd x)"
      unfolding set_append by blast
    then show "y \<in> fst ` ?C" using f(2) by blast
  next
    fix y assume "y \<in> fst ` ?C"
    then obtain x where "y = fst x" "x \<in> ?C" by blast
    with created_replies_correct(2) [OF this(2)] show "y \<in> ?L" unfolding set_append by blast
  qed
  also have "\<dots> = wc_reply ` set active"
    by (metis created_replies_correct(1) list.set_map)
  finally have cr: "{fst x | x. x \<in> set (replies @ created_replies (fe_cur env) n active)
      \<and> ws_created (snd x) \<and> \<not> ws_canceled (snd x)} = wc_reply ` set active" .
  have "mset (map fst (replies @ created_replies (fe_cur env) n active)) = mset (map gc_reply batch)"
    by (simp only: map_append mset_append created_replies_correct(1) f(3))
  moreover have "set active \<subseteq> context_of ` set batch" using set_mset_mono [OF f(4)] by simp
  ultimately show ?thesis using f(1) w d cr by (intro exI conjI)
qed

text \<open>A batch of one request for the key \<open>[1]\<close>, and a store whose log holds given bytes.\<close>

definition demo_create :: "u64 \<Rightarrow> global_create" where
  "demo_create start =
     \<lparr>gc_pending = \<lparr>pc_key = [1], pc_range_end = [], pc_start_revision = start, pc_progress_notify = False,
                    pc_filters = [], pc_prev_kv = True\<rparr>,
      gc_event_tx = 7, gc_reply = 3, gc_stream_id = 1, gc_remote_addr = [], gc_watch_id = 9\<rparr>"

definition demo_env :: "store_state \<Rightarrow> flush_env" where
  "demo_env s = \<lparr>fe_compact = s, fe_cur = (\<lambda>_. StoreState_new demo_wal), fe_dup = s, fe_opened = Inr [], fe_lock = s\<rparr>"

lemma demo_flush:
  assumes "st_watchers s = []" and "st_compact_rev s = 0" and "start < 10000"
  shows "\<exists>resp s'. flush_global_batch_at E (demo_env s) [demo_create start] cp off = Some ([(3, resp)], s')
    \<and> ws_created resp \<and> \<not> ws_canceled resp"
proof -
  have "refusal 0 0 start = None" using assms(3) by (auto simp: refusal_def Let_def not_less)
  then have s: "split_batch (fe_cur (demo_env s)) 0 (st_compact_rev (fe_compact (demo_env s))) [demo_create start]
      = ([], [context_of (demo_create start)])"
    using assms(2) by (simp add: demo_env_def demo_create_def StoreState_new_def current_revision_def)
  have r: "reject_duplicates cur n (fe_dup (demo_env s)) [ctx] = Some ([], [ctx])" for cur n ctx
    using assms(1) by (simp add: reject_duplicates_def rejected_def demo_env_def)
  show ?thesis
    unfolding flush_global_batch_at_def s Let_def prod.case r option.case
    by (simp add: split_def) (simp add: context_of_def demo_create_def Let_def)
qed

lemma flush_registers_unique_witness:
  "\<exists>replies s'. flush_global_batch_at ref_libs (demo_env (StoreState_new demo_wal)) [demo_create 1] 0 0
       = Some (replies, s')
     \<and> mset (map fst replies) = {#3#} \<and> distinct (map wr_watch_id (st_watchers s'))"
  using flush_registers_unique [of "demo_env (StoreState_new demo_wal)" ref_libs "[demo_create 1]" 0 0]
  by (fastforce simp: demo_env_def StoreState_new_def demo_create_def)

section \<open>Replay is complete\<close>


text \<open>
  The log around a flush: \<open>rs\<close> are the records at the checkpoint, \<open>xs\<close> those written until the lock
  is taken; phase 1 may see some of the latter and a torn record behind them.
\<close>

definition flush_log ::
    "libs \<Rightarrow> flush_env \<Rightarrow> u64 \<Rightarrow> nat \<Rightarrow> kv_wal_record list \<Rightarrow> kv_wal_record list \<Rightarrow> bool" where
  "flush_log E env cp off rs xs \<longleftrightarrow>
     (\<forall>r \<in> set (rs @ xs). rec_wf E r \<and> rec_key r \<noteq> None)
     \<and> off = length (log_bytes rs) \<and> (\<forall>r \<in> set rs. rec_rev r \<le> cp) \<and> (\<forall>r \<in> set xs. cp < rec_rev r)
     \<and> wf_content (st_wal (fe_lock env)) = log_bytes (rs @ xs)
     \<and> (\<exists>n r k. rec_wf E r \<and> k < length (serialize r)
            \<and> fe_opened env = Inr (log_bytes (rs @ take n xs) @ take k (serialize r)))"

lemma flush_active_outbox:
  assumes "flush_log E env cp off rs xs"
  shows "st_outbox (flush_active E env cp off active) = st_outbox (fe_lock env)
    @ deliver (\<lambda>ctx ev. wc_start_revision ctx \<le> ev_revision ev \<and> wants ctx ev) active (log_events rs)
    @ deliver wants active (events_after rs xs)"
proof -
  obtain n r k where o: "rec_wf E r" "k < length (serialize r)"
    "fe_opened env = Inr (log_bytes (rs @ take n xs) @ take k (serialize r))"
    using assms by (auto simp: flush_log_def)
  have wf: "\<forall>r \<in> set (rs @ take n xs). rec_wf E r" "\<forall>r \<in> set xs. rec_wf E r"
    using assms by (auto simp: flush_log_def dest: in_set_takeD)
  have s1: "fst (scan_kv_file E (log_bytes (rs @ take n xs) @ take k (serialize r)) 0) = rs @ take n xs"
    by (simp only: scan_kv_file_def drop_0 scan_log_append [OF wf(1)] scan_torn [OF o(1,2)]) simp
  have s2: "fst (scan_kv E (st_wal (fe_lock env)) off) = xs"
    using assms scan_log_append [OF wf(2), of "[]"]
    by (simp add: scan_kv_def scan_kv_file_def flush_log_def)
  have a: "\<forall>r \<in> set rs. rec_key r \<noteq> None \<and> rec_rev r \<le> cp" "\<forall>r \<in> set xs. rec_key r \<noteq> None \<and> cp < rec_rev r"
    "\<forall>r \<in> set (take n xs). cp < rec_rev r"
    using assms by (auto simp: flush_log_def dest: in_set_takeD)
  have e: "log_value (- 1) [] = Map.empty" by (rule ext) (simp add: log_value_def)
  have p1: "flush_phase1 E cp active (fe_opened env) =
      (log_value (- 1) rs,
       deliver (\<lambda>ctx ev. wc_start_revision ctx \<le> ev_revision ev \<and> wants ctx ev) active (log_events rs))"
    using phase1_fold [OF a(1), of active "[]" "[]"] phase1_skip [OF a(3)]
    by (simp add: flush_phase1_def o(3) s1 [simplified] e)
  have p2: "flush_phase2 E cp off active (log_value (- 1) rs) (fe_lock env) =
      (log_value (- 1) (rs @ xs), deliver wants active (events_after rs xs))"
    using phase2_fold [OF a(2), of active rs "[]"] by (simp add: flush_phase2_def s2)
  show ?thesis by (simp add: flush_active_def p1 p2 register_all_eq)
qed

text \<open>What a watcher created by a flush finds in its channel: the events of phase 1 from its start
  revision on, then all events of phase 2 that its range and filters select.  It is registered with
  the values it asked for, and nothing else of the state changes.\<close>

lemma replay_channel:
  assumes "flush_log E env cp off rs xs"
    and "distinct (map gc_event_tx batch)" and "distinct (map gc_reply batch)"
    and "flush_global_batch_at E env batch cp off = Some (replies, s')"
    and "c \<in> set batch" and "(gc_reply c, resp) \<in> set replies" and "ws_created resp"
    and "\<not> ws_canceled resp"
    and "channel (gc_event_tx c) (st_outbox (fe_lock env)) = []"
  shows "channel (gc_event_tx c) (st_outbox s') =
      filter (\<lambda>ev. pc_start_revision (gc_pending c) \<le> ev_revision ev \<and> wants (context_of c) ev) (log_events rs)
      @ filter (wants (context_of c)) (events_after rs xs)
    \<and> registration_of (context_of c) \<in> set (st_watchers s')
    \<and> (\<exists>active. st_watchers s' = st_watchers (fe_lock env) @ map registration_of active
          \<and> mset (map wc_event_tx active) \<subseteq># mset (map gc_event_tx batch))
    \<and> st_keys s' = st_keys (fe_lock env) \<and> st_wal s' = st_wal (fe_lock env)
    \<and> st_next_rev s' = st_next_rev (fe_lock env) \<and> st_leases s' = st_leases (fe_lock env)
    \<and> st_compact_rev s' = st_compact_rev (fe_lock env) \<and> st_key_count s' = st_key_count (fe_lock env)"
proof -
  obtain replies0 n active where f:
    "flush_global_batch_at E env batch cp off =
       Some (replies0 @ created_replies (fe_cur env) n active, flush_active E env cp off active)"
    "\<forall>x \<in> set replies0. ws_canceled (snd x)"
    "mset active \<subseteq># mset (map context_of batch)"
    by (rule flush_cases)
  have "(gc_reply c, resp) \<in> set (created_replies (fe_cur env) n active)"
    using f(1,2) assms(4,6,8) by auto
  from created_replies_correct(2) [OF this] obtain ctx where
    ctx: "ctx \<in> set active" "wc_reply ctx = gc_reply c" by auto
  from ctx(1) set_mset_mono [OF f(3)] obtain d where d: "d \<in> set batch" "ctx = context_of d" by auto
  from ctx(2) d have "gc_reply d = gc_reply c" by (simp add: context_of_def Let_def)
  with assms(3,5) d(1) have "d = c" by (simp add: distinct_map inj_on_def)
  with d ctx have c: "context_of c \<in> set active" by simp
  have tx: "wc_event_tx (context_of c) = gc_event_tx c" "wc_start_revision (context_of c) = pc_start_revision (gc_pending c)"
    by (simp_all add: context_of_def Let_def)
  have sub: "mset (map wc_event_tx active) \<subseteq># mset (map gc_event_tx batch)"
    using image_mset_subseteq_mono [OF f(3), of wc_event_tx]
    by (simp add: context_of_def Let_def image_mset.compositionality comp_def)
  from distinct_sub_mset [OF sub assms(2)] have dist: "distinct (map wc_event_tx active)" .
  have s': "s' = flush_active E env cp off active" using assms(4) f(1) by simp
  have "channel (gc_event_tx c) (st_outbox s') =
      filter (\<lambda>ev. pc_start_revision (gc_pending c) \<le> ev_revision ev \<and> wants (context_of c) ev) (log_events rs)
      @ filter (wants (context_of c)) (events_after rs xs)"
    using channel_deliver [OF dist c, unfolded tx] assms(9)
    by (simp add: s' flush_active_outbox [OF assms(1)] tx)
  moreover obtain out where "s' = (fe_lock env)\<lparr>st_outbox := out,
      st_watchers := st_watchers (fe_lock env) @ map registration_of active\<rparr>"
    by (rule that) (simp add: s' flush_active_def register_all_eq split_def Let_def)
  ultimately show ?thesis using c sub by auto
qed

text \<open>When the start is not beyond the next revision at the checkpoint, that is the log from the start
  on.\<close>

lemma replay_filter:
  assumes "flush_log E env cp off rs xs" and "start \<le> cp + 1"
  shows "filter (\<lambda>ev. start \<le> ev_revision ev \<and> Q ev) (log_events rs) @ filter Q (events_after rs xs) =
    filter (\<lambda>ev. start \<le> ev_revision ev \<and> Q ev) (log_events (rs @ xs))"
proof -
  have "start \<le> ev_revision ev" if "ev \<in> set (events_after rs xs)" for ev
  proof -
    from events_after_rev [OF that] assms(1) have "cp < ev_revision ev" by (auto simp: flush_log_def)
    then have "cp + 1 \<le> ev_revision ev" by (rule inc_le)
    with assms(2) show ?thesis by simp
  qed
  then show ?thesis by (simp add: events_after_append cong: filter_cong)
qed

text \<open>C36. Replay ignores the start revision for what is written while it runs: a watcher that asks
  for a later start is sent every event of its range written between the checkpoint and its
  registration, also those below its start revision, which live delivery would withhold.\<close>

theorem watch_replay_below_start:
  assumes "flush_log E env cp off rs xs"
    and "distinct (map gc_event_tx batch)" and "distinct (map gc_reply batch)"
    and "flush_global_batch_at E env batch cp off = Some (replies, s')"
    and "c \<in> set batch" and "(gc_reply c, resp) \<in> set replies" and "ws_created resp" and "\<not> ws_canceled resp"
    and "channel (gc_event_tx c) (st_outbox (fe_lock env)) = []"
    and "ev \<in> set (events_after rs xs)" and "wants (context_of c) ev"
    and "ev_revision ev < pc_start_revision (gc_pending c)"
  shows "ev \<in> set (channel (gc_event_tx c) (st_outbox s'))
    \<and> notify_loop ev [registration_of (context_of c)] = []"
  using replay_channel [OF assms(1-9)] assms(10-12)
  by (simp add: registration_of_def context_of_def Let_def)

lemma watch_replay_below_start_witness:
  "\<exists>replies s'. flush_global_batch_at ref_libs
       (demo_env ((StoreState_new demo_wal)\<lparr>st_wal := demo_wal\<lparr>wf_content := serialize demo_record\<rparr>\<rparr>))
       [demo_create 5] 0 0 = Some (replies, s')
     \<and> event_of [] demo_record \<in> set (channel 7 (st_outbox s'))"
proof -
  let ?s = "(StoreState_new demo_wal)\<lparr>st_wal := demo_wal\<lparr>wf_content := serialize demo_record\<rparr>\<rparr>"
  have f: "fits [1] [2]" by (simp add: fits_def)
  have d: "rec_key demo_record = Some [1]" "rec_rev demo_record = 1" "rec_wf ref_libs demo_record"
    "rec_flags demo_record = 2"
    unfolding demo_record_def by (simp_all only: rec_new_facts [OF libs_ok_ref f]) (simp add: codec_simps)
  have l: "flush_log ref_libs (demo_env ?s) 0 0 [] [demo_record]"
    using d demo_log_ok(2) unfolding flush_log_def
    by (auto simp: demo_env_def length_serialize intro!: exI [of _ 0] exI [of _ demo_record])
  obtain resp s' where r: "flush_global_batch_at ref_libs (demo_env ?s) [demo_create 5] 0 0 = Some ([(3, resp)], s')"
    "ws_created resp" "\<not> ws_canceled resp"
    using demo_flush [of ?s 5 ref_libs 0 0] by (auto simp: StoreState_new_def)
  have "event_of [] demo_record \<in> set (channel (gc_event_tx (demo_create 5)) (st_outbox s'))"
    using watch_replay_below_start [OF l _ _ r(1), of "demo_create 5" resp "event_of [] demo_record"] r(2,3) d
    by (simp add: demo_create_def demo_env_def StoreState_new_def channel_def wants_def context_of_def
        event_of_def resolve_range_def Let_def flag_defs)
  then show ?thesis using r(1) by (auto simp: demo_create_def)
qed

end
