(* ===== verification/Log_Mirror.thy ===== *)
theory Log_Mirror
  imports Watch_Batch System
begin

text \<open>
  The agreement of the state in memory with the log, kept by every request and background task: each
  key's row says what the log says of the key at every revision the row knows about, and the events
  sent to watchers are the events of the records logged.  Watch delivery and reads of the past both
  rest on it.
\<close>

section \<open>What a row says of the past\<close>

text \<open>A key that was never written again after a deletion.\<close>

definition one_life :: "kv_wal_record list \<Rightarrow> bytes \<Rightarrow> bool" where
  "one_life rs k \<longleftrightarrow>
     list_all (\<lambda>r. rec_flags r AND DELETED \<noteq> 0)
       (dropWhile (\<lambda>r. rec_flags r AND DELETED = 0) (filter (\<lambda>r. rec_key r = Some k) rs))"

text \<open>A row gives the value of its key from its last write to its deletion, says that the key exists
  from its creation to its last write, and, in the first life of the key, that it did not exist before.\<close>

definition row_past :: "kv_wal_record list \<Rightarrow> bytes \<Rightarrow> key_state \<Rightarrow> bool" where
  "row_past rs k ks \<longleftrightarrow>
     (\<forall>t. ks_mod_revision ks \<le> t \<and> (ks_delete_revision ks = 0 \<or> t < ks_delete_revision ks)
          \<longrightarrow> log_value t rs k = Some (ks_kv_bytes ks))
     \<and> (\<forall>t. ks_delete_revision ks \<noteq> 0 \<and> ks_delete_revision ks \<le> t \<longrightarrow> log_value t rs k = None)
     \<and> (\<forall>t. ks_create_revision ks \<le> t \<and> t < ks_mod_revision ks \<longrightarrow> log_value t rs k \<noteq> None)
     \<and> (ks_delete_revision ks \<noteq> 0 \<longrightarrow> (\<exists>r \<in> set rs. rec_key r = Some k \<and> rec_flags r AND DELETED \<noteq> 0))
     \<and> (one_life rs k \<longrightarrow> (\<forall>t < ks_create_revision ks. log_value t rs k = None) \<and> \<not> ks_rebirth ks)"

definition past :: "kv_wal_record list \<Rightarrow> store_state \<Rightarrow> bool" where
  "past rs s \<longleftrightarrow> (\<forall>k. case bt_get (st_keys s) k of
     None \<Rightarrow> (\<forall>t. log_value t rs k = None) | Some ks \<Rightarrow> row_past rs k ks)"

lemma one_life_other: "rec_key x \<noteq> Some k \<Longrightarrow> one_life (rs @ [x]) k = one_life rs k"
  by (simp add: one_life_def)

lemma one_life_puts:
  assumes "\<forall>r. r \<in> set rs \<and> rec_key r = Some k \<longrightarrow> rec_flags r AND DELETED = 0"
  shows "one_life rs k"
proof -
  have "dropWhile (\<lambda>r. rec_flags r AND DELETED = 0) (filter (\<lambda>r. rec_key r = Some k) rs) = []"
    using assms by simp
  then show ?thesis by (simp only: one_life_def list.pred_inject)
qed

lemma one_life_put:
  assumes "rec_key x = Some k" and "rec_flags x AND DELETED = 0" and "one_life (rs @ [x]) k"
  shows "r \<in> set rs \<Longrightarrow> rec_key r = Some k \<Longrightarrow> rec_flags r AND DELETED = 0"
  using assms by (auto simp: one_life_def dropWhile_append split: if_splits)

lemma one_life_before: "one_life (rs @ [x]) k \<Longrightarrow> one_life rs k"
  using one_life_puts [of rs k]
  by (auto simp: one_life_def [of "rs @ [x]"] dropWhile_append split: if_splits) (simp_all add: one_life_def)

lemma row_past_other:
  assumes "rec_key x \<noteq> Some k" and "row_past rs k ks"
  shows "row_past (rs @ [x]) k ks"
proof -
  have "log_value t (rs @ [x]) k = log_value t rs k" for t using assms(1) by (simp add: log_value_snoc)
  with assms show ?thesis unfolding row_past_def by (auto simp: one_life_other)
qed

lemma row_past_put:
  assumes "rec_key x = Some k" and "rec_flags x AND DELETED = 0" and "rec_rev x = ks_mod_revision ks"
    and "rec_kv_bytes x = ks_kv_bytes ks" and "ks_delete_revision ks = 0"
    and "case bt_get (st_keys s) k of
        None \<Rightarrow> ks_create_revision ks = ks_mod_revision ks \<and> \<not> ks_rebirth ks \<and> (\<forall>t. log_value t rs k = None)
      | Some p \<Rightarrow> row_past rs k p \<and> (if is_alive p
          then ks_create_revision ks = ks_create_revision p \<and> ks_create_revision p \<le> ks_mod_revision ks
            \<and> \<not> ks_rebirth ks
          else ks_create_revision ks = ks_mod_revision ks)"
  shows "row_past (rs @ [x]) k ks"
proof (cases "bt_get (st_keys s) k")
  case None
  then show ?thesis using assms by (auto simp: row_past_def log_value_snoc)
next
  case (Some p)
  show ?thesis
  proof (cases "is_alive p")
    case True
    have v: "log_value t rs k \<noteq> None" if "ks_create_revision p \<le> t" for t
      using that assms(6) Some True by (cases "t < ks_mod_revision p") (auto simp: row_past_def is_alive_def not_less)
    have "\<forall>t < ks_create_revision p. log_value t rs k = None" if "one_life (rs @ [x]) k"
      using one_life_before [OF that] assms(6) Some True by (auto simp: row_past_def)
    then show ?thesis using assms Some True v unfolding row_past_def log_value_snoc by (auto simp: not_le)
  next
    case False
    then have "\<not> one_life (rs @ [x]) k"
      using assms(6) Some one_life_put [OF assms(1,2)] by (auto simp: row_past_def is_alive_def)
    then show ?thesis using assms Some False by (auto simp: row_past_def log_value_snoc)
  qed
qed

lemma row_past_delete:
  assumes "row_past rs k p" and "is_alive p" and "rec_key x = Some k" and "rec_flags x AND DELETED \<noteq> 0"
    and "rec_rev x = r" and "r \<noteq> 0" and "ks_mod_revision p \<le> r" and "ks_create_revision p \<le> ks_mod_revision p"
  shows "row_past (rs @ [x]) k (p\<lparr>ks_delete_revision := r\<rparr>)"
proof -
  have "ks_create_revision p \<le> r" using assms(7,8) by (rule order_trans [rotated])
  then show ?thesis
    using assms one_life_before [of rs x k]
    unfolding row_past_def log_value_snoc by (auto simp: is_alive_def not_le dest: order.strict_trans2)
qed

lemma past_insert:
  assumes "past rs s" and "rec_key x = Some key" and "row_past (rs @ [x]) key e"
    and "st_keys s' = bt_insert key e (st_keys s)"
  shows "past (rs @ [x]) s'"
  unfolding past_def
proof
  fix k
  show "case bt_get (st_keys s') k of None \<Rightarrow> \<forall>t. log_value t (rs @ [x]) k = None
    | Some ks \<Rightarrow> row_past (rs @ [x]) k ks"
  proof (cases "k = key")
    case False
    then show ?thesis
      using assms(1,2) row_past_other [of x k rs]
      by (auto simp: past_def assms(4) bt_get_insert log_value_snoc dest: spec [of _ k] split: option.splits)
  qed (use assms(3,4) in \<open>simp add: bt_get_insert\<close>)
qed

section \<open>The key space mirrors the log\<close>

definition notify_all :: "watch_registration list \<Rightarrow> watch_event list \<Rightarrow> (nat \<times> watch_event) list" where
  "notify_all ws evs = concat (map (\<lambda>ev. notify_loop ev ws) evs)"

lemma notify_all_append: "notify_all ws (xs @ ys) = notify_all ws xs @ notify_all ws ys"
  by (simp add: notify_all_def)

text \<open>Every live key carries the encoding of its own fields, which is also the one its last record in
  the log carries, and every row is right about the past.\<close>

definition mirror :: "kv_wal_record list \<Rightarrow> store_state \<Rightarrow> bool" where
  "mirror rs s \<longleftrightarrow>
     (\<forall>k. log_value (- 1) rs k = map_option ks_kv_bytes (get_alive s k))
     \<and> (\<forall>k ks. get_alive s k = Some ks \<longrightarrow>
          ks_kv_bytes ks = kv_blob k (ks_value ks) (ks_create_revision ks) (ks_mod_revision ks)
                             (ks_version ks) (ks_lease ks))
     \<and> past rs s"

lemma mirror_cong: "mirror rs s \<Longrightarrow> st_keys s' = st_keys s \<Longrightarrow> mirror rs s'"
  by (simp add: mirror_def get_alive_def past_def)

lemma past_put:
  assumes "past rs s" and "keys_ok s" and "rev_ok r key s" and "rec_key x = Some key"
    and "rec_flags x AND DELETED = 0" and "rec_rev x = r"
    and "rec_kv_bytes x = ks_kv_bytes (put_entry key val lease r None s)"
  shows "past (rs @ [x]) (snd (apply_put key val lease r None s))"
proof (rule past_insert [OF assms(1,4)])
  let ?e = "put_entry key val lease r None s"
  have "ks_create_revision p \<le> r" if "bt_get (st_keys s) key = Some p" "is_alive p" for p
  proof -
    have g: "get_alive s key = Some p" using that by (simp add: get_alive_Some)
    then have "ks_create_revision p \<le> ks_mod_revision p" "ks_mod_revision p \<le> r"
      using keys_ok_get_alive [OF assms(2) g] assms(3) by (simp_all add: entry_ok_def rev_ok_def)
    then show ?thesis by (rule order_trans)
  qed
  then show "row_past (rs @ [x]) key ?e"
    using assms(1,4-7)
    by (intro row_past_put [where s = s])
      (auto simp: past_def put_entry_def get_alive_def is_alive_def Let_def dest: spec [of _ key] split: option.splits)
qed (simp add: apply_put_eq)

lemma mirror_put:
  fixes lease :: i64 and r :: u64
  assumes "mirror rs s" and "libs_ok E" and "fits key val" and "flags AND DELETED = 0"
    and "keys_ok s" and "rev_ok r key s"
  defines "x \<equiv> KvWalRecord_new E flags key val
      (case get_alive s key of Some k \<Rightarrow> ks_create_revision k | None \<Rightarrow> r) r
      (case get_alive s key of Some k \<Rightarrow> ks_version k + 1 | None \<Rightarrow> 1) lease"
    and "s' \<equiv> snd (apply_put key val lease r None s)"
  shows "mirror (rs @ [x]) s' \<and> st_outbox s' = st_outbox s @ notify_loop (event_of rs x) (st_watchers s)
    \<and> st_watchers s' = st_watchers s"
proof -
  let ?e = "put_entry key val lease r None s"
  have x: "rec_key x = Some key" "rec_rev x = r" "rec_flags x = flags" "rec_kv_bytes x = ks_kv_bytes ?e"
    using rec_new_facts [OF assms(2,3)]
    by (simp_all add: x_def codec_simps put_entry_def make_kv_bytes_eq Let_def)
  have b: "ks_kv_bytes ?e = kv_blob key (ks_value ?e) (ks_create_revision ?e) (ks_mod_revision ?e)
      (ks_version ?e) (ks_lease ?e)" by (simp add: put_entry_def make_kv_bytes_eq Let_def)
  have g: "get_alive s' k = (if k = key then Some ?e else get_alive s k)" for k
    by (simp add: s'_def apply_put_eq get_alive_insert is_alive_def)
  have "event_of rs x = put_event key val lease r None s"
    using assms(1,4) x by (simp add: event_of_def put_event_def mirror_def option.case_eq_if map_option_case)
  then have "st_outbox s' = st_outbox s @ notify_loop (event_of rs x) (st_watchers s)"
    "st_watchers s' = st_watchers s"
    by (simp_all add: s'_def apply_put_eq notify_watchers_def)
  moreover have "past (rs @ [x]) s'"
    unfolding s'_def using assms(1,4-6) x by (intro past_put) (simp_all add: mirror_def)
  then have "mirror (rs @ [x]) s'"
    using assms(1,4) x b by (auto simp: mirror_def g log_value_snoc)
  ultimately show ?thesis by blast
qed

lemma mirror_delete:
  assumes "mirror rs s" and "libs_ok E" and "keys_ok s" and "rev_ok r key s" and "get_alive s key = Some p"
    and "fits key (ks_value p)"
  defines "x \<equiv> delete_record E key r p" and "s' \<equiv> snd (apply_delete key r s)"
  shows "mirror (rs @ [x]) s' \<and> st_outbox s' = st_outbox s @ notify_loop (event_of rs x) (st_watchers s)
    \<and> st_watchers s' = st_watchers s"
proof -
  have r: "r \<noteq> 0" "ks_mod_revision p \<le> r" using assms(4,5) by (auto simp: rev_ok_def)
  have b: "ks_kv_bytes p = kv_blob key (ks_value p) (ks_create_revision p) (ks_mod_revision p)
      (ks_version p) (ks_lease p)" using assms(1,5) by (simp add: mirror_def)
  have d: "rec_flags x AND DELETED \<noteq> 0" by (simp add: x_def delete_record_def codec_simps flag_defs)
  have x: "rec_key x = Some key" "rec_rev x = r"
    "rec_kv_bytes x = kv_blob key (ks_value p) (ks_create_revision p) r (ks_version p) (ks_lease p)"
    using rec_new_facts [OF assms(2,6)] by (simp_all add: x_def delete_record_def Let_def codec_simps)
  have len: "length key < 2 ^ 32" using assms(6) by (simp add: fits_def)
  have "with_mod_revision (ks_kv_bytes p) r = Some (rec_kv_bytes x)"
    unfolding b x(3) using with_mod_revision_blob [OF len] by simp
  then have "event_of rs x = delete_event key r p"
    using assms(1,5) x d by (simp add: event_of_def delete_event_def mirror_def)
  then have o: "st_outbox s' = st_outbox s @ notify_loop (event_of rs x) (st_watchers s)"
    "st_watchers s' = st_watchers s"
    using assms(3,5) by (simp_all add: s'_def apply_delete_eq notify_watchers_def)
  have g: "get_alive s' k = (if k = key then None else get_alive s k)" for k
    using get_alive_apply_delete [OF assms(3) r(1)] by (simp add: s'_def)
  have p: "bt_get (st_keys s) key = Some p" "is_alive p" using assms(5) by (simp_all add: get_alive_Some)
  have "row_past (rs @ [x]) key (p\<lparr>ks_delete_revision := r\<rparr>)"
    using assms(1) p d x r keys_ok_get_alive [OF assms(3,5)]
    by (intro row_past_delete) (auto simp: mirror_def past_def entry_ok_def dest: spec [of _ key])
  then have "past (rs @ [x]) s'"
    using assms(1,5) p by (intro past_insert [of rs s x key]) (simp_all add: mirror_def x s'_def apply_delete_eq [OF assms(3)])
  then have "mirror (rs @ [x]) s'" using assms(1) x d by (auto simp: mirror_def g log_value_snoc)
  with o show ?thesis by blast
qed

lemma mirror_deletes:
  assumes "libs_ok E" and "keys_ok s" and "at_rev r s" and "mirror rs s"
    and "distinct keys" and "\<forall>k \<in> set keys. \<exists>p. get_alive s k = Some p \<and> fits k (ks_value p)"
  defines "xs \<equiv> map (\<lambda>k. delete_record E k r (the (get_alive s k))) keys"
  shows "mirror (rs @ xs) (snd (apply_deletes keys r s))
    \<and> st_outbox (snd (apply_deletes keys r s)) = st_outbox s @ notify_all (st_watchers s) (events_after rs xs)
    \<and> st_watchers (snd (apply_deletes keys r s)) = st_watchers s"
  unfolding xs_def using assms(2-6)
proof (induction keys arbitrary: s rs)
  case (Cons key keys)
  define t where "t = snd (apply_delete key r s)"
  have r: "r \<noteq> 0" using Cons.prems(2) by (auto simp: at_rev_def)
  obtain p where p: "get_alive s key = Some p" "fits key (ks_value p)" using Cons.prems(5) by auto
  have e: "apply_delete key r s = (Ok (get_alive s key), t)"
    using apply_delete_ok [OF Cons.prems(1)] by (simp add: t_def)
  note ro = at_rev_ok [OF Cons.prems(1,2), of key]
  have t: "keys_ok t" "at_rev r t"
    using keys_ok_apply_delete [OF Cons.prems(1) ro] Cons.prems(2)
      same_env_at_rev [OF same_env_apply_delete [OF Cons.prems(1)]] by (simp_all add: t_def)
  note m = mirror_delete [OF Cons.prems(3) assms(1) Cons.prems(1) ro p, folded t_def]
  have g: "get_alive t k = get_alive s k" if "k \<in> set keys" for k
    using get_alive_apply_delete [OF Cons.prems(1) r] that Cons.prems(4) by (auto simp: t_def)
  have mp: "map (\<lambda>k. delete_record E k r (the (get_alive t k))) keys =
      map (\<lambda>k. delete_record E k r (the (get_alive s k))) keys" by (simp add: g)
  have "\<forall>k \<in> set keys. \<exists>p. get_alive t k = Some p \<and> fits k (ks_value p)" using Cons.prems(5) g by simp
  from Cons.IH [OF t _ _ this, of "rs @ [delete_record E key r p]"] m Cons.prems(4)
  show ?case unfolding mp by (simp add: e p notify_all_def)
qed (simp add: notify_all_def)

section \<open>Writes\<close>

text \<open>The invariant: the state is well-formed and durable, and the key space mirrors the log.\<close>

definition live_log :: "libs \<Rightarrow> kv_wal_record list \<Rightarrow> store_state \<Rightarrow> bool" where
  "live_log E rs s \<longleftrightarrow> store_ok s \<and> durable (\<lambda>v. v) E s \<and> wf_content (st_wal s) = log_bytes rs \<and> mirror rs s
     \<and> (\<forall>r \<in> set rs. rec_wf E r)"

text \<open>What a step does to the log and to the channels.\<close>

definition logged :: "libs \<Rightarrow> kv_wal_record list \<Rightarrow> store_state \<Rightarrow> kv_wal_record list \<Rightarrow> store_state \<Rightarrow> bool" where
  "logged E rs s xs s' \<longleftrightarrow> live_log E (rs @ xs) s' \<and> st_watchers s' = st_watchers s
     \<and> st_outbox s' = st_outbox s @ notify_all (st_watchers s) (events_after rs xs)"

lemma logged_trans: "logged E rs s xs t \<Longrightarrow> logged E (rs @ xs) t ys u \<Longrightarrow> logged E rs s (xs @ ys) u"
  by (simp add: logged_def events_after_append notify_all_append)

lemma live_fits: "live_log E rs s \<Longrightarrow> get_alive s k = Some p \<Longrightarrow> fits k (ks_value p)"
  by (fastforce simp: live_log_def durable_def view_of_def abs_entry_def)

text \<open>A step that touches neither keys, log, watchers nor channels.\<close>

lemma logged_idle:
  assumes "live_log E rs s" and "store_ok s'" and "durable (\<lambda>v. v) E s'" and "st_keys s' = st_keys s"
    and "wf_content (st_wal s') = wf_content (st_wal s)" and "st_watchers s' = st_watchers s"
    and "st_outbox s' = st_outbox s"
  shows "logged E rs s [] s'"
  using assms mirror_cong [of rs s s'] by (simp add: logged_def live_log_def notify_all_def)

lemma live_log_cong:
  assumes "live_log E rs s" and "st_keys s' = st_keys s" and "st_leases s' = st_leases s" and "st_wal s' = st_wal s"
    and "st_next_rev s' = st_next_rev s" and "st_key_count s' = st_key_count s" and "st_compact_rev s' = st_compact_rev s"
  shows "live_log E rs s'"
  using assms mirror_cong [of rs s s'] durable_cong [of log_start "\<lambda>v. v" E s s'] view_of_keys [of s' s]
  by (simp add: live_log_def store_ok_def keys_ok_def leases_ok_def)

lemma logged_alloc:
  assumes "live_log E rs s" and "st_next_rev s \<noteq> - 1"
  shows "logged E rs s [] (snd (alloc_revision s))"
proof -
  have s: "store_ok s" "durable (\<lambda>v. v) E s" using assms(1) by (simp_all add: live_log_def)
  show ?thesis using alloc_revision_at [OF s(1) assms(2)] durable_alloc [OF s(2) assms(2)]
    by (intro logged_idle [OF assms(1)]) simp_all
qed

lemma put_at_logged:
  assumes "libs_ok E" and "live_log E rs s" and "at_rev r s" and "put_fits req"
  shows "\<exists>xs. logged E rs s xs (snd (put_at E req r s))"
proof (cases "put_reuses_missing req s \<or> put_lease_missing req s")
  case True
  then have "snd (put_at E req r s) = s" by (auto simp: put_at_eq)
  then have "logged E rs s [] (snd (put_at E req r s))" using assms(2) by (simp add: logged_def notify_all_def)
  then show ?thesis by blast
next
  case False
  have s: "store_ok s" "durable (\<lambda>v. v) E s" "wf_content (st_wal s) = log_bytes rs" "mirror rs s"
    "\<forall>r \<in> set rs. rec_wf E r" using assms(2) by (simp_all add: live_log_def)
  have k: "keys_ok s" using s(1) by (simp add: store_ok_def)
  let ?x = "put_record E req r s"
  define w where "w = (st_wal s)\<lparr>wf_content := wf_content (st_wal s) @ serialize ?x, wf_dirty := True\<rparr>"
  define s' where "s' = snd (put_at E req r s)"
  have s': "s' = snd (apply_put (pr_key req) (put_value req s) (put_lease req s) r None (s\<lparr>st_wal := w\<rparr>))"
    using False append_kv_no_fault [OF durable_faults [OF s(2)], of ?x]
    by (simp add: s'_def w_def put_at_eq Let_def)
  have fit: "fits (pr_key req) (put_value req s)" using fits_put_value [OF s(2) assms(4)] False by simp
  have fl: "((if A then IS_CREATE else 0) OR (if B then HAS_LEASE else 0)) AND DELETED = (0 :: u8)" for A B
    by (simp add: flag_defs)
  have m: "mirror rs (s\<lparr>st_wal := w\<rparr>)" using s(4) by (rule mirror_cong) simp
  have g: "get_alive (s\<lparr>st_wal := w\<rparr>) k = get_alive s k" for k by (simp add: get_alive_def)
  have kw: "keys_ok (s\<lparr>st_wal := w\<rparr>)" "rev_ok r (pr_key req) (s\<lparr>st_wal := w\<rparr>)"
    using k at_rev_ok [OF k assms(3)] by (simp_all add: keys_ok_def rev_ok_def g)
  note mp = mirror_put [OF m assms(1) fit fl kw, of "get_alive s (pr_key req) = None" "put_lease req s \<noteq> 0" "put_lease req s",
      folded s', unfolded g, folded put_record_def]
  have "wf_content (st_wal s') = log_bytes (rs @ [?x])" using s(3) by (simp add: s' w_def)
  moreover have "store_ok s'" "durable (\<lambda>v. v) E s'"
    using store_ok_keys [OF s(1)] put_at_correct [OF k assms(3) put_fits_small [OF assms(4)], of E]
      durable_put_at [OF assms(1) s(2) k assms(3) _ assms(4)] by (simp_all add: s'_def)
  moreover have "rec_wf E ?x" unfolding put_record_def using rec_new_facts [OF assms(1) fit] by simp
  ultimately have "logged E rs s [?x] s'" using mp s(5) by (simp add: logged_def live_log_def notify_all_def)
  then show ?thesis unfolding s'_def by blast
qed

text \<open>Both kinds of deletion log tombstones for a list of live keys and then apply them.\<close>

lemma deletes_logged:
  assumes "libs_ok E" and "live_log E rs s" and "at_rev r s"
    and "distinct keys" and "\<forall>k \<in> set keys. get_alive s k \<noteq> None"
    and "append_kv_batch (delete_records E keys r s) (st_wal s) = (Inr u, w)"
  shows "logged E rs s (delete_records E keys r s) (snd (apply_deletes keys r (s\<lparr>st_wal := w\<rparr>)))"
proof -
  let ?t = "s\<lparr>st_wal := w\<rparr>" and ?s' = "snd (apply_deletes keys r (s\<lparr>st_wal := w\<rparr>))"
  have s: "store_ok s" "durable (\<lambda>v. v) E s" "wf_content (st_wal s) = log_bytes rs" "mirror rs s"
    "\<forall>r \<in> set rs. rec_wf E r" using assms(2) by (simp_all add: live_log_def)
  have k: "keys_ok s" using s(1) by (simp add: store_ok_def)
  have t: "keys_ok ?t" "at_rev r ?t" "store_ok ?t"
    using assms(3) s(1) by (simp_all add: keys_ok_def leases_ok_def at_rev_def store_ok_def)
  have g: "get_alive ?t k = get_alive s k" for k by (simp add: get_alive_def)
  have m: "mirror rs ?t" using s(4) by (rule mirror_cong) simp
  have x: "delete_records E keys r s = map (\<lambda>k. delete_record E k r (the (get_alive s k))) keys"
    using assms(5) by (simp add: delete_records_eq)
  have "\<forall>k \<in> set keys. \<exists>p. get_alive ?t k = Some p \<and> fits k (ks_value p)"
    using assms(5) live_fits [OF assms(2)] by (fastforce simp: g)
  from mirror_deletes [OF assms(1) t(1,2) m assms(4) this]
  have "mirror (rs @ delete_records E keys r s) ?s' \<and> st_watchers ?s' = st_watchers s
      \<and> st_outbox ?s' = st_outbox s @ notify_all (st_watchers s) (events_after rs (delete_records E keys r s))"
    by (simp add: g x)
  moreover have "wf_content (st_wal ?s') = log_bytes (rs @ delete_records E keys r s)"
    using apply_deletes_correct [OF t(1,2), of keys] append_kv_batch_ok [OF assms(6)] s(3) by simp
  moreover have "store_ok ?s'" "durable (\<lambda>v. v) E ?s'"
    using apply_deletes_correct [OF t(1,2), of keys] durable_deletes [OF assms(1) s(2) k assms(3) _ assms(5)] assms(6)
      store_ok_keys [OF t(3)] by simp_all
  moreover have "\<forall>x \<in> set (delete_records E keys r s). rec_wf E x"
    unfolding x using delete_records_facts(1) [OF assms(1) s(2) assms(3,5)] rec_made_wf [OF assms(1)] by blast
  ultimately show ?thesis using s(5) by (auto simp: logged_def live_log_def)
qed

lemma live_keys_distinct:
  assumes "bt_ok (st_keys s)"
  shows "distinct (live_in b s)" and "distinct (lease_keys l s)"
  using bt.distinct_keys [OF assms] by (simp_all add: live_in_def lease_keys_def bt_iter_def distinct_map_filter)

lemma delete_range_at_logged:
  assumes "libs_ok E" and "live_log E rs s" and "at_rev r s"
  shows "\<exists>xs. logged E rs s xs (snd (delete_range_at E req r s))"
proof -
  have s: "store_ok s" "durable (\<lambda>v. v) E s" using assms(2) by (simp_all add: live_log_def)
  have ok: "bt_ok (st_keys s)" using s(1) by (simp add: store_ok_def keys_ok_def)
  define ks where "ks = live_in (dr_bound req) s"
  have live: "\<forall>k \<in> set ks. get_alive s k \<noteq> None" using set_live_in [OF ok] by (simp add: ks_def)
  obtain w where a: "append_kv_batch (delete_records E ks r s) (st_wal s) = (Inr (), w)"
    by (simp add: append_kv_batch_no_fault [OF durable_faults [OF s(2)]])
  obtain x t where t: "apply_deletes ks r (s\<lparr>st_wal := w\<rparr>) = (x, t)" by fastforce
  have l: "logged E rs s (delete_records E ks r s) t"
    using deletes_logged [OF assms live_keys_distinct(1) [OF ok, of "dr_bound req", folded ks_def] live a] t by simp
  have "snd (delete_range_at E req r s) = (if bad_bound (dr_bound req) then s else t)"
    unfolding delete_range_at_def delete_targets_eq [OF ok]
    by (cases x) (simp_all add: ks_def [symmetric] a t Let_def)
  moreover have "logged E rs s [] s" using assms(2) by (simp add: logged_def notify_all_def)
  ultimately show ?thesis using l by (cases "bad_bound (dr_bound req)") auto
qed

lemma lease_keys_logged:
  assumes "libs_ok E" and "live_log E rs s" and "st_next_rev s \<noteq> - 1"
  shows "\<exists>xs. logged E rs s xs (snd (delete_keys_for_lease E lease_id s))"
proof (cases "lease_keys lease_id s = []")
  case True
  then have "logged E rs s [] (snd (delete_keys_for_lease E lease_id s))"
    using assms(2) by (simp add: delete_keys_for_lease_def lease_keys_def logged_def notify_all_def)
  then show ?thesis by blast
next
  case False
  define u where "u = snd (alloc_revision s)"
  define ks where "ks = lease_keys lease_id s"
  have s: "store_ok s" "durable (\<lambda>v. v) E s" using assms(2) by (simp_all add: live_log_def)
  have kok: "keys_ok s" and ok: "bt_ok (st_keys s)" using s(1) by (simp_all add: store_ok_def keys_ok_def)
  have al: "alloc_revision s = (st_next_rev s, u)" by (simp add: u_def alloc_revision_def Let_def)
  have lu: "logged E rs s [] u" unfolding u_def by (rule logged_alloc [OF assms(2,3)])
  then have ll: "live_log E rs u" by (simp add: logged_def)
  have at: "at_rev (st_next_rev s) u" using alloc_revision_at [OF s(1) assms(3)] by (simp add: u_def)
  have live: "\<forall>k \<in> set ks. get_alive u k \<noteq> None"
    using set_lease_keys [OF kok] by (auto simp: ks_def u_def attached_def view_of_def)
  have "wf_faults (st_wal u) = []" using durable_faults ll by (auto simp: live_log_def)
  then obtain w where a: "append_kv_batch (delete_records E ks (st_next_rev s) u) (st_wal u) = (Inr (), w)"
    by (simp add: append_kv_batch_no_fault)
  have "delete_keys_for_lease E lease_id s = apply_deletes ks (st_next_rev s) (u\<lparr>st_wal := w\<rparr>)"
    unfolding delete_keys_for_lease_def lease_keys_def [symmetric] al Let_def prod.case ks_def [symmetric]
    using False a by (simp add: ks_def [symmetric])
  then show ?thesis
    using logged_trans [OF lu] deletes_logged [OF assms(1) ll at live_keys_distinct(2) [OF ok, of lease_id, folded ks_def] live a]
    by auto
qed

text \<open>Whole transactions: every write of one extends what is logged.\<close>

definition extends_log :: "libs \<Rightarrow> u64 \<Rightarrow> kv_wal_record list \<Rightarrow> store_state \<Rightarrow> u64 option \<Rightarrow> store_state \<Rightarrow> bool" where
  "extends_log E n rs s0 rv s \<longleftrightarrow> libs_ok E \<and> txn_inv n rv s \<and> (\<exists>xs. logged E rs s0 xs s)"

lemma extends_log_alloc:
  assumes "extends_log E n rs s0 rv s" and "get_or_alloc rv s = (r, rv', s')"
  shows "extends_log E n rs s0 rv' s'" and "at_rev r s'"
proof -
  have i: "txn_inv n rv s" using assms(1) by (simp add: extends_log_def)
  note g = get_or_alloc_inv [OF i assms(2)]
  obtain xs where xs: "logged E rs s0 xs s" using assms(1) by (auto simp: extends_log_def)
  have "\<exists>ys. logged E (rs @ xs) s ys s'"
  proof (cases rv)
    case None
    then have "st_next_rev s \<noteq> - 1" "s' = snd (alloc_revision s)"
      using i assms(2) by (auto simp: txn_inv_def get_or_alloc_def split: prod.splits)
    then show ?thesis using logged_alloc [of E "rs @ xs" s] xs by (auto simp: logged_def [of E rs])
  next
    case (Some n')
    then have "logged E (rs @ xs) s [] s'" using xs assms(2) by (simp add: get_or_alloc_def logged_def notify_all_def)
    then show ?thesis by blast
  qed
  with xs g i assms(1) show "extends_log E n rs s0 rv' s'" "at_rev r s'"
    by (auto simp: extends_log_def txn_inv_def intro: logged_trans)
qed

lemma extends_log_step:
  assumes "extends_log E n rs s0 rv s" and "\<And>rs. live_log E rs s \<Longrightarrow> \<exists>ys. logged E rs s ys s'" and "txn_inv n rv' s'"
  shows "extends_log E n rs s0 rv' s'"
  using assms logged_trans [of E rs s0 _ s _ s'] by (fastforce simp: extends_log_def logged_def)

interpretation log: txn_ops E "extends_log E n rs s0" "\<lambda>_ _. extends_log E n rs s0" put_fits for E n rs s0
proof
  fix rv rv' :: "u64 option" and s s' s'' :: store_state and q r x
  assume a: "extends_log E n rs s0 rv s" and "put_fits q"
    and g: "get_or_alloc rv s = (r, rv', s')" and w: "put_at E q r s' = (x, s'')"
  note e = extends_log_alloc [OF a g]
  have "txn_inv n rv' s''"
    using txn_put [of n rv s q r rv' s' E x s''] a \<open>put_fits q\<close> g w by (simp add: extends_log_def txn_post_def put_fits_small)
  then show "extends_log E n rs s0 rv' s''"
    using put_at_logged [of E _ s' r q] e a \<open>put_fits q\<close> w by (intro extends_log_step [OF e(1)]) (simp_all add: extends_log_def)
next
  fix rv rv' :: "u64 option" and s s' s'' :: store_state and r d y
  assume a: "extends_log E n rs s0 rv s" and g: "get_or_alloc rv s = (r, rv', s')"
    and w: "delete_range_at E d r s' = (y, s'')"
  note e = extends_log_alloc [OF a g]
  have "txn_inv n rv' s''" using txn_delete [of n rv s r rv' s' E d y s''] a g w by (simp add: extends_log_def txn_post_def)
  then show "extends_log E n rs s0 rv' s''"
    using delete_range_at_logged [of E _ s' r d] e a w by (intro extends_log_step [OF e(1)]) (simp_all add: extends_log_def)
qed auto

lemma expire_leases_logged:
  assumes "libs_ok E" and "live_log E rs s" and "unat (st_next_rev s) + length is < 2 ^ 64"
  shows "\<exists>xs. logged E rs s xs (snd (expire_leases E is s))"
  using assms(2-)
proof (induction "is" arbitrary: s rs)
  case Nil
  then have "logged E rs s [] s" by (simp add: logged_def notify_all_def)
  then show ?case by auto
next
  case (Cons i "is")
  define t where "t = s\<lparr>st_leases := bt_remove i (st_leases s)\<rparr>"
  have s: "store_ok s" "durable (\<lambda>v. v) E s" using Cons.prems(1) by (simp_all add: live_log_def)
  have t: "store_ok t" "durable (\<lambda>v. v) E t" "st_next_rev t = st_next_rev s"
    using store_ok_remove_lease [OF s(1)] durable_cong [OF s(2), of t] by (simp_all add: t_def)
  have lt: "logged E rs s [] t" using t by (intro logged_idle [OF Cons.prems(1)]) (simp_all add: t_def)
  then have ll: "live_log E rs t" by (simp add: logged_def)
  have n: "st_next_rev t \<noteq> - 1" using Cons.prems(2) t(3) by (auto simp: unat_max)
  define r where "r = delete_keys_for_lease E (word_of_int i) t"
  note c = delete_keys_for_lease_correct [OF t(1) n, of E "word_of_int i", folded r_def]
  obtain xs where xs: "logged E rs t xs (snd r)" unfolding r_def using lease_keys_logged [OF assms(1) ll n] by blast
  have "unat (st_next_rev (snd r)) + length is < 2 ^ 64"
    using c Cons.prems(2) t(3) unat_word_plus_bool [of "st_next_rev s" "length (i # is)"] by simp
  moreover have "live_log E (rs @ xs) (snd r)" using xs by (simp add: logged_def)
  ultimately obtain ys where "logged E (rs @ xs) (snd r) ys (snd (expire_leases E is (snd r)))" using Cons.IH by blast
  moreover have "expire_leases E (i # is) s = expire_leases E is (snd r)"
    using c by (cases r; cases "fst r") (simp_all add: t_def [symmetric] r_def [symmetric])
  ultimately show ?case using logged_trans lt xs by (metis append_Nil2)
qed

lemma logged_notify: "logged E rs s xs t \<Longrightarrow> logged E rs s xs (t\<lparr>st_expiry_notify := b\<rparr>)"
  using live_log_cong [of E "rs @ xs" t "t\<lparr>st_expiry_notify := b\<rparr>"] by (simp add: logged_def)

text \<open>Every step of the store that leaves the registrations alone is logged.\<close>

lemma lease_revoke_logged:
  assumes "libs_ok E" and "live_log E rs s" and "st_next_rev s \<noteq> - 1"
  shows "\<exists>xs. logged E rs s xs (snd (lease_revoke E lease_id s))"
proof (cases "has_lease s lease_id")
  case True
  define t where "t = s\<lparr>st_leases := bt_remove (sint lease_id) (st_leases s), st_expiry_notify := True\<rparr>"
  have s: "store_ok s" "durable (\<lambda>v. v) E s" using assms(2) by (simp_all add: live_log_def)
  have "store_ok t" "durable (\<lambda>v. v) E t"
    using store_ok_remove_lease [OF s(1)] durable_idle [OF s(2), of t] by (simp_all add: t_def)
  then have t: "logged E rs s [] t" by (intro logged_idle [OF assms(2)]) (simp_all add: t_def)
  have "snd (lease_revoke E lease_id s) = snd (delete_keys_for_lease E lease_id t)"
    using True by (simp add: lease_revoke_def t_def [symmetric] split: prod.splits res.splits)
  moreover have "live_log E rs t" "st_next_rev t \<noteq> - 1" using t assms(3) by (simp_all add: logged_def t_def)
  ultimately show ?thesis using lease_keys_logged [OF assms(1)] logged_trans [OF t] by fastforce
next
  case False
  then have "logged E rs s [] (snd (lease_revoke E lease_id s))"
    using assms(2) by (simp add: lease_revoke_def logged_def notify_all_def)
  then show ?thesis by blast
qed

lemma expiry_logged:
  assumes "libs_ok E" and "live_log E rs s" and "unat (st_next_rev s) + length (st_leases s) < 2 ^ 64"
  shows "\<exists>xs. logged E rs s xs (snd (expiry_step E now s))"
proof -
  have "length (expired_ids now s) \<le> length (st_leases s)" by (simp add: expired_ids_def bt_iter_def)
  with assms(3) have n: "unat (st_next_rev s) + length (expired_ids now s) < 2 ^ 64" by linarith
  obtain x t where t: "expire_leases E (expired_ids now s) s = (x, t)" by fastforce
  with expire_leases_logged [OF assms(1,2) n] obtain xs where xs: "logged E rs s xs t" by auto
  have "logged E rs s [] s" using assms(2) by (simp add: logged_def notify_all_def)
  then show ?thesis using xs logged_notify [OF xs, of True] t by (cases x) (auto simp: expiry_step_def Let_def)
qed

lemma lease_request_outbox:
  "st_outbox (snd (lease_grant now req s)) = st_outbox s" "st_outbox (snd (lease_keep_alive now lease_id s)) = st_outbox s"
  by (auto simp: lease_grant_def lease_keep_alive_def alloc_lease_id_def Let_def
      split: res.splits option.splits if_splits prod.splits)

lemma store_step_logged:
  assumes "store_step E s s'" and "libs_ok E" and "live_log E rs s" and "st_watchers s' = st_watchers s"
  shows "\<exists>xs. logged E rs s xs s'"
proof -
  have s: "store_ok s" "durable (\<lambda>v. v) E s" using assms(3) by (simp_all add: live_log_def)
  have ok: "store_ok s'" "durable (\<lambda>v. v) E s'" using store_step_durable [OF assms(1,2) s] by simp_all
  have idle: "\<exists>xs. logged E rs s xs s'"
    if "st_keys s' = st_keys s" "wf_content (st_wal s') = wf_content (st_wal s)" "st_outbox s' = st_outbox s"
    using logged_idle [OF assms(3) ok that(1,2) assms(4) that(3)] by blast
  have al: "logged E rs s [] t" "live_log E rs t" "at_rev (st_next_rev s) t"
    if "t = snd (alloc_revision s)" "st_next_rev s \<noteq> - 1" for t
    using logged_alloc [OF assms(3) that(2)] alloc_revision_at [OF s(1) that(2)] that(1) by (simp_all add: logged_def)
  from assms(1) show ?thesis
  proof cases
    case (put_step req)
    then show ?thesis
      using put_at_logged [OF assms(2) al(2,3) [OF refl]] logged_trans [OF al(1) [OF refl]] idle
      by (cases "validate_put req s") (fastforce simp: put_unfold)+
  next
    case (delete_range_step req)
    then show ?thesis
      using delete_range_at_logged [OF assms(2) al(2,3) [OF refl]] logged_trans [OF al(1) [OF refl]] idle
      by (cases "check_key (dr_key req)") (fastforce simp: delete_range_unfold)+
  next
    case (txn_step req env)
    have "extends_log E (st_next_rev s) rs s None s"
      using txn_step assms(2,3) s by (auto simp: extends_log_def txn_inv_def logged_def notify_all_def intro!: exI [of _ "[]"])
    from log.txn_state [OF this txn_step(2,3), of env] show ?thesis by (auto simp: txn_step extends_log_def)
  next
    case (compact_step r)
    then show ?thesis by (intro idle) (simp_all add: compact_def Let_def)
  next
    case (lease_grant_step now req)
    then show ?thesis by (intro idle) (simp_all add: lease_request_frame lease_request_outbox)
  next
    case (lease_revoke_step lease_id)
    then show ?thesis using lease_revoke_logged [OF assms(2,3)] by simp
  next
    case (lease_keep_alive_step now lease_id)
    then show ?thesis by (intro idle) (simp_all add: lease_request_frame lease_request_outbox)
  next
    case (expiry_task_step now)
    then show ?thesis using expiry_logged [OF assms(2,3)] by simp
  next
    case (fsync_task_step synced)
    then show ?thesis by (intro idle) (simp_all add: fsync_step_def)
  next
    case (register_step reg)
    then show ?thesis by (intro idle) (simp_all add: register_watcher_def Let_def)
  next
    case (cancel_step watch_id)
    then show ?thesis by (intro idle) (simp_all add: cancel_watcher_def Let_def)
  qed
qed

section \<open>Sequences of steps\<close>

text \<open>A step that leaves the registrations alone, with the records it adds to the log: a put, a range
  deletion, a transaction, a lease request, a round of a background task, whatever they answer.\<close>

definition write_step :: "libs \<Rightarrow> store_state \<Rightarrow> kv_wal_record list \<Rightarrow> store_state \<Rightarrow> bool" where
  "write_step E s xs s' \<longleftrightarrow> store_step E s s' \<and> st_watchers s' = st_watchers s
     \<and> wf_content (st_wal s') = wf_content (st_wal s) @ log_bytes xs \<and> (\<forall>x \<in> set xs. rec_wf E x)"

inductive write_steps :: "libs \<Rightarrow> store_state \<Rightarrow> kv_wal_record list \<Rightarrow> store_state \<Rightarrow> bool" for E where
  none: "write_steps E s [] s"
| step: "write_steps E s xs t \<Longrightarrow> write_step E t ys s' \<Longrightarrow> write_steps E s (xs @ ys) s'"

lemma log_bytes_inject:
  assumes "\<forall>r \<in> set rs. rec_wf E r" and "\<forall>r \<in> set rs'. rec_wf E r" and "log_bytes rs = log_bytes rs'"
  shows "rs = rs'"
proof -
  have "scan_kv_loop E (log_bytes rs @ []) 0 = (rs, snd (scan_kv_loop E [] (length (log_bytes rs))))"
    "scan_kv_loop E (log_bytes rs' @ []) 0 = (rs', snd (scan_kv_loop E [] (length (log_bytes rs'))))"
    using scan_log_append [OF assms(1), of "[]" 0] scan_log_append [OF assms(2), of "[]" 0]
      scan_short [of "[]"] by simp_all
  then show ?thesis using assms(3) by simp
qed

lemma live_log_ok:
  assumes "libs_ok E" and "live_log E rs s"
  shows "log_ok E (st_next_rev s) rs"
proof -
  obtain rs' where rs': "log_bytes rs = log_bytes rs'" "log_ok E (st_next_rev s) rs'"
    using assms(2) by (auto simp: live_log_def durable_def)
  then have "\<forall>r \<in> set rs'. rec_wf E r" using rec_made_wf [OF assms(1)] by (auto simp: log_ok_def)
  with log_bytes_inject [of rs E rs'] rs' assms(2) show ?thesis by (auto simp: live_log_def)
qed

lemma write_step_logged:
  assumes "libs_ok E" and "write_step E s xs s'" and "live_log E rs s"
  shows "logged E rs s xs s'"
proof -
  from assms(2) have w: "store_step E s s'" "st_watchers s' = st_watchers s"
    "wf_content (st_wal s') = log_bytes (rs @ xs)" "\<forall>x \<in> set xs. rec_wf E x"
    using assms(3) by (simp_all add: write_step_def live_log_def)
  obtain ys where ys: "logged E rs s ys s'" using store_step_logged [OF w(1) assms(1,3) w(2)] by blast
  then have "log_bytes ys = log_bytes xs" "\<forall>y \<in> set ys. rec_wf E y" using w(3) by (simp_all add: logged_def live_log_def)
  then have "ys = xs" using w(4) log_bytes_inject by blast
  with ys show ?thesis by simp
qed

lemma write_steps_logged:
  assumes "libs_ok E" and "write_steps E s xs s'" and "live_log E rs s"
  shows "logged E rs s xs s'"
  using assms(2,3)
proof (induction arbitrary: rs rule: write_steps.induct)
  case (none s)
  then show ?case by (simp add: logged_def notify_all_def)
next
  case (step s xs t ys s')
  from step.IH [OF step.prems] have t: "logged E rs s xs t" .
  then have "live_log E (rs @ xs) t" by (simp add: logged_def)
  from logged_trans [OF t write_step_logged [OF assms(1) step.hyps(2) this]] show ?case .
qed

text \<open>What is logged later has later revisions.\<close>

lemma write_steps_durable:
  assumes "libs_ok E" and "write_steps E s xs s'" and "store_ok s" and "durable_from B p E s"
  shows "store_ok s' \<and> durable_from B p E s'"
  using assms(2-)
proof (induction rule: write_steps.induct)
  case (step s xs t ys s')
  then show ?case using store_step_durable [of E t s' B p] assms(1) by (auto simp: write_step_def)
qed simp

lemma write_steps_later:
  assumes "libs_ok E" and "write_steps E s xs s'" and "live_log E rs s"
  shows "\<forall>x \<in> set xs. st_next_rev s \<le> rec_rev x"
proof -
  have "durable_from (base_at s) (\<lambda>v. v) E s'"
    using write_steps_durable [OF assms(1,2), of "base_at s" "\<lambda>v. v"] durable_base_at assms(3) by (auto simp: live_log_def)
  moreover have l: "live_log E (rs @ xs) s'" using write_steps_logged [OF assms] by (simp add: logged_def)
  ultimately obtain ys where ys: "log_bytes xs = log_bytes ys"
    "\<forall>y \<in> set ys. rec_made E (st_next_rev s') y \<and> st_next_rev s \<le> rec_rev y"
    using assms(3) by (auto simp: durable_from_def base_at_def live_log_def log_ok_def)
  then have "xs = ys" using l rec_made_wf [OF assms(1)] by (intro log_bytes_inject [of _ E]) (auto simp: live_log_def)
  with ys(2) show ?thesis by simp
qed

section \<open>Examples\<close>

text \<open>The empty store satisfies the invariant.\<close>

lemma live_log_new: "wf_content w = [] \<Longrightarrow> wf_faults w = [] \<Longrightarrow> live_log E [] (StoreState_new w)"
proof -
  assume w: "wf_content w = []" "wf_faults w = []"
  have g: "get_alive (StoreState_new w) k = None" "bt_get (st_keys (StoreState_new w)) k = None" for k
    by (simp_all add: get_alive_def StoreState_new_def bt_get_def)
  then have v: "view_of (StoreState_new w) = (\<lambda>_. None)" by (simp add: view_of_def fun_eq_iff)
  have st: "st_wal (StoreState_new w) = w" by (simp add: StoreState_new_def)
  have "log_ok E (st_next_rev (StoreState_new w)) []" by (simp add: log_ok_def revs_ok_def)
  then have "durable (\<lambda>v. v) E (StoreState_new w)"
    using w stable_id st by (auto simp: durable_def v intro!: exI [of _ "[]"])
  then show ?thesis using w by (simp add: live_log_def store_ok_new mirror_def past_def g log_value_def st)
qed

lemma put_write_step:
  assumes "put E req s = (Ok resp, s')" and "libs_ok E" and "put_fits req" and "fits (pr_key req) (put_value req s)"
    and "st_next_rev s \<noteq> - 1"
  shows "write_steps E s [put_record E req (st_next_rev s) s] s'"
proof -
  let ?x = "put_record E req (st_next_rev s) s"
  have st: "store_step E s s'" using store_step.put_step [OF assms(3,5), of E] assms(1) by simp
  have v: "validate_put req s = Ok ()"
    using assms(1) by (cases "validate_put req s") (simp_all add: put_def)
  have e: "put_at E req (st_next_rev s) (snd (alloc_revision s)) = (Ok resp, s')" using assms(1) v by (simp add: put_unfold)
  then have c: "wf_content (st_wal s') = wf_content (st_wal s) @ log_bytes [?x]"
    using put_at_log [of E req "st_next_rev s" "snd (alloc_revision s)"] by simp
  have "rec_wf E ?x" unfolding put_record_def using rec_new_facts [OF assms(2,4)] by simp
  moreover have "st_watchers s' = st_watchers s"
    using e by (auto simp: put_at_eq apply_put_eq Let_def split: if_splits prod.splits sum.splits)
  ultimately have "write_step E s [?x] s'" using st c by (simp add: write_step_def)
  then show ?thesis using write_steps.step [OF write_steps.none] by fastforce
qed

lemma demo_put_step:
  assumes "st_keys s = []" and "st_next_rev s = 1" and "wf_faults (st_wal s) = []"
  shows "\<exists>s'. write_steps ref_libs s [put_record ref_libs (demo_put [1] [2]) 1 s] s'"
proof -
  have "is_ok (fst (put ref_libs (demo_put [1] [2]) s))"
    using assms by (simp add: put_unfold validate_put_def demo_put_def check_key_def put_at_eq
        put_reuses_missing_def put_lease_missing_def put_lease_def append_kv_no_fault Let_def)
  then obtain resp s' where "put ref_libs (demo_put [1] [2]) s = (Ok resp, s')"
    by (cases "put ref_libs (demo_put [1] [2]) s"; cases "fst (put ref_libs (demo_put [1] [2]) s)") auto
  from put_write_step [OF this libs_ok_ref] assms(2) show ?thesis
    by (auto simp: put_fits_def fits_def demo_put_def put_value_def)
qed

text \<open>Puts of the key \<open>[1]\<close>, for examples.\<close>

lemma demo_put_run:
  assumes "store_ok s" and "wf_faults (st_wal s) = []" and "st_next_rev s \<noteq> - 1" and "length v < 2 ^ 16"
  shows "\<exists>resp s'. put ref_libs (demo_put [1] v) s = (Ok resp, s') \<and> store_ok s' \<and> wf_faults (st_wal s') = []
    \<and> st_next_rev s' = st_next_rev s + 1 \<and> st_compact_rev s' = st_compact_rev s
    \<and> view_of s' = spec_put [1] v 0 (st_next_rev s) (view_of s)"
proof -
  let ?q = "demo_put [1] v"
  define s' where "s' = snd (put ref_libs ?q s)"
  have o: "validate_put ?q s = Ok ()" "\<not> put_reuses_missing ?q s" "\<not> put_lease_missing ?q s"
    by (simp_all add: validate_put_def demo_put_def check_key_def put_reuses_missing_def put_lease_missing_def put_lease_def)
  then obtain resp where p: "put ref_libs ?q s = (Ok resp, s')"
    using assms(2) by (simp add: s'_def put_unfold put_at_eq append_kv_no_fault Let_def)
  have "wf_faults (st_wal s') = []" "st_next_rev s' = st_next_rev s + 1" "st_compact_rev s' = st_compact_rev s"
    using o assms(2) by (simp_all add: s'_def put_unfold put_at_eq append_kv_no_fault apply_put_eq Let_def)
  moreover have "put_value ?q s = v" "put_lease ?q s = 0" "pr_key ?q = [1]" "put_small ?q"
    using assms(4) by (simp_all add: put_value_def put_lease_def demo_put_def put_small_def)
  then have "store_ok s'" "view_of s' = spec_put [1] v 0 (st_next_rev s) (view_of s)"
    using put_correct [OF assms(1,3), of ?q ref_libs] p by simp_all
  ultimately show ?thesis using p by blast
qed

lemma demo_state_log: "\<exists>x. write_steps ref_libs (StoreState_new demo_wal) [x] demo_state"
proof -
  let ?s = "StoreState_new demo_wal"
  have n: "st_next_rev ?s \<noteq> - 1" "fits (pr_key (demo_put [1] [2])) (put_value (demo_put [1] [2]) ?s)"
    by (simp_all add: StoreState_new_def demo_put_def put_value_def fits_def)
  obtain resp where "put ref_libs (demo_put [1] [2]) ?s = (Ok resp, demo_state)"
    using demo_put_run [OF store_ok_new, of demo_wal "[2]"] n
    by (auto simp: demo_state_def) (auto simp: demo_wal_def StoreState_new_def)
  from put_write_step [OF this libs_ok_ref demo_fits(1) n(2,1)] show ?thesis by blast
qed

end
