(* ===== verification/Crash.thy ===== *)
theory Crash
  imports Log_Mirror
begin

text \<open>
  Crashes.  The log is written record by record and synced in the background, so a crash leaves any
  prefix of its bytes.  Start-up then recovers the state of a prefix of the records.  It does not cut the torn
  record off the file, though, and what is appended behind it can be lost at the next start.
\<close>

section \<open>Prefixes of a log\<close>

lemma take_log_bytes:
  "\<exists>m j. m \<le> length rs \<and> take n (log_bytes rs) = log_bytes (take m rs) @ take j (if m < length rs then serialize (rs ! m) else [])
     \<and> length (log_bytes (take m rs)) \<le> n
     \<and> (m < length rs \<longrightarrow> j < length (serialize (rs ! m)) \<and> n < length (log_bytes (take (Suc m) rs)))"
proof (induction rs arbitrary: n)
  case (Cons r rs)
  show ?case
  proof (cases "n < length (serialize r)")
    case True
    then show ?thesis by (intro exI [of _ 0] exI [of _ n]) simp
  next
    case False
    from Cons.IH [of "n - length (serialize r)"] obtain m j where
      "m \<le> length rs"
      "take (n - length (serialize r)) (log_bytes rs) = log_bytes (take m rs) @ take j (if m < length rs then serialize (rs ! m) else [])"
      "length (log_bytes (take m rs)) \<le> n - length (serialize r)"
      "m < length rs \<longrightarrow> j < length (serialize (rs ! m)) \<and> n - length (serialize r) < length (log_bytes (take (Suc m) rs))"
      by blast
    with False show ?thesis by (intro exI [of _ "Suc m"] exI [of _ j]) auto
  qed
qed simp

lemma log_ok_prefix: "log_ok E N (rs @ xs) \<Longrightarrow> log_ok E N rs"
  by (simp add: log_ok_def revs_ok_def sorted_wrt_append)

lemma live_log_view:
  assumes "libs_ok E" and "live_log E rs s"
  shows "view_of s = replay_spec E rs"
proof -
  have id: "proj (\<lambda>v. v) m = m" for m by (rule ext) (simp add: proj_def option.map_ident)
  obtain rs' where rs': "log_bytes rs = log_bytes rs'" "log_ok E (st_next_rev s) rs'" "replay_spec E rs' = view_of s"
    using assms(2) by (auto simp: live_log_def durable_def id)
  then have "rs = rs'" using assms rec_made_wf [OF assms(1)]
    by (intro log_bytes_inject [of _ E]) (auto simp: live_log_def log_ok_def)
  with rs'(3) show ?thesis by simp
qed

section \<open>Properties\<close>

text \<open>C7. Crash recovery: when requests and background rounds follow a state whose log had reached the disk, and
  the machine stops with any number of the bytes written since, start-up succeeds with a well-formed store that shows that
  state changed by exactly those of the later records that are complete.\<close>

theorem crash_recovery:
  assumes "libs_ok E" and "live_log E rs s" and "write_steps E s xs s'"
    and "length (wf_content (st_wal s)) \<le> n" and "now < 2 ^ 62 * 1000000000"
  shows "\<exists>m s''. m \<le> length xs
    \<and> open_store E path (Some (take n (wf_content (st_wal s')))) [] now = Inr (Ok s'') \<and> store_ok s''
    \<and> view_of s'' = foldl (rec_spec E) (view_of s) (take m xs)
    \<and> length (log_bytes (rs @ take m xs)) \<le> n
    \<and> (m = length xs \<or> n < length (log_bytes (rs @ take (Suc m) xs)))"
proof -
  have c: "wf_content (st_wal s) = log_bytes rs" using assms(2) by (simp add: live_log_def)
  have l: "live_log E (rs @ xs) s'" using write_steps_logged [OF assms(1,3,2)] by (simp add: logged_def)
  then have c': "wf_content (st_wal s') = log_bytes rs @ log_bytes xs" and wf: "\<forall>x \<in> set xs. rec_wf E x"
    by (auto simp: live_log_def)
  obtain m j where m: "m \<le> length xs" "length (log_bytes (take m xs)) \<le> n - length (log_bytes rs)"
    "take (n - length (log_bytes rs)) (log_bytes xs) = log_bytes (take m xs) @ take j (if m < length xs then serialize (xs ! m) else [])"
    "m < length xs \<longrightarrow> j < length (serialize (xs ! m)) \<and> n - length (log_bytes rs) < length (log_bytes (take (Suc m) xs))"
    using take_log_bytes [of xs "n - length (log_bytes rs)"] by blast
  define tail where "tail = take j (if m < length xs then serialize (xs ! m) else [])"
  have t: "\<forall>cur. scan_kv_loop E tail cur = ([], Inr cur)"
    using m(4) wf scan_torn [of E "xs ! m" j] by (auto simp: tail_def)
  have f: "take n (wf_content (st_wal s')) = log_bytes (rs @ take m xs) @ tail"
    using assms(4) m(3) by (simp add: c c' tail_def)
  have "log_ok E (st_next_rev s') ((rs @ take m xs) @ drop m xs)" using live_log_ok [OF assms(1) l] by simp
  then have "log_ok E (st_next_rev s') (rs @ take m xs)" by (rule log_ok_prefix)
  from open_store_state [OF assms(1) this t assms(5), of path "[]"] obtain s'' where
    "open_store E path (Some (take n (wf_content (st_wal s')))) [] now = Inr (Ok s'')" "store_ok s''"
    "view_of s'' = replay_spec E (rs @ take m xs)" unfolding f by blast
  moreover have "replay_spec E (rs @ take m xs) = foldl (rec_spec E) (view_of s) (take m xs)"
    by (simp add: live_log_view [OF assms(1,2)] replay_spec_append)
  ultimately show ?thesis using m(1,2,4) assms(4) c by (intro exI [of _ m] exI [of _ s'']) auto
qed

lemma crash_recovery_witness:
  "\<exists>x s'' m. write_steps ref_libs (StoreState_new demo_wal) [x] demo_state
     \<and> open_store ref_libs ''wal'' (Some (take 7 (wf_content (st_wal demo_state)))) [] 5 = Inr (Ok s'')
     \<and> view_of s'' = foldl (rec_spec ref_libs) (view_of (StoreState_new demo_wal)) (take m [x])"
proof -
  obtain x where x: "write_steps ref_libs (StoreState_new demo_wal) [x] demo_state" using demo_state_log by blast
  have l: "live_log ref_libs [] (StoreState_new demo_wal)" by (rule live_log_new) (simp_all add: demo_wal_def)
  have "length (wf_content (st_wal (StoreState_new demo_wal))) \<le> 7" by (simp add: StoreState_new_def demo_wal_def)
  from crash_recovery [OF libs_ok_ref l x this, of 5 "''wal''"] x show ?thesis by auto
qed

text \<open>What follows a torn record is read as part of it.\<close>

lemma scan_torn_append:
  assumes "rec_wf E r" and "9 \<le> n" and "n + length rest < length (serialize r)"
  shows "scan_kv_loop E (take n (serialize r) @ rest) cur = ([], Inr cur)"
proof -
  have "unat (rec_rec_len r) = length (serialize r)" "13 \<le> length (serialize r)"
    using assms(1) by (simp_all add: rec_wf_len length_serialize)
  moreover have "length (take n (serialize r) @ rest) = n + length rest" using assms(3) by simp
  moreover have "from_le_bytes [take 9 (take n (serialize r) @ rest) ! 5, take 9 (take n (serialize r) @ rest) ! 6,
      take 9 (take n (serialize r) @ rest) ! 7, take 9 (take n (serialize r) @ rest) ! 8] = rec_rec_len r"
    using header_rec_len [of n r rest] assms(2,3) by (simp add: nth_append)
  ultimately show ?thesis using assms(2,3)
    by (simp add: scan_kv_loop.simps [of E "take n (serialize r) @ rest"] size_defs del: take_append nth_append)
qed

text \<open>C32. A crash that leaves a torn record costs later writes: start-up keeps the torn bytes in the file, so a
  put that is accepted and visible afterwards is taken for the rest of the torn record at the next start and is
  gone, as long as the bytes written since are fewer than the torn record misses.\<close>

theorem torn_tail_loses_put:
  assumes "libs_ok E" and "log_ok E N rs" and "rec_wf E r" and "9 \<le> n" and "n < length (serialize r)"
    and "open_store E path (Some (log_bytes rs @ take n (serialize r))) [] now = Inr (Ok s)"
    and "now < 2 ^ 62 * 1000000000" and "now' < 2 ^ 62 * 1000000000"
    and "put E req s = (Ok resp, s')" and "put_fits req" and "st_next_rev s \<noteq> - 1"
    and "n + length (serialize (put_record E req (st_next_rev s) s)) < length (serialize r)"
  shows "view_of s' = spec_put (pr_key req) (put_value req s) (put_lease req s) (st_next_rev s) (view_of s)
    \<and> (\<exists>s''. open_store E path (Some (wf_content (st_wal s'))) [] now' = Inr (Ok s'') \<and> view_of s'' = view_of s)"
proof -
  let ?x = "put_record E req (st_next_rev s) s" and ?t = "take n (serialize r)"
  have "\<forall>cur. scan_kv_loop E ?t cur = ([], Inr cur)" using scan_torn [OF assms(3,5)] by simp
  from open_store_state [OF assms(1,2) this assms(7), of path "[]"] assms(6)
  have s: "store_ok s" "view_of s = replay_spec E rs" "st_wal s = WalFile_open path (Some (log_bytes rs @ ?t)) []" by auto
  have v: "view_of s' = spec_put (pr_key req) (put_value req s) (put_lease req s) (st_next_rev s) (view_of s)"
    using put_correct [OF s(1) assms(11) put_fits_small [OF assms(10)], of E] assms(9) by simp
  have "validate_put req s = Ok ()"
    using assms(9) by (cases "validate_put req s") (simp_all add: put_unfold)
  then have "put_at E req (st_next_rev s) (snd (alloc_revision s)) = (Ok resp, s')"
    using assms(9) by (simp add: put_unfold)
  then have w: "wf_content (st_wal s') = log_bytes rs @ ?t @ serialize ?x"
    using put_at_log [of E req "st_next_rev s" "snd (alloc_revision s)"] s(3) by (simp add: WalFile_open_def)
  have "\<forall>cur. scan_kv_loop E (?t @ serialize ?x) cur = ([], Inr cur)"
    using scan_torn_append [OF assms(3,4,12)] by simp
  from open_store_state [OF assms(1,2) this assms(8), of path "[]"] v s(2) show ?thesis by (auto simp: w)
qed

text \<open>A put of a value of 300 bytes is torn after 20 bytes; the put after the restart is lost.\<close>

definition demo_big :: kv_wal_record where
  "demo_big = KvWalRecord_new ref_libs 2 [1] (replicate 300 7) 1 1 1 0"

lemma torn_tail_loses_put_witness:
  "\<exists>s s' resp s''. open_store ref_libs ''wal'' (Some (take 20 (serialize demo_big))) [] 5 = Inr (Ok s)
     \<and> put ref_libs (demo_put [1] [2]) s = (Ok resp, s') \<and> view_of s' [1] \<noteq> None
     \<and> open_store ref_libs ''wal'' (Some (wf_content (st_wal s'))) [] 6 = Inr (Ok s'') \<and> view_of s'' [1] = None"
proof -
  have small: "length (encode_varint a) + (length (encode_varint b) + length (encode_varint c)) < 159" for a b c :: u64
    using length_encode_varint(2) [of a] length_encode_varint(2) [of b] length_encode_varint(2) [of c] by linarith
  have f: "fits [1] (replicate 300 7)" by (simp add: fits_def)
  have wf: "rec_wf ref_libs demo_big" unfolding demo_big_def using rec_new_facts [OF libs_ok_ref f] by simp
  have big: "300 < length (serialize demo_big)"
    by (simp add: demo_big_def length_serialize codec_simps length_kv_blob)
  have log: "log_ok ref_libs 2 []" by (simp add: log_ok_def revs_ok_def)
  have "\<forall>cur. scan_kv_loop ref_libs (take 20 (serialize demo_big)) cur = ([], Inr cur)"
    using scan_torn [OF wf, of 20] big by simp
  from open_store_state [OF libs_ok_ref log this, of 5 "''wal''" "[]"] obtain s where
    s: "open_store ref_libs ''wal'' (Some (take 20 (serialize demo_big))) [] 5 = Inr (Ok s)" "store_ok s"
    "st_next_rev s = 1" "view_of s = (\<lambda>_. None)" "wf_faults (st_wal s) = []"
    by (auto simp: max_rev_of_def WalFile_open_def)
  obtain resp s' where p: "put ref_libs (demo_put [1] [2]) s = (Ok resp, s')"
    using demo_put_run [OF s(2,5), of "[2]"] s(3) by auto
  have "length (serialize (put_record ref_libs (demo_put [1] [2]) 1 s)) < 200"
    using small by (simp add: put_record_def length_serialize codec_simps length_kv_blob put_value_def demo_put_def)
  then have len: "20 + length (serialize (put_record ref_libs (demo_put [1] [2]) (st_next_rev s) s)) < length (serialize demo_big)"
    using big s(3) by simp
  have "view_of s' = spec_put [1] [2] 0 1 (\<lambda>_. None)
      \<and> (\<exists>s''. open_store ref_libs ''wal'' (Some (wf_content (st_wal s'))) [] 6 = Inr (Ok s'') \<and> view_of s'' = (\<lambda>_. None))"
    using torn_tail_loses_put [OF libs_ok_ref log wf _ _ _ _ _ p demo_fits(1) _ len, of "''wal''" 5 6] s big
    by (simp add: put_value_def put_lease_def demo_put_def)
  then show ?thesis using s(1) p by (auto simp: spec_put_def)
qed

end
