(* ===== verification/History.thy ===== *)
theory History
  imports Log_Mirror
begin

text \<open>
  Reads of the past (\<^verbatim>\<open>range_historical\<close> of \<^verbatim>\<open>src/storage/store.rs\<close>): a read at an earlier revision answers
  what a read of the current state would have answered then, as long as no key of the range has been
  created again after a deletion; the code loses the earlier life of such a key once it is written twice.
\<close>

section \<open>The log at an earlier revision\<close>

lemma log_value_later: "\<forall>y \<in> set ys. t < rec_rev y \<Longrightarrow> log_value t (rs @ ys) k = log_value t rs k"
  by (induction ys rule: rev_induct) (auto simp: log_value_snoc simp flip: append_assoc)

lemma log_value_top:
  assumes "\<forall>r \<in> set rs. rec_rev r \<le> t"
  shows "log_value t rs k = log_value (- 1) rs k"
proof -
  have "filter (\<lambda>r. rec_key r = Some k \<and> rec_rev r \<le> t) rs = filter (\<lambda>r. rec_key r = Some k \<and> rec_rev r \<le> - 1) rs"
    using assms by (auto intro!: filter_cong)
  then show ?thesis by (simp only: log_value_def)
qed

section \<open>The first phase\<close>

lemma hist_scan_rows:
  assumes "bt_ok m" and "\<not> bad_bound b" and "btree_bounds b = (lo, hi)"
  shows "\<exists>es. bt_range lo hi m = Some es
    \<and> takeWhile (\<lambda>e. \<not> leaves_prefix (prefix_of_bound b) (fst e)) es = filter (\<lambda>e. matches_range b (fst e)) m"
proof (cases b)
  case (Point k)
  have "k \<le> x \<and> x < k @ [0] \<longleftrightarrow> x = k" for x :: bytes
    using matches_range_interval [of "Point k" x] by (simp add: point_interval_def in_interval_def)
  moreover have "\<not> k @ [0] < k" using \<open>\<And>x. k \<le> x \<and> x < k @ [0] \<longleftrightarrow> x = k\<close> [of k] by auto
  ultimately show ?thesis using assms Point
    by (auto simp: bt_range_def leaves_prefix_def takeWhile_eq_all_conv)
next
  case (Prefix p)
  then show ?thesis using assms takeWhile_prefix [OF assms(1), of p] by (auto simp: bt_range_def leaves_prefix_def)
qed (use assms in \<open>auto simp: bt_range_def leaves_prefix_def takeWhile_eq_all_conv split: if_splits\<close>)

definition hist_row :: "range_request \<Rightarrow> u64 \<Rightarrow> bytes \<times> key_state \<Rightarrow> (bytes \<times> bytes) list \<times> bytes list" where
  "hist_row req t e = (if ks_delete_revision (snd e) \<noteq> 0 then hist_deleted_row req t (fst e) (snd e)
     else hist_live_row req t (fst e) (snd e))"

lemma hist_phase1_eq:
  "hist_phase1 req t pk es =
     (let rows = takeWhile (\<lambda>e. \<not> leaves_prefix pk (fst e)) es
      in (concat (map (\<lambda>e. fst (hist_row req t e)) rows), concat (map (\<lambda>e. snd (hist_row req t e)) rows)))"
  by (induction es) (auto simp: hist_row_def Let_def split: prod.splits)

definition no_filters :: "range_request \<Rightarrow> bool" where
  "no_filters req \<longleftrightarrow> sint (rr_min_mod_revision req) \<le> 0 \<and> sint (rr_max_mod_revision req) \<le> 0
     \<and> sint (rr_min_create_revision req) \<le> 0 \<and> sint (rr_max_create_revision req) \<le> 0"

lemma no_filters_row: "no_filters req \<Longrightarrow> \<not> row_filtered req ks"
  by (auto simp: no_filters_def row_filtered_def)

text \<open>Each row of a key in its first life is settled at once, left to the log, or dropped, as the log says.\<close>

lemma hist_row_past:
  assumes "row_past rs k ks" and "one_life rs k" and "no_filters req" and "entry_ok nr k ks"
  shows "(\<exists>b. log_value t rs k = Some b \<and> hist_row req t (k, ks) = ([(k, row_blob req k b)], []))
    \<or> (log_value t rs k \<noteq> None \<and> hist_row req t (k, ks) = ([], [k]))
    \<or> (log_value t rs k = None \<and> hist_row req t (k, ks) = ([], []))"
  using assms no_filters_row [OF assms(3), of ks]
  unfolding row_past_def hist_row_def hist_deleted_row_def hist_live_row_def
  by (auto simp: not_le not_less)

text \<open>The rows of an earlier value of the keys.\<close>

definition past_rows :: "range_request \<Rightarrow> (bytes \<Rightarrow> bytes option) \<Rightarrow> (bytes, 'a) btree \<Rightarrow> (bytes, bytes) btree" where
  "past_rows req L m = List.map_filter (\<lambda>e. map_option (\<lambda>b. (fst e, row_blob req (fst e) b)) (L (fst e)))
     (filter (\<lambda>e. matches_range (rr_bound req) (fst e)) m)"

lemma set_past_rows:
  "(k, b) \<in> set (past_rows req L m) \<longleftrightarrow> k \<in> fst ` set m \<and> matches_range (rr_bound req) k
     \<and> map_option (row_blob req k) (L k) = Some b"
  by (force simp: past_rows_def map_filter_def)

lemma past_rows_ok:
  assumes "bt_ok m"
  shows "bt_ok (past_rows req L m)"
proof -
  have "map fst (past_rows req L m) = map fst (filter (\<lambda>e. matches_range (rr_bound req) (fst e) \<and> L (fst e) \<noteq> None) m)"
    by (induction m) (auto simp: past_rows_def map_filter_simps)
  with assms show ?thesis by (simp add: bt_ok_def sorted_wrt_map sorted_wrt_filter)
qed

lemma past_rows_get:
  assumes "bt_ok m" and "\<forall>k. L k \<noteq> None \<and> matches_range (rr_bound req) k \<longrightarrow> k \<in> fst ` set m"
  shows "bt_get (past_rows req L m) k =
    (if matches_range (rr_bound req) k then map_option (row_blob req k) (L k) else None)"
proof -
  have "bt_get (past_rows req L m) k = Some b \<longleftrightarrow> (k, b) \<in> set (past_rows req L m)" for b
    using bt.iter_get [OF past_rows_ok [OF assms(1)]] by (simp add: bt_iter_def)
  then have "bt_get (past_rows req L m) k = Some b \<longleftrightarrow>
      (if matches_range (rr_bound req) k then map_option (row_blob req k) (L k) else None) = Some b" for b
    using assms(2) by (auto simp: set_past_rows)
  then show ?thesis by (metis not_Some_eq)
qed

lemma row_blob_idem [simp]: "row_blob req k (row_blob req k b) = row_blob req k b"
  by (simp add: row_blob_def)

text \<open>What the first phase finds: \<open>L\<close> is the value of each key at the target revision.\<close>

definition settled :: "range_request \<Rightarrow> u64 \<Rightarrow> (bytes \<Rightarrow> bytes option) \<Rightarrow> (bytes, key_state) btree \<Rightarrow> bool" where
  "settled req t L m \<longleftrightarrow> (\<forall>e \<in> set m. matches_range (rr_bound req) (fst e) \<longrightarrow>
     (\<exists>b. L (fst e) = Some b \<and> hist_row req t e = ([(fst e, row_blob req (fst e) b)], []))
     \<or> (L (fst e) \<noteq> None \<and> hist_row req t e = ([], [fst e]))
     \<or> (L (fst e) = None \<and> hist_row req t e = ([], [])))"

definition hist_direct :: "range_request \<Rightarrow> u64 \<Rightarrow> (bytes, key_state) btree \<Rightarrow> (bytes \<times> bytes) list" where
  "hist_direct req t m = concat (map (\<lambda>e. fst (hist_row req t e)) (filter (\<lambda>e. matches_range (rr_bound req) (fst e)) m))"

definition hist_stale :: "range_request \<Rightarrow> u64 \<Rightarrow> (bytes, key_state) btree \<Rightarrow> bytes list" where
  "hist_stale req t m = concat (map (\<lambda>e. snd (hist_row req t e)) (filter (\<lambda>e. matches_range (rr_bound req) (fst e)) m))"

lemma settled_direct:
  assumes "settled req t L m" and "hist_stale req t m = []"
  shows "hist_direct req t m = past_rows req L m"
  using assms
  by (induction m) (auto simp: settled_def hist_direct_def hist_stale_def past_rows_def map_filter_simps)

lemma settled_sets:
  assumes "settled req t L m"
  shows "(k, b) \<in> set (hist_direct req t m) \<Longrightarrow> matches_range (rr_bound req) k \<and> map_option (row_blob req k) (L k) = Some b"
    and "k \<in> set (hist_stale req t m) \<Longrightarrow> matches_range (rr_bound req) k \<and> L k \<noteq> None"
    and "k \<in> fst ` set m \<Longrightarrow> matches_range (rr_bound req) k \<Longrightarrow> L k \<noteq> None \<Longrightarrow>
      k \<in> fst ` set (hist_direct req t m) \<or> k \<in> set (hist_stale req t m)"
proof -
  have s: "(\<exists>b. L (fst e) = Some b \<and> hist_row req t e = ([(fst e, row_blob req (fst e) b)], []))
      \<or> (L (fst e) \<noteq> None \<and> hist_row req t e = ([], [fst e])) \<or> (L (fst e) = None \<and> hist_row req t e = ([], []))"
    if "e \<in> set m" "matches_range (rr_bound req) (fst e)" for e
    using assms that by (simp add: settled_def)
  show "matches_range (rr_bound req) k \<and> map_option (row_blob req k) (L k) = Some b"
    if "(k, b) \<in> set (hist_direct req t m)"
  proof -
    from that obtain e where e: "e \<in> set m" "matches_range (rr_bound req) (fst e)" "(k, b) \<in> set (fst (hist_row req t e))"
      by (auto simp: hist_direct_def)
    from s [OF e(1,2)] e(2,3) show ?thesis by auto
  qed
  show "matches_range (rr_bound req) k \<and> L k \<noteq> None" if "k \<in> set (hist_stale req t m)"
  proof -
    from that obtain e where e: "e \<in> set m" "matches_range (rr_bound req) (fst e)" "k \<in> set (snd (hist_row req t e))"
      by (auto simp: hist_stale_def)
    from s [OF e(1,2)] e(2,3) show ?thesis by auto
  qed
  show "k \<in> fst ` set (hist_direct req t m) \<or> k \<in> set (hist_stale req t m)"
    if k: "k \<in> fst ` set m" "matches_range (rr_bound req) k" "L k \<noteq> None"
  proof -
    from k(1) obtain e where e: "e \<in> set m" "fst e = k" by auto
    then have "e \<in> set (filter (\<lambda>e. matches_range (rr_bound req) (fst e)) m)" using k(2) by simp
    then have "set (fst (hist_row req t e)) \<subseteq> set (hist_direct req t m)"
      and "set (snd (hist_row req t e)) \<subseteq> set (hist_stale req t m)"
      by (auto simp: hist_direct_def hist_stale_def)
    then have "fst ` set (fst (hist_row req t e)) \<subseteq> fst ` set (hist_direct req t m)"
      and "set (snd (hist_row req t e)) \<subseteq> set (hist_stale req t m)" by (simp_all add: image_mono)
    then show ?thesis using s [OF e(1)] e(2) k by auto
  qed
qed

section \<open>The merge\<close>

lemma merge_direct_get:
  "bt_ok (merge_direct req ds)
   \<and> ((\<forall>(k, b) \<in> set ds. F k = Some (row_blob req k b)) \<longrightarrow>
        bt_get (merge_direct req ds) k = (if k \<in> fst ` set ds then F k else None))"
  unfolding merge_direct_def
  by (induction ds rule: rev_induct) (auto simp: bt_ok_insert bt_get_insert bt.get_empty split: prod.splits)

lemma merge_stale_get:
  assumes "bt_ok m" and "\<forall>k \<in> set ks. bt_get w k \<noteq> None"
  shows "bt_ok (merge_stale req w \<sigma> i ks m)
    \<and> bt_get (merge_stale req w \<sigma> i ks m) k =
        (if k \<in> set ks then map_option (row_blob req k) (bt_get w k) else bt_get m k)"
  using assms by (induction ks arbitrary: m) (auto simp: bt_ok_insert bt_get_insert Let_def)

lemma merge_rest_id:
  assumes "\<forall>k. bt_get w k \<noteq> None \<longrightarrow> bt_get m k \<noteq> None" and "bt_ok w"
  shows "merge_rest req b w m = m"
proof -
  have "\<forall>e \<in> set w. bt_get m (fst e) \<noteq> None" using assms(1) bt.iter_get [OF assms(2)] by (fastforce simp: bt_iter_def)
  then show ?thesis unfolding merge_rest_def bt_iter_def by (induction w) (auto split: prod.splits)
qed

lemma merged_rows:
  assumes "settled req t L m" and "bt_ok m"
    and "\<forall>k. L k \<noteq> None \<and> matches_range (rr_bound req) k \<longrightarrow> k \<in> fst ` set m"
    and "bt_ok w" and "\<forall>k. bt_get w k = (if matches_range (rr_bound req) k then L k else None)"
  shows "merge_rest req b w (merge_stale req w \<sigma> i (hist_stale req t m) (merge_direct req (hist_direct req t m))) =
    past_rows req L m"
proof -
  let ?F = "\<lambda>k. if matches_range (rr_bound req) k then map_option (row_blob req k) (L k) else None"
  define d where "d = merge_direct req (hist_direct req t m)"
  define u where "u = merge_stale req w \<sigma> i (hist_stale req t m) d"
  note st = settled_sets [OF assms(1)]
  have "\<forall>(k, b) \<in> set (hist_direct req t m). ?F k = Some (row_blob req k b)"
    using st(1) by (fastforce simp: map_option_case split: option.splits)
  then have d: "bt_ok d" "bt_get d k = (if k \<in> fst ` set (hist_direct req t m) then ?F k else None)" for k
    using merge_direct_get [of req "hist_direct req t m" ?F k] by (simp_all add: d_def)
  have "\<forall>k \<in> set (hist_stale req t m). bt_get w k \<noteq> None" using st(2) assms(5) by simp
  note u = merge_stale_get [OF d(1) this, of req \<sigma> i, folded u_def]
  have g: "bt_get u k = ?F k" for k
  proof (cases "matches_range (rr_bound req) k \<and> L k \<noteq> None")
    case True
    then have "k \<in> fst ` set (hist_direct req t m) \<or> k \<in> set (hist_stale req t m)" using st(3) assms(3) by blast
    then show ?thesis using True u d(2) assms(5) by auto
  next
    case False
    then have "k \<notin> set (hist_stale req t m)" "?F k = None" using st(2) [of k] by auto
    then show ?thesis using u d(2) by simp
  qed
  have "bt_iter u = bt_iter (past_rows req L m)"
    by (rule bt.iter_cong) (use u past_rows_ok [OF assms(2)] g past_rows_get [OF assms(2,3)] in auto)
  moreover have "merge_rest req b w u = u" using g assms(5) by (intro merge_rest_id [OF _ assms(4)]) auto
  ultimately show ?thesis by (simp add: d_def u_def bt_iter_def)
qed

section \<open>The answer\<close>

lemma length_top_entries:
  assumes "length xs < 2 ^ 63"
  shows "length (top_entries cmp n xs) \<le> length xs"
proof (cases "n > 0 \<and> min (n * 64) (2 ^ 64 - 1) \<le> length xs")
  case True
  then have "n - 1 < length xs" using assms by (auto simp: min_def split: if_splits)
  then have "mset (select_nth_unstable_by (n - 1) cmp xs) = mset xs" by (rule select_split(4))
  then show ?thesis by (auto simp: top_entries_def Let_def dest: mset_eq_length)
next
  case False
  then show ?thesis unfolding top_entries_def Let_def if_not_P [OF False] by simp
qed

lemma length_take_blobs [simp]: "length (take_blobs kvs is) = length is"
  by (induction "is" arbitrary: kvs) simp_all

lemma length_sort_kvs:
  assumes "length kvs < 2 ^ 63"
  shows "length (sort_kvs kvs order target n) \<le> length kvs"
proof -
  have "length (top_entries (cmp_entry d) n (map f (enumerate 0 kvs))) \<le> length kvs" for d f
    using length_top_entries [of "map f (enumerate 0 kvs)"] assms by simp
  then show ?thesis by (auto simp: sort_kvs_def Let_def)
qed

lemma sort_kvs_unlimited:
  assumes "length kvs < 2 ^ 63"
  shows "sort_kvs kvs order target (2 ^ 64 - 1) = sort_kvs kvs order target 0"
proof -
  have "top_entries (cmp_entry d) (2 ^ 64 - 1) (map f (enumerate 0 kvs)) = top_entries (cmp_entry d) 0 (map f (enumerate 0 kvs))"
    for d and f
    using assms by (simp add: top_entries_def Let_def)
  then show ?thesis by (simp only: sort_kvs_def Let_def)
qed

lemma hist_early_answer:
  assumes "length ds < 2 ^ 63"
  shows "hist_early_return req t ds = range_answer (hist_header t) req (map snd ds)"
  using sint_limit [OF assms, of req]
  by (auto simp: hist_early_return_def range_answer_def range_limit_def Let_def)

lemma hist_answer:
  assumes "length m < 2 ^ 63"
  shows "hist_response req t (if sint (rr_limit req) > 0 then unat (rr_limit req) else 2 ^ 64 - 1) m =
    range_answer (hist_header t) req (map snd m)"
proof (cases "sint (rr_limit req) > 0")
  case True
  have "length (sort_kvs (map snd m) o' t' l) \<le> length m" for o' t' l using length_sort_kvs [of "map snd m"] assms by simp
  moreover have "0 < unat (rr_limit req)" using True by (simp add: unat_sint_nonneg)
  ultimately show ?thesis using True sint_limit [OF assms, of req]
    by (auto simp: hist_response_def range_answer_def range_limit_def bt_iter_def Let_def not_less intro: order_trans)
next
  case False
  have l: "length (map snd m) < 2 ^ 63" using assms by simp
  have "length (sort_kvs (map snd m) o' t' 0) \<le> 2 ^ 64 - 1" for o' t'
    using length_sort_kvs [OF l, of o' t' 0] assms by simp
  then show ?thesis unfolding hist_response_def bt_iter_def Let_def if_not_P [OF False] sort_kvs_unlimited [OF l]
    using False by (simp add: range_answer_def range_limit_def Let_def)
qed

lemma range_historical_eq:
  assumes "bt_ok (st_keys (\<sigma> 0))" and "\<not> bad_bound (rr_bound req)"
    and "settled req t L (st_keys (\<sigma> 0))"
    and "\<forall>k. L k \<noteq> None \<and> matches_range (rr_bound req) k \<longrightarrow> k \<in> fst ` set (st_keys (\<sigma> 0))"
    and "scan_wal_range E file (rr_key req) (rr_range_end req) t = Inr w" and "bt_ok w"
    and "\<forall>k. bt_get w k = (if matches_range (rr_bound req) k then L k else None)"
    and "length (past_rows req L (st_keys (\<sigma> 0))) < 2 ^ 63"
  shows "range_historical E \<sigma> file req t =
    Ok (range_answer (hist_header t) req (map snd (past_rows req L (st_keys (\<sigma> 0)))))"
proof -
  obtain lo hi where b: "btree_bounds (rr_bound req) = (lo, hi)" by fastforce
  obtain es where es: "bt_range lo hi (st_keys (\<sigma> 0)) = Some es"
    "takeWhile (\<lambda>e. \<not> leaves_prefix (prefix_of_bound (rr_bound req)) (fst e)) es =
       filter (\<lambda>e. matches_range (rr_bound req) (fst e)) (st_keys (\<sigma> 0))"
    using hist_scan_rows [OF assms(1,2) b] by blast
  have p1: "hist_phase1 req t (prefix_of_bound (rr_bound req)) es =
      (hist_direct req t (st_keys (\<sigma> 0)), hist_stale req t (st_keys (\<sigma> 0)))"
    unfolding hist_phase1_eq es(2) Let_def hist_direct_def hist_stale_def by simp
  show ?thesis
  proof (cases "hist_stale req t (st_keys (\<sigma> 0)) = []")
    case True
    then show ?thesis
      using settled_direct [OF assms(3) True] hist_early_answer [of "past_rows req L (st_keys (\<sigma> 0))"] assms(8)
      by (simp add: range_historical_def b es(1) p1 Let_def)
  next
    case False
    then show ?thesis
      using merged_rows [OF assms(3,1,4,6,7), of "rr_bound req" \<sigma> 1] hist_answer [OF assms(8), of req t] assms(5)
      by (simp add: range_historical_def b es(1) p1 Let_def)
  qed
qed

text \<open>The rows of a state as the rows of its past.\<close>

lemma past_rows_state:
  assumes "bt_ok (st_keys s)" and "bt_ok m" and "no_filters req"
    and "\<forall>k. L k = map_option ks_kv_bytes (get_alive s k)"
    and "\<forall>k. L k \<noteq> None \<and> matches_range (rr_bound req) k \<longrightarrow> k \<in> fst ` set m"
  shows "map snd (past_rows req L m) = range_blobs req s"
proof -
  define rows where "rows = map (\<lambda>e. (fst e, row_blob req (fst e) (ks_kv_bytes (snd e)))) (range_rows req s)"
  have ok: "bt_ok rows" "bt_ok (range_rows req s)"
    using assms(1) by (simp_all add: rows_def range_rows_def bt_ok_def sorted_wrt_map sorted_wrt_filter)
  have in_rows: "(k, ks) \<in> set (range_rows req s) \<longleftrightarrow> matches_range (rr_bound req) k \<and> get_alive s k = Some ks" for k ks
    using bt.iter_get [OF assms(1), of k ks] no_filters_row [OF assms(3), of ks]
    by (auto simp: range_rows_def get_alive_Some bt_iter_def)
  have "bt_get rows k = Some b \<longleftrightarrow> bt_get (past_rows req L m) k = Some b" for k b
  proof -
    have "bt_get rows k = Some b \<longleftrightarrow> (k, b) \<in> set rows" using bt.iter_get [OF ok(1)] by (simp add: bt_iter_def)
    also have "\<dots> \<longleftrightarrow> (\<exists>ks. (k, ks) \<in> set (range_rows req s) \<and> b = row_blob req k (ks_kv_bytes ks))"
      by (force simp: rows_def)
    also have "\<dots> \<longleftrightarrow> matches_range (rr_bound req) k \<and> map_option (row_blob req k) (L k) = Some b"
      unfolding in_rows using assms(4) by auto
    also have "\<dots> \<longleftrightarrow> bt_get (past_rows req L m) k = Some b"
      unfolding past_rows_get [OF assms(2,5)] by simp
    finally show ?thesis .
  qed
  then have "bt_get rows k = bt_get (past_rows req L m) k" for k by (metis not_Some_eq)
  with bt.iter_cong [OF ok(1) past_rows_ok [OF assms(2)]] have "past_rows req L m = rows" by (metis bt_iter_def)
  then show ?thesis by (simp add: rows_def range_blobs_def)
qed

text \<open>What the log says of the revision of an earlier state.\<close>

lemma current_revision_less: "0 < st_next_rev s \<Longrightarrow> x \<le> current_revision s \<longleftrightarrow> x < st_next_rev s"
  by (auto simp: current_revision_def word_le_less_succ)

lemma past_value:
  assumes "libs_ok E" and "live_log E rs s" and "\<forall>x \<in> set xs. st_next_rev s \<le> rec_rev x"
  shows "log_value (current_revision s) (rs @ xs) k = map_option ks_kv_bytes (get_alive s k)"
proof -
  note c = current_revision_less [of s]
  have s: "mirror rs s" "0 < st_next_rev s" using assms(2) by (simp_all add: live_log_def store_ok_def)
  have "\<forall>r \<in> set rs. rec_rev r \<le> current_revision s"
    using live_log_ok [OF assms(1,2)] rec_made_rev [OF assms(1)] c s(2) by (auto simp: log_ok_def)
  moreover have "\<forall>x \<in> set xs. current_revision s < rec_rev x" using assms(3) c s(2) by (auto simp: not_le [symmetric])
  ultimately show ?thesis
    using s(1) log_value_top [of rs "current_revision s" k] log_value_later [of xs "current_revision s" rs k]
    by (simp add: mirror_def)
qed

lemma settled_live:
  assumes "live_log E rs s" and "no_filters req" and "\<forall>k. matches_range (rr_bound req) k \<longrightarrow> one_life rs k"
  shows "settled req t (log_value t rs) (st_keys s)" and "log_value t rs k \<noteq> None \<Longrightarrow> k \<in> fst ` set (st_keys s)"
proof -
  have past: "past rs s" and ok: "store_ok s" using assms(1) by (simp_all add: live_log_def mirror_def)
  then have bt: "bt_ok (st_keys s)" by (simp add: store_ok_def keys_ok_def)
  show "k \<in> fst ` set (st_keys s)" if "log_value t rs k \<noteq> None"
    using that past set_bt_keys [OF bt, of k] by (fastforce simp: past_def dest: spec [of _ k] split: option.splits)
  show "settled req t (log_value t rs) (st_keys s)"
    unfolding settled_def
  proof (intro ballI impI, goal_cases)
    case (1 e)
    then have "bt_get (st_keys s) (fst e) = Some (snd e)"
      using bt.iter_get [OF bt, of "fst e" "snd e"] by (simp add: bt_iter_def)
    then have "row_past rs (fst e) (snd e)" "entry_ok (st_next_rev s) (fst e) (snd e)"
      using past ok by (auto simp: past_def store_ok_def keys_ok_def dest: spec [of _ "fst e"])
    from hist_row_past [OF this(1) _ assms(2) this(2), of t] 1 assms(3) show ?case by simp
  qed
qed

lemma scan_live:
  assumes "live_log E rs s" and "rec_wf E r" and "n < length (serialize r)"
  shows "\<exists>w. scan_wal_range E (Inr (Some (wf_content (st_wal s) @ take n (serialize r)))) key range_end t = Inr w
    \<and> bt_ok w \<and> (\<forall>k. bt_get w k = (if matches_range (resolve_range key range_end) k then log_value t rs k else None))"
proof -
  have "scan_kv_file E (wf_content (st_wal s) @ take n (serialize r)) 0 = (rs, Inr (length (log_bytes rs)))"
    using scan_log_append [of rs E "take n (serialize r)" 0] scan_torn [OF assms(2,3)] assms(1)
    by (simp add: scan_kv_file_def live_log_def)
  then show ?thesis using scan_wal_fold by (simp add: scan_wal_range_def)
qed

lemma range_current_answer:
  assumes "store_ok s" and "length (st_keys s) < 2 ^ 58" and "\<not> bad_bound (rr_bound req)" and "sint (rr_limit req) < 2 ^ 58"
  shows "range_current s req = Ok (range_answer (header s) req (range_blobs req s))"
proof -
  have "\<not> capacity_overflow (range_cap req s)"
    using assms(2,4) by (auto simp: capacity_overflow_def range_cap_def BYTES_SIZE_def unat_sint_nonneg)
  then show ?thesis using assms by (simp add: range_current_eq store_ok_def keys_ok_def)
qed

lemma write_steps_next_rev:
  assumes "libs_ok E" and "live_log E rs s" and "write_steps E s xs s'"
  shows "st_next_rev s \<le> st_next_rev s'"
proof -
  have "durable_from (base_at s) (\<lambda>v. v) E s'"
    using write_steps_durable [OF assms(1,3), of "base_at s" "\<lambda>v. v"] durable_base_at assms(2) by (auto simp: live_log_def)
  then show ?thesis by (simp add: durable_from_def base_at_def)
qed

section \<open>Properties\<close>

text \<open>C6. Reads of the past are right: a read at the revision a state had, done after any further
  requests and background rounds, concurrently with others and over a log that may end in a record being
  written, gives exactly the answer that a current read gave in that state, for a request without revision
  filters whose range holds no key that was created again after a deletion.\<close>

theorem past_read_correct:
  assumes "libs_ok E" and "live_log E rs s" and "write_steps E s xs (\<sigma> 0)" and "write_steps E (\<sigma> 0) ys s'"
    and "rec_wf E r" and "n < length (serialize r)"
    and "file = Inr (Some (wf_content (st_wal s') @ take n (serialize r)))"
    and "no_filters req" and "\<forall>k. matches_range (rr_bound req) k \<longrightarrow> one_life (rs @ xs) k"
    and "check_key (rr_key req) = Ok ()" and "\<not> bad_bound (rr_bound req)" and "sint (rr_limit req) < 2 ^ 58"
    and "length (st_keys s) < 2 ^ 58"
    and "rr_revision req = current_revision s" and "0 < sint (current_revision s)"
    and "current_revision s \<le> current_revision s_rev" and "st_compact_rev s_compact \<le> current_revision s"
  shows "range_store E s_rev s_compact \<sigma> file req = range_current s req"
proof -
  let ?t = "current_revision s" and ?m = "st_keys (\<sigma> 0)"
  define L where "L = log_value ?t (rs @ xs)"
  have l1: "live_log E (rs @ xs) (\<sigma> 0)" using write_steps_logged [OF assms(1,3,2)] by (simp add: logged_def)
  have l2: "live_log E ((rs @ xs) @ ys) s'" using write_steps_logged [OF assms(1,4) l1] by (simp add: logged_def)
  have ok: "store_ok s" "bt_ok (st_keys s)" "bt_ok ?m"
    using assms(2) l1 by (simp_all add: live_log_def store_ok_def keys_ok_def)
  have later: "\<forall>x \<in> set xs. st_next_rev s \<le> rec_rev x" "\<forall>y \<in> set ys. st_next_rev s \<le> rec_rev y"
    using write_steps_later [OF assms(1,3,2)] write_steps_later [OF assms(1,4) l1] write_steps_next_rev [OF assms(1,2,3)]
    by auto
  have Ls: "\<forall>k. L k = map_option ks_kv_bytes (get_alive s k)" "\<forall>k. L k = log_value ?t ((rs @ xs) @ ys) k"
    using past_value [OF assms(1,2) later(1)] past_value [OF assms(1,2), of "xs @ ys"] later(2)
    by (simp_all add: L_def ball_Un later(1))
  have st: "settled req ?t L ?m" and row: "\<forall>k. L k \<noteq> None \<and> matches_range (rr_bound req) k \<longrightarrow> k \<in> fst ` set ?m"
    using settled_live [OF l1 assms(8,9), of ?t] by (auto simp: L_def)
  obtain w where w: "scan_wal_range E file (rr_key req) (rr_range_end req) ?t = Inr w" "bt_ok w"
    "\<forall>k. bt_get w k = (if matches_range (rr_bound req) k then L k else None)"
    using scan_live [OF l2 assms(5,6), of "rr_key req" "rr_range_end req" ?t] Ls(2) by (auto simp: assms(7))
  have blobs: "map snd (past_rows req L ?m) = range_blobs req s" by (rule past_rows_state [OF ok(2,3) assms(8) Ls(1) row])
  have "length (range_rows req s) \<le> length (st_keys s)" by (simp add: range_rows_def)
  then have len: "length (past_rows req L ?m) < 2 ^ 63"
    using arg_cong [OF blobs, of length] assms(13) by (simp add: length_range_blobs)
  have "range_historical E \<sigma> file req ?t = Ok (range_answer (header s) req (range_blobs req s))"
    using range_historical_eq [where \<sigma> = \<sigma>, OF ok(3) assms(11) st row w len] blobs by (simp add: hist_header_def header_def)
  then show ?thesis
    using range_current_answer [OF ok(1) assms(13,11,12)] assms(10,14-17)
    by (auto simp: range_store_def Let_def not_less)
qed

lemma past_read_correct_witness:
  "\<exists>s2 resp. put ref_libs (demo_put [1] [3]) demo_state = (Ok resp, s2)
     \<and> range_store ref_libs s2 s2 (\<lambda>_. s2) (Inr (Some (wf_content (st_wal s2)))) (demo_range [1] [] 0 1) =
         range_current demo_state (demo_range [1] [] 0 1)"
proof -
  let ?s = demo_state and ?q = "demo_range [1] [] 0 1"
  obtain x where x: "write_steps ref_libs (StoreState_new demo_wal) [x] ?s" using demo_state_log by blast
  have "live_log ref_libs [] (StoreState_new demo_wal)" by (rule live_log_new) (simp_all add: demo_wal_def)
  from write_steps_logged [OF libs_ok_ref x this] have l: "live_log ref_libs [x] ?s" by (simp add: logged_def)
  obtain resp s2 where p: "put ref_libs (demo_put [1] [3]) ?s = (Ok resp, s2)" "st_next_rev s2 = 3" "store_ok s2"
    "st_compact_rev s2 = st_compact_rev ?s"
    using demo_put_run [OF demo_state_ok(1,5), of "[3]"] demo_state_ok(2) by auto
  have f: "fits (pr_key (demo_put [1] [3])) (put_value (demo_put [1] [3]) ?s)"
    by (simp add: demo_put_def put_value_def fits_def)
  define y where "y = put_record ref_libs (demo_put [1] [3]) 2 ?s"
  have w: "write_steps ref_libs ?s [y] s2"
    using put_write_step [OF p(1) libs_ok_ref demo_fits(2) f] demo_state_ok(2) by (simp add: y_def)
  have fl: "rec_flags y AND DELETED = 0"
    by (simp add: y_def put_record_def codec_simps flag_defs)
  have life: "one_life [x, y] k" for k
  proof -
    have "log_value (- 1) [x] [1] \<noteq> None" using l demo_state_ok(4) by (auto simp: live_log_def mirror_def)
    then have "rec_flags x AND DELETED = 0" by (auto simp: log_value_def split: if_splits)
    with fl show ?thesis by (intro one_life_puts) auto
  qed
  have b: "rr_bound ?q = Point [1]" by (simp add: demo_range_def resolve_range_def)
  have c: "current_revision ?s = 1" "current_revision s2 = 2" "0 < length (serialize x)"
    using demo_state_ok(2) p(2) by (simp_all add: current_revision_def length_serialize)
  have xw: "rec_wf ref_libs x" using l by (simp add: live_log_def)
  have cr: "st_compact_rev s2 = 0"
    using p(4) demo_put_run [OF store_ok_new, of demo_wal "[2]"]
    by (auto simp: demo_state_def) (auto simp: StoreState_new_def demo_wal_def)
  have "range_store ref_libs s2 s2 (\<lambda>_. s2) (Inr (Some (wf_content (st_wal s2)))) ?q = range_current ?s ?q"
    by (rule past_read_correct [OF libs_ok_ref l w write_steps.none xw c(3)])
      (use b c life cr demo_state_ok(3) in \<open>simp_all add: demo_range_def no_filters_def check_key_def\<close>)
  with p(1) show ?thesis by blast
qed

lemma put_row:
  assumes "put E req s = (Ok resp, s')"
  shows "st_keys s' = bt_insert (pr_key req)
    (put_entry (pr_key req) (put_value req s) (put_lease req s) (st_next_rev s) None s) (st_keys s)"
proof -
  have "put_entry k v l r None (snd (alloc_revision s)\<lparr>st_wal := w\<rparr>) = put_entry k v l r None s" for k v l r w
    by (simp add: put_entry_def get_alive_def)
  then show ?thesis using assms
    by (auto simp: put_unfold put_at_eq apply_put_eq Let_def split: res.splits if_splits prod.splits sum.splits)
qed

text \<open>C33. The earlier life of a key is lost to reads of the past once the key has been created again and
  then written a second time: the flag that sends such reads to the log is reset by the second write, so a
  read at a revision at which the key existed answers that there is none, whatever the log holds.\<close>

theorem earlier_life_lost:
  assumes "store_ok s" and "get_alive s k \<noteq> None" and "store_ok s1" and "st_next_rev s1 \<noteq> - 1"
    and "get_alive s1 k = Some p" and "current_revision s < ks_create_revision p"
    and "put E preq s1 = (Ok presp, \<sigma> 0)" and "put_small preq" and "pr_key preq = k"
    and "rr_key req = k" and "rr_range_end req = []" and "no_filters req" and "k \<noteq> []"
    and "rr_revision req = current_revision s" and "0 < sint (current_revision s)"
    and "current_revision s \<le> current_revision s_rev" and "st_compact_rev s_compact \<le> current_revision s"
    and "length (st_keys s) < 2 ^ 58" and "sint (rr_limit req) < 2 ^ 58"
  shows "\<exists>before after. range_current s req = Ok before \<and> rs_count before = 1
    \<and> range_store E s_rev s_compact \<sigma> file req = Ok after \<and> rs_count after = 0 \<and> rs_kvs after = []"
proof -
  let ?t = "current_revision s"
  have b: "rr_bound req = Point k" using assms(10,11) by (simp add: resolve_range_def)
  have before: "range_current s req = Ok (range_answer (header s) req (range_blobs req s))"
    using assms(1,18,19) by (intro range_current_answer) (simp_all add: b)
  obtain ks where "bt_get (st_keys s) k = Some ks" "is_alive ks" using assms(2) by (auto simp: get_alive_Some)
  then have "range_blobs req s = [row_blob req k (ks_kv_bytes ks)]"
    using point_rows [OF _ b, of s] assms(1) no_filters_row [OF assms(12), of ks]
    by (simp add: store_ok_def keys_ok_def point_row_ok_eq)
  then have count: "rs_count (range_answer (header s) req (range_blobs req s)) = 1" by (simp add: range_answer_def Let_def)
  have bt: "bt_ok (st_keys (\<sigma> 0))"
    using put_correct [OF assms(3,4,8), of E] assms(7) by (simp add: store_ok_def keys_ok_def)
  define e where "e = put_entry k (put_value preq s1) (put_lease preq s1) (st_next_rev s1) None s1"
  have p: "bt_get (st_keys s1) k = Some p" "is_alive p" using assms(5) by (simp_all add: get_alive_Some)
  have "bt_get (st_keys (\<sigma> 0)) k = Some e"
    using put_row [OF assms(7)] assms(9) by (simp add: bt_get_insert e_def)
  then have row: "filter (\<lambda>x. matches_range (rr_bound req) (fst x)) (st_keys (\<sigma> 0)) = [(k, e)]"
    using filter_key [OF bt, of k "\<lambda>_. True"] by (simp add: b)
  have "ks_delete_revision e = 0" "?t < ks_create_revision e" "\<not> ks_rebirth e"
    using p assms(5,6) by (simp_all add: e_def) (simp add: put_entry_def is_alive_def Let_def)
  then have h: "hist_row req ?t (k, e) = ([], [])"
    using no_filters_row [OF assms(12), of e] by (simp add: hist_row_def hist_live_row_def)
  obtain lo hi where lh: "btree_bounds (rr_bound req) = (lo, hi)" by fastforce
  obtain es where es: "bt_range lo hi (st_keys (\<sigma> 0)) = Some es"
    "takeWhile (\<lambda>e. \<not> leaves_prefix (prefix_of_bound (rr_bound req)) (fst e)) es = [(k, e)]"
    using hist_scan_rows [OF bt _ lh] b row by auto
  have "hist_phase1 req ?t (prefix_of_bound (rr_bound req)) es = ([], [])"
    unfolding hist_phase1_eq es(2) by (simp add: h)
  then have "range_historical E \<sigma> file req ?t = Ok (range_answer (hist_header ?t) req [])"
    using hist_early_answer [of "[]"] by (simp add: range_historical_def lh es(1) Let_def)
  then have "range_store E s_rev s_compact \<sigma> file req = Ok (range_answer (hist_header ?t) req [])"
    using assms(10,13-17) by (auto simp: range_store_def check_key_def Let_def not_less)
  then show ?thesis using before count by (simp add: range_answer_def Let_def sort_kvs_short)
qed

lemma earlier_life_lost_witness:
  "\<exists>s4 before after. range_current demo_state (demo_range [1] [] 0 1) = Ok before \<and> rs_count before = 1
     \<and> range_store ref_libs s4 s4 (\<lambda>_. s4) (Inr (Some (wf_content (st_wal s4)))) (demo_range [1] [] 0 1) = Ok after
     \<and> rs_count after = 0 \<and> rs_kvs after = []"
proof -
  let ?d = demo_state and ?q = "demo_range [1] [] 0 1"
  define s2 where "s2 = snd (delete_range ref_libs (demo_delete [1] []) ?d)"
  have n: "st_next_rev ?d \<noteq> - 1" using demo_state_ok(2) by simp
  have t: "at_rev 2 (snd (alloc_revision ?d))" "keys_ok (snd (alloc_revision ?d))"
    using alloc_revision_at [OF demo_state_ok(1) n] demo_state_ok(2) by (simp_all add: store_ok_def)
  have d: "s2 = snd (delete_range_at ref_libs (demo_delete [1] []) 2 (snd (alloc_revision ?d)))"
    using demo_state_ok(2) by (simp add: s2_def delete_range_unfold demo_delete_def)
  note c = delete_range_at_correct [OF t(2,1), of ref_libs "demo_delete [1] []", folded d]
  obtain resp where "delete_range_at ref_libs (demo_delete [1] []) 2 (snd (alloc_revision ?d)) = (Ok resp, s2)"
    using delete_range_at_is_ok [OF t(2,1), of "demo_delete [1] []" ref_libs] demo_state_ok(5) d
    by (auto simp: demo_delete_def resolve_range_def)
  then have v2: "view_of s2 [1] = None"
    using c by (simp add: spec_delete_def demo_delete_def resolve_range_def)
  have cr: "st_compact_rev ?d = 0"
    using demo_put_run [OF store_ok_new, of demo_wal "[2]"]
    by (auto simp: demo_state_def) (auto simp: StoreState_new_def demo_wal_def)
  have s2: "store_ok s2" "st_next_rev s2 = 3" "st_compact_rev s2 = 0"
    using delete_range_ok [OF demo_state_ok(1) n, of ref_libs] c t(1) cr by (simp_all add: s2_def same_env_def at_rev_def)
  obtain x where x: "write_steps ref_libs (StoreState_new demo_wal) [x] ?d" using demo_state_log by blast
  have "live_log ref_libs [] (StoreState_new demo_wal)" by (rule live_log_new) (simp_all add: demo_wal_def)
  from write_steps_logged [OF libs_ok_ref x this] have "durable (\<lambda>v. v) ref_libs ?d" by (simp add: logged_def live_log_def)
  then have f2: "wf_faults (st_wal s2) = []"
    unfolding s2_def using durable_delete_range [OF libs_ok_ref demo_state_ok(1) _ n] durable_faults by blast
  obtain r3 s3 where p3: "put ref_libs (demo_put [1] [3]) s2 = (Ok r3, s3)" "store_ok s3" "wf_faults (st_wal s3) = []"
    "st_next_rev s3 = 4" "view_of s3 = spec_put [1] [3] 0 3 (view_of s2)" "st_compact_rev s3 = 0"
    using demo_put_run [OF s2(1) f2, of "[3]"] s2(2,3) by auto
  obtain r4 s4 where p4: "put ref_libs (demo_put [1] [4]) s3 = (Ok r4, s4)" "st_next_rev s4 = 5" "st_compact_rev s4 = 0"
    using demo_put_run [OF p3(2,3), of "[4]"] p3(4,6) by auto
  obtain p where p: "get_alive s3 [1] = Some p" "ks_create_revision p = 3"
  proof -
    have "view_of s3 [1] = Some \<lparr>a_value = [3], a_create = 3, a_mod = 3, a_version = 1, a_lease = 0\<rparr>"
      using p3(5) v2 by (simp add: spec_put_def)
    then show ?thesis using that by (auto simp: view_of_def abs_entry_def)
  qed
  have r: "current_revision ?d = 1" "current_revision s4 = 4" using demo_state_ok(2) p4(2) by (simp_all add: current_revision_def)
  have "\<exists>before after. range_current ?d ?q = Ok before \<and> rs_count before = 1
     \<and> range_store ref_libs s4 s4 (\<lambda>_. s4) (Inr (Some (wf_content (st_wal s4)))) ?q = Ok after
     \<and> rs_count after = 0 \<and> rs_kvs after = []"
    by (rule earlier_life_lost [OF demo_state_ok(1,4) p3(2) _ p(1) _ p4(1)])
      (use r p(2) p3(4) p4(3) demo_state_ok(3) in \<open>simp_all add: demo_range_def no_filters_def demo_put_def put_small_def\<close>)
  then show ?thesis by blast
qed

end
