(* ===== verification/Watch_Delivery.thy ===== *)
theory Watch_Delivery
  imports Log_Mirror
begin

text \<open>
  Live delivery of events, and its composition with the replay of \<^verbatim>\<open>Watch_Batch\<close>: the event a write
  sends to the registered watchers (\<^verbatim>\<open>notify_watchers\<close>, called by \<^verbatim>\<open>apply\<close> and \<^verbatim>\<open>apply_delete\<close>) is the event a
  replay of its log record gives.  So a watcher sees one sequence of events, that of the log, wherever
  the boundary between replay and live delivery falls.
\<close>

section \<open>Channels of registered watchers\<close>

lemma filters_pass_eq: "filters_pass fs t = should_send_event fs (event_type_i32 t)"
  by (induction fs) (cases t; auto)+

definition selects :: "watch_registration \<Rightarrow> watch_event \<Rightarrow> bool" where
  "selects w ev \<longleftrightarrow> matches_range (wr_bound w) (ev_key ev) \<and> wr_start_revision w \<le> ev_revision ev
     \<and> filters_pass (wr_filters w) (ev_type ev)"

definition shown :: "watch_registration \<Rightarrow> watch_event \<Rightarrow> watch_event" where
  "shown w ev = (if wr_prev_kv w then ev else ev\<lparr>ev_prev_kv_bytes := []\<rparr>)"

lemma notify_loop_eq:
  "notify_loop ev ws = map (\<lambda>w. (wr_sender w, shown w ev)) (filter (\<lambda>w. selects w ev) ws)"
  by (induction ws) (auto simp: selects_def shown_def not_less)

lemma channel_notify_other: "c \<notin> wr_sender ` set ws \<Longrightarrow> channel c (notify_loop ev ws) = []"
  by (auto simp: channel_def notify_loop_eq filter_empty_conv)

lemma channel_notify:
  assumes "distinct (map wr_sender ws)" and "w \<in> set ws"
  shows "channel (wr_sender w) (notify_loop ev ws) = map (shown w) (filter (selects w) [ev])"
proof -
  from assms(2) obtain us vs where a: "ws = us @ w # vs" by (meson split_list)
  have "channel (wr_sender w) (notify_loop ev us) = []" "channel (wr_sender w) (notify_loop ev vs) = []"
    using assms(1) by (auto simp: a intro!: channel_notify_other)
  then show ?thesis unfolding a by (auto simp: channel_def notify_loop_eq)
qed

lemma channel_notify_all:
  assumes "distinct (map wr_sender ws)" and "w \<in> set ws"
  shows "channel (wr_sender w) (notify_all ws evs) = map (shown w) (filter (selects w) evs)"
  by (induction evs) (simp_all add: notify_all_def channel_notify [OF assms])

section \<open>Properties\<close>

text \<open>C12. Live delivery agrees with the log: over any sequence of requests and background rounds, transactions
  and lease expiry included and whatever they answer, the channel of every registered watcher grows by exactly
  the events of the records they log that its range, start revision and filters select, in log order, with the
  previous value cleared unless it was asked for.\<close>

theorem live_delivery_is_log:
  assumes "libs_ok E" and "live_log E rs s" and "write_steps E s xs s'"
    and "distinct (map wr_sender (st_watchers s))" and "w \<in> set (st_watchers s)"
  shows "channel (wr_sender w) (st_outbox s') = channel (wr_sender w) (st_outbox s)
      @ map (shown w) (filter (selects w) (events_after rs xs))"
  using write_steps_logged [OF assms(1,3,2)] channel_notify_all [OF assms(4,5)]
  by (simp add: logged_def)

text \<open>C3. A watcher sees every event exactly once: when it is created with the previous values asked
  for and a start not beyond the next revision, and requests and background rounds write while it is
  replayed and after it is registered, its channel holds exactly the events of the whole log from its start revision on
  that its range and filters select, in log order.\<close>

theorem watch_exactly_once:
  assumes "libs_ok E" and "flush_log E env cp off rs xs" and "live_log E (rs @ xs) (fe_lock env)"
    and "distinct (map wr_sender (st_watchers (fe_lock env)) @ map gc_event_tx batch)"
    and "distinct (map gc_reply batch)"
    and "flush_global_batch_at E env batch cp off = Some (replies, s')"
    and "c \<in> set batch" and "(gc_reply c, resp) \<in> set replies" and "ws_created resp" and "\<not> ws_canceled resp"
    and "channel (gc_event_tx c) (st_outbox (fe_lock env)) = []"
    and "pc_start_revision (gc_pending c) \<le> cp + 1" and "pc_prev_kv (gc_pending c)"
    and "write_steps E s' ys s''"
  shows "channel (gc_event_tx c) (st_outbox s'') =
    filter (selects (registration_of (context_of c))) (log_events (rs @ xs @ ys))"
proof -
  let ?w = "registration_of (context_of c)"
  have d: "distinct (map gc_event_tx batch)" using assms(4) by simp
  note r = replay_channel [OF assms(2) d assms(5-11)]
  have w: "selects ?w = (\<lambda>ev. pc_start_revision (gc_pending c) \<le> ev_revision ev \<and> wants (context_of c) ev)"
    by (auto simp: fun_eq_iff selects_def wants_def registration_of_def context_of_def Let_def filters_pass_eq)
  have sh: "shown ?w = (\<lambda>ev. ev)" "wr_sender ?w = gc_event_tx c"
    using assms(13) by (auto simp: shown_def registration_of_def context_of_def Let_def)
  have 1: "channel (gc_event_tx c) (st_outbox s') = filter (selects ?w) (log_events (rs @ xs))"
    using r replay_filter [OF assms(2,12)] by (simp add: w)
  have "live_log E (rs @ xs) s'" using r by (intro live_log_cong [OF assms(3)]) simp_all
  moreover have "distinct (map wr_sender (st_watchers s'))"
  proof -
    obtain active where a: "st_watchers s' = st_watchers (fe_lock env) @ map registration_of active"
      "mset (map wc_event_tx active) \<subseteq># mset (map gc_event_tx batch)" using r by blast
    have "map wr_sender (map registration_of active) = map wc_event_tx active" by (simp add: registration_of_def)
    with a distinct_sub_mset [OF a(2) d] set_mset_mono [OF a(2)] assms(4) show ?thesis
      by (simp only: a(1) map_append) auto
  qed
  ultimately have "channel (wr_sender ?w) (st_outbox s'') = channel (wr_sender ?w) (st_outbox s')
      @ map (shown ?w) (filter (selects ?w) (events_after (rs @ xs) ys))"
    using write_steps_logged [OF assms(1,14)] channel_notify_all r by (simp add: logged_def)
  then show ?thesis using 1 events_after_append [of "[]" "rs @ xs" ys] by (simp add: sh)
qed

lemma watch_exactly_once_witness:
  "\<exists>s' s'' replies x. flush_global_batch_at ref_libs (demo_env (StoreState_new demo_wal)) [demo_create 1] 0 0
       = Some (replies, s')
     \<and> write_steps ref_libs s' [x] s'' \<and> channel 7 (st_outbox s'') = [event_of [] x]"
proof -
  let ?s = "StoreState_new demo_wal"
  have l: "flush_log ref_libs (demo_env ?s) 0 0 [] []"
    unfolding flush_log_def using demo_log_ok(2)
    by (auto simp: demo_env_def StoreState_new_def demo_wal_def length_serialize
        intro!: exI [of _ 0] exI [of _ demo_record])
  have v: "live_log ref_libs ([] @ []) (fe_lock (demo_env ?s))"
    using live_log_new [of demo_wal ref_libs] by (simp add: demo_env_def demo_wal_def)
  obtain resp s' where r: "flush_global_batch_at ref_libs (demo_env ?s) [demo_create 1] 0 0 = Some ([(3, resp)], s')"
    "ws_created resp" "\<not> ws_canceled resp"
    using demo_flush [of ?s 1 ref_libs 0 0] by (auto simp: StoreState_new_def)
  have c: "distinct (map gc_event_tx [demo_create 1])" "distinct (map gc_reply [demo_create 1])"
    "demo_create 1 \<in> set [demo_create 1]" "(gc_reply (demo_create 1), resp) \<in> set [(3, resp)]"
    "channel (gc_event_tx (demo_create 1)) (st_outbox (fe_lock (demo_env ?s))) = []"
    by (simp_all add: demo_create_def demo_env_def StoreState_new_def)
  have k: "st_keys s' = []" "st_next_rev s' = 1" "wf_faults (st_wal s') = []"
    using replay_channel [OF l c(1,2) r(1) c(3,4) r(2,3) c(5)]
    by (simp_all add: demo_env_def StoreState_new_def demo_wal_def)
  define x where "x = put_record ref_libs (demo_put [1] [2]) 1 s'"
  obtain s'' where w: "write_steps ref_libs s' [x] s''" using demo_put_step [OF k] by (auto simp: x_def)
  have f: "fits [1] [2]" by (simp add: fits_def)
  have ex: "rec_key x = Some [1]" "rec_rev x = 1"
    unfolding x_def put_record_def demo_put_def put_value_def
    using rec_new_facts [OF libs_ok_ref f] k(1) by (simp_all add: get_alive_def bt_get_def)
  have "channel (gc_event_tx (demo_create 1)) (st_outbox s'') =
      filter (selects (registration_of (context_of (demo_create 1)))) (log_events ([] @ [] @ [x]))"
    by (rule watch_exactly_once [OF libs_ok_ref l v _ c(2) r(1) c(3,4) r(2,3) c(5) _ _ w])
      (simp_all add: demo_env_def demo_create_def StoreState_new_def)
  also have "\<dots> = [event_of [] x]"
    by (simp add: selects_def registration_of_def context_of_def demo_create_def event_of_def ex
        resolve_range_def Let_def)
  finally have "channel 7 (st_outbox s'') = [event_of [] x]" by (simp add: demo_create_def)
  with r(1) w show ?thesis by blast
qed

definition demo_watched :: store_state where
  "demo_watched = (StoreState_new demo_wal)\<lparr>st_watchers := [registration_of (context_of (demo_create 1))]\<rparr>"

lemma demo_watched_live: "live_log ref_libs [] demo_watched"
proof -
  have "live_log ref_libs [] (StoreState_new demo_wal)" by (rule live_log_new) (simp_all add: demo_wal_def)
  then show ?thesis by (rule live_log_cong) (simp_all add: demo_watched_def)
qed

lemma live_delivery_is_log_witness:
  "\<exists>s x s'. write_steps ref_libs s [x] s' \<and> st_watchers s = [registration_of (context_of (demo_create 1))]
     \<and> channel 7 (st_outbox s') = [event_of [] x]"
proof -
  let ?w = "registration_of (context_of (demo_create 1))" and ?s = demo_watched
  define x where "x = put_record ref_libs (demo_put [1] [2]) 1 ?s"
  obtain s' where w: "write_steps ref_libs ?s [x] s'"
    using demo_put_step [of ?s] by (auto simp: x_def demo_watched_def StoreState_new_def demo_wal_def)
  have f: "fits [1] [2]" by (simp add: fits_def)
  have ex: "rec_key x = Some [1]" "rec_rev x = 1"
    unfolding x_def put_record_def demo_put_def put_value_def
    using rec_new_facts [OF libs_ok_ref f] by (simp_all add: get_alive_def bt_get_def demo_watched_def StoreState_new_def)
  have "channel (wr_sender ?w) (st_outbox s') = channel (wr_sender ?w) (st_outbox ?s)
      @ map (shown ?w) (filter (selects ?w) (events_after [] [x]))"
    by (rule live_delivery_is_log [OF libs_ok_ref demo_watched_live w]) (simp_all add: demo_watched_def)
  also have "\<dots> = [event_of [] x]"
    by (simp add: selects_def shown_def registration_of_def context_of_def demo_create_def event_of_def ex
        resolve_range_def Let_def demo_watched_def StoreState_new_def)
  finally have "channel 7 (st_outbox s') = [event_of [] x]"
    by (simp add: registration_of_def context_of_def demo_create_def Let_def)
  moreover have "st_watchers ?s = [?w]" by (simp add: demo_watched_def)
  ultimately show ?thesis using w by blast
qed

end
