(* ===== verification/Watch_Stream.thy ===== *)
theory Watch_Stream
  imports Watch_Delivery
begin

text \<open>
  The watch service of one client stream (\<^verbatim>\<open>Watch::watch\<close> in \<^verbatim>\<open>src/server/watch.rs\<close>): the task that reads
  the requests of the stream, and the task that forwards the events of one watcher.  A step of either
  task takes what it received, and whether the client still reads its response channel.
\<close>

section \<open>State\<close>

record watch_create_request =
  wq_key :: bytes
  wq_range_end :: bytes
  wq_start_revision :: i64
  wq_progress_notify :: bool
  wq_filters :: "i32 list"
  wq_prev_kv :: bool
  wq_watch_id :: i64

datatype watch_request = CreateRequest watch_create_request | CancelRequest i64 | ProgressRequest

text \<open>What reading the request stream gives.\<close>

datatype stream_message = Request "watch_request option" | EndOfStream | StreamFailed

text \<open>The service: the store, the two global counters, the queue to the batching task, and the next
  fresh channel number.\<close>

record watch_service =
  sv_store :: store_state
  sv_next_watch_id :: i64
  sv_next_stream_id :: u64
  sv_queue :: "global_create list"
  sv_next_channel :: nat

record forwarder =
  fw_watch_id :: i64
  fw_progress_notify :: bool
  fw_event_rx :: nat

text \<open>A stream: what it sent to the client, the watcher whose creation it waits for (with the number
  of the reply channel), the forwarding tasks it started, and whether its task has ended.\<close>

record stream_state =
  sm_stream_id :: u64
  sm_remote_addr :: string
  sm_frames :: "(status + watch_response) list"
  sm_waiting :: "(forwarder \<times> nat) option"
  sm_forwarders :: "forwarder list"
  sm_ended :: bool

definition next_watch_id :: "watch_service \<Rightarrow> i64 \<times> watch_service" where
  "next_watch_id sv = (sv_next_watch_id sv, sv\<lparr>sv_next_watch_id := sv_next_watch_id sv + 1\<rparr>)"

definition next_stream_id :: "watch_service \<Rightarrow> u64 \<times> watch_service" where
  "next_stream_id sv = (sv_next_stream_id sv, sv\<lparr>sv_next_stream_id := sv_next_stream_id sv + 1\<rparr>)"

definition open_stream :: "string option \<Rightarrow> watch_service \<Rightarrow> stream_state \<times> watch_service" where
  "open_stream remote_addr sv =
     (let remote_addr = (case remote_addr of Some a \<Rightarrow> a | None \<Rightarrow> ''unknown'');
          (stream_id, sv) = next_stream_id sv
      in (\<lparr>sm_stream_id = stream_id, sm_remote_addr = remote_addr, sm_frames = [], sm_waiting = None,
           sm_forwarders = [], sm_ended = False\<rparr>, sv))"

section \<open>The request task\<close>

text \<open>\<open>tx.send(..).await\<close>, ending the task when the client is gone.\<close>

definition send_or_end :: "bool \<Rightarrow> status + watch_response \<Rightarrow> stream_state \<Rightarrow> stream_state" where
  "send_or_end tx_open frame st =
     (if tx_open then st\<lparr>sm_frames := sm_frames st @ [frame]\<rparr> else st\<lparr>sm_ended := True\<rparr>)"

definition on_create ::
    "bool \<Rightarrow> watch_create_request \<Rightarrow> stream_state \<Rightarrow> watch_service \<Rightarrow> stream_state \<times> watch_service" where
  "on_create queue_open create st sv =
     (let (watch_id, sv) = (if wq_watch_id create \<noteq> 0 then (wq_watch_id create, sv) else next_watch_id sv);
          start_revision = resolve_start_revision (sv_store sv) (wq_start_revision create);
          event_tx = sv_next_channel sv;
          reply_tx = sv_next_channel sv + 1;
          sv = sv\<lparr>sv_next_channel := sv_next_channel sv + 2\<rparr>
      in if \<not> queue_open then (st\<lparr>sm_ended := True\<rparr>, sv)
         else
           (st\<lparr>sm_waiting := Some (\<lparr>fw_watch_id = watch_id,
                                  fw_progress_notify = wq_progress_notify create,
                                  fw_event_rx = event_tx\<rparr>, reply_tx)\<rparr>,
            sv\<lparr>sv_queue := sv_queue sv @
                 [\<lparr>gc_pending = \<lparr>pc_key = wq_key create, pc_range_end = wq_range_end create,
                                pc_start_revision = start_revision,
                                pc_progress_notify = wq_progress_notify create,
                                pc_filters = wq_filters create, pc_prev_kv = wq_prev_kv create\<rparr>,
                   gc_event_tx = event_tx, gc_reply = reply_tx, gc_stream_id = sm_stream_id st,
                   gc_remote_addr = sm_remote_addr st, gc_watch_id = watch_id\<rparr>]\<rparr>))"

text \<open>The outcome of waiting for the reply: a response, an error, or a dropped sender.\<close>

definition on_reply :: "bool \<Rightarrow> (status + watch_response) option \<Rightarrow> stream_state \<Rightarrow> stream_state" where
  "on_reply tx_open reply st =
     (case sm_waiting st of
        None \<Rightarrow> st
      | Some (fw, reply_rx) \<Rightarrow>
          let st = st\<lparr>sm_waiting := None\<rparr>
          in case reply of
               Some (Inr resp) \<Rightarrow>
                 if tx_open
                 then st\<lparr>sm_frames := sm_frames st @ [Inr resp], sm_forwarders := sm_forwarders st @ [fw]\<rparr>
                 else st\<lparr>sm_ended := True\<rparr>
             | Some (Inl status) \<Rightarrow>
                 (let st = (if tx_open then st\<lparr>sm_frames := sm_frames st @ [Inl status]\<rparr> else st)
                  in st\<lparr>sm_ended := True\<rparr>)
             | None \<Rightarrow> st\<lparr>sm_ended := True\<rparr>)"

definition on_cancel ::
    "bool \<Rightarrow> i64 \<Rightarrow> stream_state \<Rightarrow> watch_service \<Rightarrow> stream_state \<times> watch_service" where
  "on_cancel tx_open watch_id st sv =
     (let sv = sv\<lparr>sv_store := snd (cancel_watcher watch_id (sv_store sv))\<rparr>
      in (send_or_end tx_open
            (Inr \<lparr>ws_header = Some (make_header (current_revision (sv_store sv))), ws_watch_id = watch_id,
                  ws_created = False, ws_canceled = True, ws_compact_revision = 0,
                  ws_cancel_reason = [], ws_events = [], ws_fragment = False\<rparr>) st, sv))"

definition on_progress :: "bool \<Rightarrow> stream_state \<Rightarrow> watch_service \<Rightarrow> stream_state" where
  "on_progress tx_open st sv =
     send_or_end tx_open (Inr (make_progress_response (current_revision (sv_store sv)))) st"

text \<open>One turn of the loop; while a creation is pending the task does not read the stream.\<close>

definition stream_turn ::
    "bool \<Rightarrow> bool \<Rightarrow> stream_message \<Rightarrow> stream_state \<Rightarrow> watch_service \<Rightarrow> stream_state \<times> watch_service" where
  "stream_turn queue_open tx_open msg st sv =
     (if sm_ended st \<or> sm_waiting st \<noteq> None then (st, sv)
      else case msg of
        Request None \<Rightarrow> (st, sv)
      | Request (Some (CreateRequest create)) \<Rightarrow> on_create queue_open create st sv
      | Request (Some (CancelRequest watch_id)) \<Rightarrow> on_cancel tx_open watch_id st sv
      | Request (Some ProgressRequest) \<Rightarrow> (on_progress tx_open st sv, sv)
      | EndOfStream \<Rightarrow> (st\<lparr>sm_ended := True\<rparr>, sv)
      | StreamFailed \<Rightarrow> (st\<lparr>sm_ended := True\<rparr>, sv))"

section \<open>The forwarding task\<close>

datatype forward_input = GotEvent watch_event | EventsClosed | Tick

definition event_response :: "i64 \<Rightarrow> watch_event \<Rightarrow> watch_response" where
  "event_response watch_id ev =
     \<lparr>ws_header = Some (make_header (ev_revision ev)), ws_watch_id = watch_id, ws_created = False,
      ws_canceled = False, ws_compact_revision = 0, ws_cancel_reason = [],
      ws_events = [event_to_proto ev], ws_fragment = False\<rparr>"

definition tick_response :: "i64 \<Rightarrow> u64 \<Rightarrow> watch_response" where
  "tick_response watch_id revision =
     \<lparr>ws_header = Some (make_header revision), ws_watch_id = watch_id, ws_created = False,
      ws_canceled = False, ws_compact_revision = 0, ws_cancel_reason = [], ws_events = [],
      ws_fragment = False\<rparr>"

text \<open>One turn: the frames it sends, whether the task goes on, and the store, from which a watcher whose
  client is gone is removed.\<close>

definition forward_turn ::
    "bool \<Rightarrow> forwarder \<Rightarrow> forward_input \<Rightarrow> store_state \<Rightarrow> watch_response list \<times> bool \<times> store_state" where
  "forward_turn tx_open fw input s =
     (case input of
        EventsClosed \<Rightarrow> ([], False, s)
      | GotEvent ev \<Rightarrow>
          if tx_open then ([event_response (fw_watch_id fw) ev], True, s)
          else ([], False, snd (cancel_watcher (fw_watch_id fw) s))
      | Tick \<Rightarrow>
          if \<not> fw_progress_notify fw then ([], True, s)
          else if tx_open then ([tick_response (fw_watch_id fw) (current_revision s)], True, s)
          else ([], False, snd (cancel_watcher (fw_watch_id fw) s)))"

text \<open>The task over a sequence of inputs, each with the state of the response channel and of the store.\<close>

fun forward_run :: "forwarder \<Rightarrow> (bool \<times> forward_input \<times> store_state) list \<Rightarrow> watch_response list" where
  "forward_run fw [] = []"
| "forward_run fw ((tx_open, input, s) # inputs) =
     (case forward_turn tx_open fw input s of
        (frames, True, _) \<Rightarrow> frames @ forward_run fw inputs
      | (frames, False, _) \<Rightarrow> frames)"

section \<open>Properties\<close>

fun input_event :: "bool \<times> forward_input \<times> store_state \<Rightarrow> watch_event option" where
  "input_event (_, GotEvent ev, _) = Some ev"
| "input_event _ = None"

text \<open>The forwarding task delivers the events of its channel one response each, in order, under
  the id of its watcher and the revision of the event, as long as the client reads; between them it
  sends only empty progress responses.\<close>

theorem forward_in_order:
  assumes "list_all (\<lambda>x. fst x \<and> fst (snd x) \<noteq> EventsClosed) inputs"
  shows "concat (map ws_events (forward_run fw inputs)) = map event_to_proto (List.map_filter input_event inputs)
    \<and> filter (\<lambda>r. ws_events r \<noteq> []) (forward_run fw inputs) =
        map (event_response (fw_watch_id fw)) (List.map_filter input_event inputs)
    \<and> list_all (\<lambda>r. ws_watch_id r = fw_watch_id fw \<and> \<not> ws_created r \<and> \<not> ws_canceled r) (forward_run fw inputs)"
  using assms
proof (induction inputs)
  case (Cons x inputs)
  obtain tx i s where x: "x = (tx, i, s)" by (cases x)
  with Cons show ?case
    by (cases i) (auto simp: forward_turn_def event_response_def tick_response_def map_filter_simps)
qed (simp add: map_filter_simps)

lemma forward_in_order_witness:
  "concat (map ws_events (forward_run \<lparr>fw_watch_id = 9, fw_progress_notify = True, fw_event_rx = 7\<rparr>
       [(True, GotEvent (event_of [] demo_record), StoreState_new demo_wal), (True, Tick, StoreState_new demo_wal)]))
     = [event_to_proto (event_of [] demo_record)]"
  using forward_in_order [of "[(True, GotEvent (event_of [] demo_record), StoreState_new demo_wal),
      (True, Tick, StoreState_new demo_wal)]" "\<lparr>fw_watch_id = 9, fw_progress_notify = True, fw_event_rx = 7\<rparr>"]
  by (simp add: map_filter_simps)

text \<open>C27. Cancelling stops delivery: after a cancel request, whatever its stream, no watcher with
  that id is registered and all others are kept in order; whatever is written afterwards, the channels
  only of the kept watchers grow.  The client is told that the watcher is cancelled.\<close>

theorem cancel_stops_delivery:
  assumes "libs_ok E" and "live_log E rs (sv_store sv)" and "distinct (map wr_sender (st_watchers (sv_store sv)))"
    and "on_cancel True watch_id st sv = (st', sv')"
    and "write_steps E (sv_store sv') xs s'"
    and "w \<in> set (st_watchers (sv_store sv))"
  shows "st_watchers s' = filter (\<lambda>w. wr_watch_id w \<noteq> watch_id) (st_watchers (sv_store sv))
    \<and> channel (wr_sender w) (st_outbox s') = channel (wr_sender w) (st_outbox (sv_store sv))
        @ (if wr_watch_id w = watch_id then [] else map (shown w) (filter (selects w) (events_after rs xs)))
    \<and> (\<exists>resp. sm_frames st' = sm_frames st @ [Inr resp] \<and> ws_canceled resp \<and> ws_watch_id resp = watch_id)"
proof -
  let ?s = "sv_store sv" and ?k = "filter (\<lambda>w. wr_watch_id w \<noteq> watch_id) (st_watchers (sv_store sv))"
  have s: "sv_store sv' = ?s\<lparr>st_watchers := ?k\<rparr>"
    and fr: "\<exists>resp. sm_frames st' = sm_frames st @ [Inr resp] \<and> ws_canceled resp \<and> ws_watch_id resp = watch_id"
    using assms(4) by (auto simp: on_cancel_def cancel_watcher_def Let_def send_or_end_def)
  have "live_log E rs (sv_store sv')" by (rule live_log_cong [OF assms(2)]) (simp_all add: s)
  from write_steps_logged [OF assms(1,5) this]
  have l: "st_watchers s' = ?k" "st_outbox s' = st_outbox ?s @ notify_all ?k (events_after rs xs)"
    by (simp_all add: logged_def s)
  have d: "distinct (map wr_sender ?k)" using assms(3) by (rule distinct_map_filter)
  have "channel (wr_sender w) (notify_all ?k evs) = []" if "wr_watch_id w = watch_id" for evs
  proof -
    have "wr_sender w \<notin> wr_sender ` set ?k"
      using assms(3,6) that by (auto simp: distinct_map inj_on_def)
    then have "channel (wr_sender w) (notify_loop ev ?k) = []" for ev
      by (rule channel_notify_other)
    then show ?thesis by (induction evs) (simp_all add: notify_all_def)
  qed
  moreover have "channel (wr_sender w) (notify_all ?k evs) = map (shown w) (filter (selects w) evs)"
    if "wr_watch_id w \<noteq> watch_id" for evs
    using channel_notify_all [OF d, of w evs] assms(6) that by simp
  ultimately show ?thesis using l fr by simp
qed

definition demo_service :: watch_service where
  "demo_service = \<lparr>sv_store = demo_watched, sv_next_watch_id = 1, sv_next_stream_id = 1, sv_queue = [],
     sv_next_channel = 8\<rparr>"

lemma cancel_stops_delivery_witness:
  "\<exists>st' sv' x s'. on_cancel True 9 (fst (open_stream None demo_service)) demo_service = (st', sv')
     \<and> write_steps ref_libs (sv_store sv') [x] s' \<and> st_watchers s' = [] \<and> channel 7 (st_outbox s') = []"
proof -
  let ?w = "registration_of (context_of (demo_create 1))"
  let ?st = "fst (open_stream None demo_service)"
  obtain st' sv' where c: "on_cancel True 9 ?st demo_service = (st', sv')" by fastforce
  then have k: "st_keys (sv_store sv') = []" "st_next_rev (sv_store sv') = 1"
    "wf_faults (st_wal (sv_store sv')) = []"
    by (auto simp: on_cancel_def cancel_watcher_def Let_def demo_service_def demo_watched_def
        StoreState_new_def demo_wal_def)
  obtain x s' where w: "write_steps ref_libs (sv_store sv') [x] s'" using demo_put_step [OF k] by blast
  have l: "live_log ref_libs [] (sv_store demo_service)" by (simp add: demo_service_def demo_watched_live)
  have m: "?w \<in> set (st_watchers (sv_store demo_service))" "distinct (map wr_sender (st_watchers (sv_store demo_service)))"
    "wr_watch_id ?w = 9" "wr_sender ?w = 7" "st_outbox (sv_store demo_service) = []"
    "st_watchers (sv_store demo_service) = [?w]"
    by (simp_all add: demo_service_def demo_watched_def registration_of_def context_of_def demo_create_def
        Let_def StoreState_new_def)
  have "st_watchers s' = [] \<and> channel 7 (st_outbox s') = []"
    using cancel_stops_delivery [OF libs_ok_ref l m(2) c w m(1)] m(3-6) by simp
  with c w show ?thesis by blast
qed

end
