(* ===== verification/Services.thy ===== *)
theory Services
  imports Recovery
begin

text \<open>
  The remaining gRPC services of \<^verbatim>\<open>src/server\<close>: the key-value and lease services, which pass requests on
  to the store, the keep-alive stream, and the maintenance service with its state hash and its
  chunked snapshot; the cluster and authentication services only report a single member or refuse.
  Tracing output is left out.
\<close>

section \<open>Key-value service\<close>

definition Kv_range ::
    "libs \<Rightarrow> store_state \<Rightarrow> store_state \<Rightarrow> (nat \<Rightarrow> store_state) \<Rightarrow> io_error + bytes option
       \<Rightarrow> range_request \<Rightarrow> range_response res" where
  "Kv_range E s_rev s_compact \<sigma> file req =
     (case range_store E s_rev s_compact \<sigma> file req of
        Ok resp \<Rightarrow> Ok resp | Err e \<Rightarrow> Err e | Panic \<Rightarrow> Panic)"

definition Kv_put :: "libs \<Rightarrow> put_request \<Rightarrow> store_state \<Rightarrow> put_response res \<times> store_state" where
  "Kv_put E req s =
     (case put E req s of (Ok r, s) \<Rightarrow> (Ok r, s) | (Err e, s) \<Rightarrow> (Err e, s) | (Panic, s) \<Rightarrow> (Panic, s))"

definition Kv_delete_range ::
    "libs \<Rightarrow> delete_range_request \<Rightarrow> store_state \<Rightarrow> delete_range_response res \<times> store_state" where
  "Kv_delete_range E req s =
     (case delete_range E req s of
        (Ok r, s) \<Rightarrow> (Ok r, s) | (Err e, s) \<Rightarrow> (Err e, s) | (Panic, s) \<Rightarrow> (Panic, s))"

definition Kv_txn ::
    "libs \<Rightarrow> (nat \<Rightarrow> read_env) \<Rightarrow> txn_request \<Rightarrow> store_state \<Rightarrow> txn_response res \<times> store_state" where
  "Kv_txn E env req s =
     (case txn E env req s of
        (Ok r, s) \<Rightarrow> (Ok r, s) | (Err e, s) \<Rightarrow> (Err e, s) | (Panic, s) \<Rightarrow> (Panic, s))"

definition Kv_compact :: "i64 \<Rightarrow> store_state \<Rightarrow> response_header res \<times> store_state" where
  "Kv_compact revision s = compact revision s"

section \<open>Lease service\<close>

definition Lease_grant ::
    "nat \<Rightarrow> lease_grant_request \<Rightarrow> store_state \<Rightarrow> lease_grant_response res \<times> store_state" where
  "Lease_grant now req s =
     (case lease_grant now req s of
        (Ok r, s) \<Rightarrow> (Ok r, s) | (Err e, s) \<Rightarrow> (Err e, s) | (Panic, s) \<Rightarrow> (Panic, s))"

definition Lease_revoke :: "libs \<Rightarrow> i64 \<Rightarrow> store_state \<Rightarrow> response_header res \<times> store_state" where
  "Lease_revoke E lease_id s =
     (case lease_revoke E lease_id s of
        (Ok r, s) \<Rightarrow> (Ok r, s) | (Err e, s) \<Rightarrow> (Err e, s) | (Panic, s) \<Rightarrow> (Panic, s))"

definition Lease_time_to_live ::
    "nat \<Rightarrow> i64 \<Rightarrow> bool \<Rightarrow> store_state \<Rightarrow> lease_time_to_live_response res" where
  "Lease_time_to_live now req_id req_keys s = Ok (lease_time_to_live now req_id req_keys s)"

definition Lease_leases :: "store_state \<Rightarrow> lease_leases_response res" where
  "Lease_leases s = Ok (lease_leases s)"

text \<open>
  The keep-alive stream.  A message of the client arrives at a time and finds the response channel
  open or dropped; \<open>KaStop\<close> is the end of the stream or a transport error.  An error response that
  cannot be sent is ignored, a keep-alive response that cannot be sent ends the task.
\<close>

datatype ka_message = KaRequest i64 nat bool | KaStop

fun keep_alive_stream ::
    "ka_message list \<Rightarrow> store_state \<Rightarrow> lease_keep_alive_response res list \<times> store_state" where
  "keep_alive_stream [] s = ([], s)"
| "keep_alive_stream (KaStop # msgs) s = ([], s)"
| "keep_alive_stream (KaRequest lease_id now tx_open # msgs) s =
     (case lease_keep_alive now lease_id s of
        (Ok r, s) \<Rightarrow>
          if tx_open then
            (let (rs, s) = keep_alive_stream msgs s in (Ok r # rs, s))
          else ([], s)
      | (Err e, s) \<Rightarrow>
          (let (rs, s) = keep_alive_stream msgs s in (if tx_open then Err e # rs else rs, s))
      | (Panic, s) \<Rightarrow> ([Panic], s))"

section \<open>Maintenance service\<close>

record status_response =
  sr_header :: "response_header option"
  sr_version :: string
  sr_db_size :: i64
  sr_leader :: u64
  sr_raft_index :: u64
  sr_raft_term :: u64
  sr_db_size_in_use :: i64
  sr_is_learner :: bool
  sr_raft_applied_index :: u64
  sr_errors :: "string list"

record snapshot_response =
  sp_header :: "response_header option"
  sp_remaining_bytes :: u64
  sp_blob :: bytes

text \<open>\<open>Store::db_size\<close>: the length of the log file, 0 when it cannot be read.\<close>

definition db_size :: "bool \<Rightarrow> store_state \<Rightarrow> i64" where
  "db_size stat s = (if stat then word_of_nat (length (wf_content (st_wal s))) else 0)"

text \<open>\<open>Store::store_hash\<close>: the streaming hash of the \<open>xxhash\<close> crate is the parameter \<open>xxh3\<close>, a function
  of the bytes fed to it; hashing a byte string feeds its length as eight bytes, then its bytes.\<close>

definition hash_bytes :: "bytes \<Rightarrow> bytes" where
  "hash_bytes b = to_le_bytes 8 (word_of_nat (length b) :: u64) @ b"

definition store_hash :: "(bytes \<Rightarrow> u64) \<Rightarrow> store_state \<Rightarrow> u64" where
  "store_hash xxh3 s =
     xxh3 (concat (map (\<lambda>(k, ks). if ks_delete_revision ks \<noteq> 0 then []
                                  else hash_bytes k @ hash_bytes (ks_value ks))
                     (bt_iter (st_keys s))))"

definition Maintenance_status :: "bool \<Rightarrow> store_state \<Rightarrow> status_response" where
  "Maintenance_status stat s =
     \<lparr>sr_header = Some (header s), sr_version = ''3.5.14'', sr_db_size = db_size stat s, sr_leader = 1,
      sr_raft_index = current_revision s, sr_raft_term = 1, sr_db_size_in_use = db_size stat s,
      sr_is_learner = False, sr_raft_applied_index = current_revision s, sr_errors = []\<rparr>"

definition Maintenance_hash :: "(bytes \<Rightarrow> u64) \<Rightarrow> store_state \<Rightarrow> response_header \<times> u32" where
  "Maintenance_hash xxh3 s = (header s, ucast (store_hash xxh3 s))"

definition Maintenance_hash_kv :: "(bytes \<Rightarrow> u64) \<Rightarrow> store_state \<Rightarrow> response_header \<times> u32 \<times> i64" where
  "Maintenance_hash_kv xxh3 s = (header s, ucast (store_hash xxh3 s), st_compact_rev s)"

definition CHUNK_SIZE :: nat where "CHUNK_SIZE = 64 * 1024"

definition snapshot_entry :: "bytes \<times> key_state \<Rightarrow> bytes" where
  "snapshot_entry e =
     (case e of (k, ks) \<Rightarrow>
        if ks_delete_revision ks \<noteq> 0 then []
        else to_le_bytes 4 (word_of_nat (length k) :: u32) @ k
               @ to_le_bytes 4 (word_of_nat (length (ks_value ks)) :: u32) @ ks_value ks)"

definition snapshot_buf :: "store_state \<Rightarrow> bytes" where
  "snapshot_buf s =
     to_le_bytes 8 (current_revision s) @ to_le_bytes 4 (word_of_nat (length (st_keys s)) :: u32)
       @ concat (map snapshot_entry (bt_iter (st_keys s)))"

text \<open>The loop over the offset, on the bytes still to be sent.\<close>

function snapshot_chunks :: "bytes \<Rightarrow> snapshot_response list" where
  "snapshot_chunks buf =
     (if buf = [] then []
      else
        let chunk = take CHUNK_SIZE buf;
            rest = drop CHUNK_SIZE buf
        in \<lparr>sp_header = None, sp_remaining_bytes = word_of_nat (length rest), sp_blob = chunk\<rparr>
             # snapshot_chunks rest)"
  by pat_completeness auto
termination
  by (relation "measure length") (auto simp: CHUNK_SIZE_def)

declare snapshot_chunks.simps [simp del]

definition Maintenance_snapshot :: "store_state \<Rightarrow> snapshot_response list" where
  "Maintenance_snapshot s = snapshot_chunks (snapshot_buf s)"

text \<open>The handlers that answer without looking at the keys: no alarms, nothing to defragment, no other leader.\<close>

definition Maintenance_alarm :: "store_state \<Rightarrow> response_header option \<times> unit list" where
  "Maintenance_alarm s = (Some (header s), [])"

definition Maintenance_defragment :: "response_header option" where
  "Maintenance_defragment = None"

definition Maintenance_move_leader :: "unit res" where
  "Maintenance_move_leader = Err (Status Unimplemented ''single-node cluster'')"

section \<open>Cluster and authentication\<close>

record member =
  mb_id :: u64
  mb_name :: string
  mb_peer_urls :: "string list"
  mb_client_urls :: "string list"
  mb_is_learner :: bool

definition self_member :: member where
  "self_member =
     \<lparr>mb_id = 1, mb_name = ''rudurru'', mb_peer_urls = [''http://localhost:2380''],
      mb_client_urls = [''http://localhost:2379''], mb_is_learner = False\<rparr>"

datatype cluster_request = MemberAdd | MemberRemove | MemberUpdate | MemberList | MemberPromote

definition Cluster_handle ::
    "cluster_request \<Rightarrow> store_state \<Rightarrow> (response_header option \<times> member list) res" where
  "Cluster_handle req s =
     (case req of
        MemberList \<Rightarrow> Ok (Some (header s), [self_member])
      | _ \<Rightarrow> Err (Status Unimplemented ''single-node cluster''))"

datatype auth_request = AuthEnable | AuthDisable | Authenticate | UserAdd | UserGet | UserList | UserDelete
  | UserChangePassword | UserGrantRole | UserRevokeRole | RoleAdd | RoleGet | RoleList | RoleDelete
  | RoleGrantPermission | RoleRevokePermission

definition Auth_handle :: "auth_request \<Rightarrow> unit res" where
  "Auth_handle req = Err (Status Unimplemented ''not implemented'')"

section \<open>The snapshot\<close>

text \<open>A reader of the format: pairs of length-prefixed strings up to the end of the bytes.\<close>

definition take_block :: "bytes \<Rightarrow> (bytes \<times> bytes) option" where
  "take_block buf =
     (let n = unat (from_le_bytes (take 4 buf) :: u32)
      in if length buf < 4 + n then None else Some (take n (drop 4 buf), drop (4 + n) buf))"

function parse_entries :: "bytes \<Rightarrow> (bytes \<times> bytes) list option" where
  "parse_entries buf =
     (if buf = [] then Some []
      else case take_block buf of
        None \<Rightarrow> None
      | Some (k, buf') \<Rightarrow>
          (case take_block buf' of
             None \<Rightarrow> None
           | Some (v, buf'') \<Rightarrow> map_option ((#) (k, v)) (parse_entries buf'')))"
  by pat_completeness auto
termination
  by (relation "measure length") (auto simp: take_block_def Let_def split: if_splits)

declare parse_entries.simps [simp del]

lemma take_block_app:
  assumes "length b < 2 ^ 32"
  shows "take_block (to_le_bytes 4 (word_of_nat (length b) :: u32) @ b @ rest) = Some (b, rest)"
proof -
  have n: "unat (word_of_nat (length b) :: u32) = length b" using assms by (simp add: unat_of_nat_small)
  have "from_le_bytes (to_le_bytes 4 (word_of_nat (length b) :: u32)) = (word_of_nat (length b) :: u32)"
    by (simp add: codec_simps)
  then show ?thesis using n by (simp add: take_block_def Let_def)
qed

lemma parse_entries_app:
  assumes "length k < 2 ^ 32" and "length v < 2 ^ 32"
  shows "parse_entries (to_le_bytes 4 (word_of_nat (length k) :: u32) @ k
      @ to_le_bytes 4 (word_of_nat (length v) :: u32) @ v @ rest) = map_option ((#) (k, v)) (parse_entries rest)"
  (is "parse_entries ?b = _")
proof -
  have "?b \<noteq> []" using length_to_le_bytes [of 4 "word_of_nat (length k) :: u32"]
    by (metis append_is_Nil_conv list.size(3) zero_neq_numeral)
  then show ?thesis
    using assms by (simp only: parse_entries.simps [of ?b] take_block_app if_False option.case prod.case)
qed

lemma parse_snapshot_entries:
  assumes "\<forall>e \<in> set es. length (fst e) < 2 ^ 32 \<and> length (ks_value (snd e)) < 2 ^ 32"
  shows "parse_entries (concat (map snapshot_entry es)) =
    Some (map (\<lambda>e. (fst e, ks_value (snd e))) (filter (\<lambda>e. is_alive (snd e)) es))"
  using assms
proof (induction es)
  case (Cons e es)
  obtain k ks where e: "e = (k, ks)" by (cases e)
  have "snapshot_entry (k, ks) = (if ks_delete_revision ks \<noteq> 0 then []
      else to_le_bytes 4 (word_of_nat (length k) :: u32) @ k
             @ to_le_bytes 4 (word_of_nat (length (ks_value ks)) :: u32) @ ks_value ks)"
    by (simp add: snapshot_entry_def)
  with e Cons show ?case
    using parse_entries_app [of k "ks_value ks" "concat (map snapshot_entry es)"]
    by (cases "ks_delete_revision ks = 0") (simp_all add: is_alive_def)
qed (simp add: parse_entries.simps)

lemma snapshot_chunks_correct:
  assumes "length buf < 2 ^ 64"
  shows "concat (map sp_blob (snapshot_chunks buf)) = buf
    \<and> list_all (\<lambda>c. sp_blob c \<noteq> [] \<and> length (sp_blob c) \<le> CHUNK_SIZE) (snapshot_chunks buf)
    \<and> map (\<lambda>c. unat (sp_remaining_bytes c)) (snapshot_chunks buf) =
        map (\<lambda>i. length (concat (drop (Suc i) (map sp_blob (snapshot_chunks buf))))) [0..<length (snapshot_chunks buf)]"
  using assms
proof (induction buf rule: snapshot_chunks.induct)
  case (1 buf)
  show ?case
  proof (cases "buf = []")
    case False
    let ?c = "\<lparr>sp_header = None, sp_remaining_bytes = word_of_nat (length (drop CHUNK_SIZE buf)),
                sp_blob = take CHUNK_SIZE buf\<rparr>"
    have e: "snapshot_chunks buf = ?c # snapshot_chunks (drop CHUNK_SIZE buf)"
      using False by (simp add: snapshot_chunks.simps [of buf])
    have IH: "concat (map sp_blob (snapshot_chunks (drop CHUNK_SIZE buf))) = drop CHUNK_SIZE buf"
      using "1.IH" [OF False refl refl] "1.prems" by simp
    have z: "[0..<Suc n] = 0 # map Suc [0..<n]" for n by (simp add: upt_conv_Cons map_Suc_upt del: upt_Suc)
    have "unat (word_of_nat (length buf - CHUNK_SIZE) :: u64) = length buf - CHUNK_SIZE"
      using "1.prems" by (intro unat_of_nat_small) simp
    then show ?thesis
      using "1.IH" [OF False refl refl] "1.prems" False IH
      by (simp add: e z del: upt_Suc) (simp add: CHUNK_SIZE_def)
  qed (simp add: snapshot_chunks.simps)
qed

text \<open>C25. The snapshot stream is complete: its chunks are not empty, hold at most 64 KiB and announce
  exactly the bytes that follow; put together they give the current revision and, read as
  length-prefixed pairs, exactly the live keys with their values in key order.\<close>

theorem snapshot_roundtrip:
  assumes "store_ok s" and "length (snapshot_buf s) < 2 ^ 64"
  defines "cs \<equiv> Maintenance_snapshot s"
  shows "list_all (\<lambda>c. sp_blob c \<noteq> [] \<and> length (sp_blob c) \<le> CHUNK_SIZE) cs
    \<and> map (\<lambda>c. unat (sp_remaining_bytes c)) cs =
        map (\<lambda>i. length (concat (drop (Suc i) (map sp_blob cs)))) [0..<length cs]
    \<and> from_le_bytes (take 8 (concat (map sp_blob cs))) = current_revision s
    \<and> parse_entries (drop 12 (concat (map sp_blob cs))) =
        Some (map (\<lambda>e. (fst e, ks_value (snd e))) (filter (\<lambda>e. is_alive (snd e)) (st_keys s)))"
proof -
  note c = snapshot_chunks_correct [OF assms(2), folded Maintenance_snapshot_def, folded cs_def]
  have "\<forall>e \<in> set (st_keys s). length (fst e) < 2 ^ 32 \<and> length (ks_value (snd e)) < 2 ^ 32"
  proof
    fix e assume e: "e \<in> set (st_keys s)"
    have "bt_ok (st_keys s)" using assms(1) by (simp add: store_ok_def keys_ok_def)
    with e have "bt_get (st_keys s) (fst e) = Some (snd e)"
      using bt.iter_get [of "st_keys s" "fst e" "snd e"] by (simp add: bt_iter_def)
    then show "length (fst e) < 2 ^ 32 \<and> length (ks_value (snd e)) < 2 ^ 32"
      using assms(1) by (auto simp: store_ok_def keys_ok_def entry_ok_def)
  qed
  from parse_snapshot_entries [OF this]
  have "parse_entries (drop 12 (snapshot_buf s)) =
      Some (map (\<lambda>e. (fst e, ks_value (snd e))) (filter (\<lambda>e. is_alive (snd e)) (st_keys s)))"
    by (simp add: snapshot_buf_def bt_iter_def)
  moreover have "from_le_bytes (take 8 (snapshot_buf s)) = current_revision s"
    by (simp add: snapshot_buf_def codec_simps)
  ultimately show ?thesis using c by simp
qed

lemma snapshot_roundtrip_witness:
  "parse_entries (drop 12 (concat (map sp_blob (Maintenance_snapshot demo_state)))) = Some [([1], [2])]"
proof -
  have k: "\<exists>ks. st_keys demo_state = [([1], ks)] \<and> is_alive ks \<and> ks_value ks = [2]"
  proof -
    obtain e where e: "st_keys demo_state = [e]" using demo_state_ok(3) by (auto simp: length_Suc_conv)
    have "view_of demo_state [1] \<noteq> None" "\<forall>v. view_of demo_state [1] = Some v \<longrightarrow> a_value v = [2]"
      using demo_view by (simp_all add: demo_state_def spec_put_def)
    then obtain ks where "bt_get (st_keys demo_state) [1] = Some ks" "is_alive ks" "ks_value ks = [2]"
      by (auto simp: view_of_def get_alive_def abs_entry_def split: option.splits if_splits)
    with e show ?thesis by (cases e) (auto simp: bt_get_def split: if_splits)
  qed
  then obtain ks where ks: "st_keys demo_state = [([1], ks)]" "is_alive ks" "ks_value ks = [2]" by blast
  have "length (snapshot_buf demo_state) < 2 ^ 64"
    using ks by (simp add: snapshot_buf_def snapshot_entry_def bt_iter_def)
  from snapshot_roundtrip [OF demo_state_ok(1) this] show ?thesis using ks by simp
qed

section \<open>The state hash\<close>

text \<open>The live keys with their values, again as an ordered map.\<close>

definition live_values :: "store_state \<Rightarrow> (bytes, bytes) btree" where
  "live_values s = map (\<lambda>e. (fst e, ks_value (snd e))) (filter (\<lambda>e. is_alive (snd e)) (bt_iter (st_keys s)))"

lemma live_values_ok: "bt_ok (st_keys s) \<Longrightarrow> bt_ok (live_values s)"
  by (simp add: bt_ok_def live_values_def bt_iter_def sorted_wrt_map sorted_wrt_filter comp_def)

lemma live_values_get:
  assumes "bt_ok (st_keys s)"
  shows "bt_get (live_values s) k = map_option a_value (view_of s k)"
proof -
  have "bt_get (live_values s) k = Some v \<longleftrightarrow> map_option a_value (view_of s k) = Some v" for v
    using bt.iter_get [OF live_values_ok [OF assms], of k v] bt.iter_get [OF assms, of k]
    by (force simp: live_values_def view_of_def get_alive_Some abs_entry_def bt_iter_def)
  then show ?thesis by (metis not_None_eq)
qed

text \<open>The hash reported by the maintenance service is a function of what clients see: two
  well-formed stores that show the same keys with the same values have the same hash, whatever their
  revisions, versions, leases and tombstones.\<close>

theorem store_hash_view:
  assumes "store_ok s" and "store_ok t"
    and "(\<lambda>k. map_option a_value (view_of s k)) = (\<lambda>k. map_option a_value (view_of t k))"
  shows "store_hash xxh3 s = store_hash xxh3 t"
proof -
  have ok: "bt_ok (st_keys s)" "bt_ok (st_keys t)" using assms(1,2) by (simp_all add: store_ok_def keys_ok_def)
  have "concat (map (\<lambda>(k, ks). if ks_delete_revision ks \<noteq> 0 then [] else hash_bytes k @ hash_bytes (ks_value ks)) es) =
      concat (map (\<lambda>(k, v). hash_bytes k @ hash_bytes v)
        (map (\<lambda>e. (fst e, ks_value (snd e))) (filter (\<lambda>e. is_alive (snd e)) es)))" for es
    by (induction es) (auto simp: is_alive_def)
  then have h: "store_hash xxh3 u = xxh3 (concat (map (\<lambda>(k, v). hash_bytes k @ hash_bytes v) (live_values u)))" for u
    unfolding store_hash_def live_values_def by simp
  have "bt_iter (live_values s) = bt_iter (live_values t)"
    using assms(3) by (intro bt.iter_cong live_values_ok ok) (simp add: live_values_get ok fun_eq_iff)
  then show ?thesis unfolding h by (simp add: bt_iter_def)
qed

lemma store_hash_view_witness:
  "store_hash (\<lambda>b. word_of_nat (length b)) (snd (compact 1 demo_state))
     = store_hash (\<lambda>b. word_of_nat (length b)) demo_state"
proof -
  have "st_keys (snd (compact 1 demo_state)) = st_keys demo_state" by (simp add: compact_def Let_def)
  moreover have "store_ok (snd (compact 1 demo_state))"
    using demo_state_ok(1,2) by (auto simp: compact_def Let_def store_ok_def keys_ok_def leases_ok_def current_revision_def)
  ultimately show ?thesis
    using demo_state_ok(1) by (intro store_hash_view) (simp_all add: view_of_def get_alive_def)
qed

section \<open>The keep-alive stream\<close>

text \<open>C26. A keep-alive stream whose client reads its responses answers every request in order,
  with an error exactly for the leases that do not exist; it changes no key, and leaves every lease it
  names with the deadline of its last request and every other lease as it was.\<close>

theorem keep_alive_stream_correct:
  assumes "store_ok s" and "\<forall>p \<in> set ps. snd p < 2 ^ 62 * 1000000000"
    and "keep_alive_stream (map (\<lambda>p. KaRequest (fst p) (snd p) True) ps) s = (rs, s')"
  shows "store_ok s' \<and> st_keys s' = st_keys s \<and> map is_ok rs = map (\<lambda>p. has_lease s (fst p)) ps
    \<and> (\<forall>j. bt_get (st_leases s') j =
         map_option (\<lambda>l. case rev (filter (\<lambda>p. fst p = ls_id l) ps) of
                           [] \<Rightarrow> l
                         | p # _ \<Rightarrow> l\<lparr>ls_expires_at := snd p + nat (sint (ls_ttl l)) * 1000000000\<rparr>)
           (bt_get (st_leases s) j))"
  using assms
proof (induction ps arbitrary: s rs)
  case (Cons p ps)
  define t where "t = snd (lease_keep_alive (snd p) (fst p) s)"
  have now: "snd p < 2 ^ 62 * 1000000000" using Cons.prems(2) by simp
  note k = keep_alive_effect [OF Cons.prems(1) now, of "fst p", folded t_def]
  obtain rs' where r: "keep_alive_stream (map (\<lambda>p. KaRequest (fst p) (snd p) True) ps) t = (rs', s')"
    "rs = fst (lease_keep_alive (snd p) (fst p) s) # rs'"
    using Cons.prems(3) k
    by (cases "lease_keep_alive (snd p) (fst p) s"; cases "fst (lease_keep_alive (snd p) (fst p) s)")
      (auto simp: t_def split: prod.splits)
  note IH = Cons.IH [of t rs'] k r(1) Cons.prems(2)
  have h: "has_lease t i = has_lease s i" for i
    using k by (simp add: has_lease_def)
  have "bt_get (st_leases s') j = map_option (\<lambda>l. case rev (filter (\<lambda>q. fst q = ls_id l) (p # ps)) of
        [] \<Rightarrow> l | q # _ \<Rightarrow> l\<lparr>ls_expires_at := snd q + nat (sint (ls_ttl l)) * 1000000000\<rparr>)
      (bt_get (st_leases s) j)" for j
    using IH by (auto simp: option.map_comp comp_def map_option_case split: option.splits list.splits)
  then show ?case using IH h k r(2) by simp
qed (simp add: option.map_ident)

lemma keep_alive_stream_correct_witness:
  "\<exists>rs s'. keep_alive_stream [KaRequest 5 20 True, KaRequest 7 21 True, KaRequest 5 30 True] demo_due = (rs, s')
     \<and> map is_ok rs = [True, False, True]
     \<and> map_option ls_expires_at (bt_get (st_leases s') 5) = Some 2000000030
     \<and> map_option ls_expires_at (bt_get (st_leases s') 6) = Some 9"
proof -
  let ?ps = "[(5, 20), (7, 21), (5, 30)] :: (i64 \<times> nat) list"
  have ok: "store_ok demo_due"
    using store_ok_new [of demo_wal]
    by (auto simp: demo_due_def store_ok_def leases_ok_def keys_ok_def bt_ok_def bt_get_def split: if_splits)
  obtain rs s' where r: "keep_alive_stream (map (\<lambda>p. KaRequest (fst p) (snd p) True) ?ps) demo_due = (rs, s')"
    by fastforce
  from keep_alive_stream_correct [OF ok _ r]
  have "map is_ok rs = map (\<lambda>p. has_lease demo_due (fst p)) ?ps"
    "bt_get (st_leases s') j = map_option (\<lambda>l. case rev (filter (\<lambda>p. fst p = ls_id l) ?ps) of
        [] \<Rightarrow> l | p # _ \<Rightarrow> l\<lparr>ls_expires_at := snd p + nat (sint (ls_ttl l)) * 1000000000\<rparr>)
      (bt_get (st_leases demo_due) j)" for j by simp_all
  with r show ?thesis by (simp add: demo_due_def has_lease_def bt_get_def)
qed

end
