(* ===== verification/Server.thy ===== *)
theory Server
  imports Watch_Stream Services
begin

text \<open>
  The server: the services that \<^verbatim>\<open>src/main.rs\<close> adds over one store (\<^verbatim>\<open>src/server/mod.rs\<close>), the batching
  task of the watch service, its streams and forwarding tasks, and the background tasks of the store, as one state
  machine whose steps interleave in any order.  The invariants of the components are lifted to it: the store stays
  well-formed and durable, revisions never go backwards, and events reach the client under the id of their watch.
\<close>

section \<open>Requests\<close>

datatype rpc =
    RangeRpc range_request | PutRpc put_request | DeleteRangeRpc delete_range_request | TxnRpc txn_request
  | CompactRpc i64
  | LeaseGrantRpc lease_grant_request | LeaseRevokeRpc i64 | LeaseKeepAliveRpc "ka_message list"
  | LeaseTimeToLiveRpc i64 bool | LeaseLeasesRpc
  | ClusterRpc cluster_request
  | AlarmRpc | StatusRpc | DefragmentRpc | HashRpc | HashKvRpc | SnapshotRpc | MoveLeaderRpc
  | AuthRpc auth_request

datatype rpc_reply =
    RangeReply "range_response res" | PutReply "put_response res" | DeleteRangeReply "delete_range_response res"
  | TxnReply "txn_response res" | HeaderReply "response_header res"
  | LeaseGrantReply "lease_grant_response res" | LeaseKeepAliveReplies "lease_keep_alive_response res list"
  | LeaseTimeToLiveReply "lease_time_to_live_response res" | LeaseLeasesReply "lease_leases_response res"
  | ClusterReply "(response_header option \<times> member list) res"
  | AlarmReply "response_header option \<times> unit list" | StatusReply status_response
  | DefragmentReply "response_header option" | HashReply "response_header \<times> u32"
  | HashKvReply "response_header \<times> u32 \<times> i64" | SnapshotReplies "snapshot_response list"
  | UnitReply "unit res"

text \<open>What a call finds around it: the clock, the states and the log file that its reads see, whether the size of the
  log file can be read, and the hash function of the \<open>xxhash\<close> crate.\<close>

record call_env =
  ce_now :: nat
  ce_read :: read_env
  ce_txn :: "nat \<Rightarrow> read_env"
  ce_stat :: bool
  ce_xxh3 :: "bytes \<Rightarrow> u64"

fun serve :: "libs \<Rightarrow> call_env \<Rightarrow> rpc \<Rightarrow> store_state \<Rightarrow> rpc_reply \<times> store_state" where
  "serve E ce (RangeRpc req) s =
     (case ce_read ce of (s_rev, s_compact, \<sigma>, file) \<Rightarrow> (RangeReply (Kv_range E s_rev s_compact \<sigma> file req), s))"
| "serve E ce (PutRpc req) s = (let (r, s) = Kv_put E req s in (PutReply r, s))"
| "serve E ce (DeleteRangeRpc req) s = (let (r, s) = Kv_delete_range E req s in (DeleteRangeReply r, s))"
| "serve E ce (TxnRpc req) s = (let (r, s) = Kv_txn E (ce_txn ce) req s in (TxnReply r, s))"
| "serve E ce (CompactRpc revision) s = (let (r, s) = Kv_compact revision s in (HeaderReply r, s))"
| "serve E ce (LeaseGrantRpc req) s = (let (r, s) = Lease_grant (ce_now ce) req s in (LeaseGrantReply r, s))"
| "serve E ce (LeaseRevokeRpc lease_id) s = (let (r, s) = Lease_revoke E lease_id s in (HeaderReply r, s))"
| "serve E ce (LeaseKeepAliveRpc msgs) s = (let (rs, s) = keep_alive_stream msgs s in (LeaseKeepAliveReplies rs, s))"
| "serve E ce (LeaseTimeToLiveRpc lease_id keys) s = (LeaseTimeToLiveReply (Lease_time_to_live (ce_now ce) lease_id keys s), s)"
| "serve E ce LeaseLeasesRpc s = (LeaseLeasesReply (Lease_leases s), s)"
| "serve E ce (ClusterRpc req) s = (ClusterReply (Cluster_handle req s), s)"
| "serve E ce AlarmRpc s = (AlarmReply (Maintenance_alarm s), s)"
| "serve E ce StatusRpc s = (StatusReply (Maintenance_status (ce_stat ce) s), s)"
| "serve E ce DefragmentRpc s = (DefragmentReply Maintenance_defragment, s)"
| "serve E ce HashRpc s = (HashReply (Maintenance_hash (ce_xxh3 ce) s), s)"
| "serve E ce HashKvRpc s = (HashKvReply (Maintenance_hash_kv (ce_xxh3 ce) s), s)"
| "serve E ce SnapshotRpc s = (SnapshotReplies (Maintenance_snapshot s), s)"
| "serve E ce MoveLeaderRpc s = (UnitReply Maintenance_move_leader, s)"
| "serve E ce (AuthRpc req) s = (UnitReply (Auth_handle req), s)"

section \<open>The batching task\<close>

text \<open>The outer loop: the batches it forms from what arrives, until the queue is closed.  A timer of an earlier
  batch has no effect.\<close>

lemma collect_batch_shorter: "length (snd (collect_batch inputs)) \<le> length inputs"
  by (induction inputs rule: collect_batch.induct) (auto simp: Let_def split: prod.splits)

function global_watch_loop :: "batch_input list \<Rightarrow> global_create list list" where
  "global_watch_loop [] = []"
| "global_watch_loop (QueueClosed # inputs) = []"
| "global_watch_loop (TimerFired # inputs) = global_watch_loop inputs"
| "global_watch_loop (Arrived first # inputs) =
     (let (batch, rest) = collect_batch inputs in (first # batch) # global_watch_loop rest)"
  by pat_completeness auto
termination
  by (relation "measure length") (use collect_batch_shorter in \<open>auto simp: less_Suc_eq_le prod_eq_iff\<close>)

section \<open>The state machine\<close>

record server =
  srv_watch :: watch_service
  srv_streams :: "stream_state list"
  srv_replies :: "(nat \<times> watch_response) list"
  srv_compaction :: "store_state option"

abbreviation srv_store :: "server \<Rightarrow> store_state" where
  "srv_store srv \<equiv> sv_store (srv_watch srv)"

abbreviation set_store :: "store_state \<Rightarrow> server \<Rightarrow> server" where
  "set_store s srv \<equiv> srv\<lparr>srv_watch := (srv_watch srv)\<lparr>sv_store := s\<rparr>\<rparr>"

abbreviation set_stream :: "nat \<Rightarrow> stream_state \<Rightarrow> server \<Rightarrow> server" where
  "set_stream i st srv \<equiv> srv\<lparr>srv_streams := (srv_streams srv)[i := st]\<rparr>"

text \<open>A process that has just opened its store: no stream, and the global counters at one.\<close>

definition server_start :: "nat \<Rightarrow> store_state \<Rightarrow> server" where
  "server_start next_channel s =
     \<lparr>srv_watch = \<lparr>sv_store = s, sv_next_watch_id = 1, sv_next_stream_id = 1, sv_queue = [], sv_next_channel = next_channel\<rparr>,
      srv_streams = [], srv_replies = [], srv_compaction = None\<rparr>"

text \<open>Keys and values fit a log record, revisions and times stay in range.\<close>

definition clock_ok :: "nat \<Rightarrow> bool" where "clock_ok now \<longleftrightarrow> now < 2 ^ 62 * 1000000000"

fun rpc_fits :: "call_env \<Rightarrow> rpc \<Rightarrow> store_state \<Rightarrow> bool" where
  "rpc_fits ce (PutRpc req) s \<longleftrightarrow> put_fits req \<and> st_next_rev s \<noteq> - 1"
| "rpc_fits ce (DeleteRangeRpc req) s \<longleftrightarrow> st_next_rev s \<noteq> - 1"
| "rpc_fits ce (TxnRpc req) s \<longleftrightarrow>
     all_puts put_fits (tx_success req) \<and> all_puts put_fits (tx_failure req) \<and> st_next_rev s \<noteq> - 1"
| "rpc_fits ce (LeaseGrantRpc req) s \<longleftrightarrow> clock_ok (ce_now ce)"
| "rpc_fits ce (LeaseRevokeRpc lease_id) s \<longleftrightarrow> st_next_rev s \<noteq> - 1"
| "rpc_fits ce (LeaseKeepAliveRpc msgs) s \<longleftrightarrow> (\<forall>lease_id now tx_open. KaRequest lease_id now tx_open \<in> set msgs \<longrightarrow> clock_ok now)"
| "rpc_fits ce _ s \<longleftrightarrow> True"

text \<open>
  In a flush the duplicate check sees an earlier state than the registration.  The batching task is the only one
  that registers watchers, so in between they can only have been cancelled.
\<close>

inductive server_step :: "libs \<Rightarrow> server \<Rightarrow> server \<Rightarrow> bool" for E where
  call: "rpc_fits ce r (srv_store srv) \<Longrightarrow> server_step E srv (set_store (snd (serve E ce r (srv_store srv))) srv)"
| connect: "open_stream addr (srv_watch srv) = (st, sv)
    \<Longrightarrow> server_step E srv (srv\<lparr>srv_watch := sv, srv_streams := srv_streams srv @ [st]\<rparr>)"
| message: "i < length (srv_streams srv) \<Longrightarrow> stream_turn queue_open tx_open msg (srv_streams srv ! i) (srv_watch srv) = (st, sv)
    \<Longrightarrow> server_step E srv (srv\<lparr>srv_watch := sv, srv_streams := (srv_streams srv)[i := st]\<rparr>)"
| reply: "i < length (srv_streams srv) \<Longrightarrow> sm_waiting (srv_streams srv ! i) = Some (fw, ch) \<Longrightarrow> (ch, r) \<in> set (srv_replies srv)
    \<Longrightarrow> server_step E srv (set_stream i (on_reply tx_open (Some (Inr r)) (srv_streams srv ! i)) srv)"
| reply_dropped: "i < length (srv_streams srv)
    \<Longrightarrow> server_step E srv (set_stream i (on_reply tx_open None (srv_streams srv ! i)) srv)"
| flush: "sv_queue (srv_watch srv) = batch @ rest \<Longrightarrow> fe_lock fe = srv_store srv
    \<Longrightarrow> set (st_watchers (srv_store srv)) \<subseteq> set (st_watchers (fe_dup fe))
    \<Longrightarrow> flush_global_batch E stat s_cp fe batch = Some (replies, s')
    \<Longrightarrow> server_step E srv (srv\<lparr>srv_watch := (srv_watch srv)\<lparr>sv_store := s', sv_queue := rest\<rparr>,
          srv_replies := srv_replies srv @ replies\<rparr>)"
| forward: "i < length (srv_streams srv) \<Longrightarrow> fw \<in> set (sm_forwarders (srv_streams srv ! i))
    \<Longrightarrow> forward_turn tx_open fw input (srv_store srv) = (frames, alive, s')
    \<Longrightarrow> st = (srv_streams srv ! i)\<lparr>sm_frames := sm_frames (srv_streams srv ! i) @ map Inr frames,
          sm_forwarders := (if alive then sm_forwarders (srv_streams srv ! i)
                            else remove1 fw (sm_forwarders (srv_streams srv ! i)))\<rparr>
    \<Longrightarrow> server_step E srv (set_store s' (set_stream i st srv))"
| expiry_task: "unat (st_next_rev (srv_store srv)) + length (st_leases (srv_store srv)) < 2 ^ 64
    \<Longrightarrow> server_step E srv (set_store (snd (expiry_step E now (srv_store srv))) srv)"
| fsync_task: "server_step E srv
    (set_store ((srv_store srv)\<lparr>st_wal := fst (fsync_step synced (st_wal (srv_store srv)))\<rparr>) srv)"
| begin_compaction: "srv_compaction srv = None \<Longrightarrow> server_step E srv (srv\<lparr>srv_compaction := Some (srv_store srv)\<rparr>)"
| end_compaction: "srv_compaction srv = Some s_a \<Longrightarrow> compact_wal E s_a sb sc rn (Inr ()) temp (srv_store srv) = (res, s')
    \<Longrightarrow> server_step E srv (set_store s' (srv\<lparr>srv_compaction := None\<rparr>))"

text \<open>A process runs until it is stopped; the next one starts from the bytes of the log.  The machine has no
  failing log write: both kinds of start give the log an empty fault script, and the temporary file of a
  compaction is the only one that may fail.  Operations under failing writes are the subject of the
  properties about put, transactions, leases and torn records.\<close>

inductive server_reachable :: "libs \<Rightarrow> server \<Rightarrow> bool" for E where
  first_start: "server_reachable E (server_start 0 (StoreState_new (WalFile_open path None [])))"
| server_run: "server_reachable E srv \<Longrightarrow> server_step E srv srv' \<Longrightarrow> server_reachable E srv'"
| server_restart: "server_reachable E srv \<Longrightarrow> clock_ok now
    \<Longrightarrow> open_store E path (Some (wf_content (st_wal (srv_store srv)))) [] now = Inr (Ok s')
    \<Longrightarrow> server_reachable E (server_start (sv_next_channel (srv_watch srv)) s')"

section \<open>Which operations touch the watchers\<close>

named_theorems watchers_frame \<open>operations that leave the registered watchers alone\<close>

lemma watchers_apply_put [watchers_frame]: "st_watchers (snd (apply_put key val lease r kb s)) = st_watchers s"
  using same_env_apply_put by (simp add: same_env_def)

lemma watchers_apply_delete: "apply_delete key r s = (x, s') \<Longrightarrow> st_watchers s' = st_watchers s"
  by (auto simp: apply_delete_def Let_def notify_watchers_def split: option.splits if_splits)

lemma watchers_apply_deletes [watchers_frame]: "st_watchers (snd (apply_deletes keys r s)) = st_watchers s"
  by (induction keys r s rule: apply_deletes.induct) (auto dest: watchers_apply_delete split: prod.splits res.splits)

lemma watchers_alloc [watchers_frame]: "st_watchers (snd (alloc_revision s)) = st_watchers s"
  by (simp add: alloc_revision_def Let_def)

lemma watchers_put_at [watchers_frame]: "st_watchers (snd (put_at E req r s)) = st_watchers s"
  by (auto simp: put_at_eq apply_put_eq Let_def split: prod.splits sum.splits)

lemma watchers_delete_range_at [watchers_frame]: "st_watchers (snd (delete_range_at E req r s)) = st_watchers s"
proof -
  have d: "st_watchers t = st_watchers s'" if "apply_deletes keys r s' = (x, t)" for keys s' x t
    using watchers_apply_deletes [of keys r s'] that by simp
  show ?thesis by (auto simp: delete_range_at_def Let_def dest!: d split: option.splits prod.splits sum.splits res.splits)
qed

lemma watchers_delete_keys_for_lease [watchers_frame]: "st_watchers (snd (delete_keys_for_lease E lease_id s)) = st_watchers s"
  using watchers_apply_deletes
  by (auto simp: delete_keys_for_lease_def alloc_revision_def Let_def split: prod.splits sum.splits)

interpretation watched: txn_ops E "\<lambda>_ s. st_watchers s = W" "\<lambda>_ _ _ s'. st_watchers s' = W" "\<lambda>_. True" for E W
proof unfold_locales
  fix rv s p r rv' s' x s''
  assume "st_watchers s = W" "get_or_alloc rv s = (r, rv', s')" "put_at E p r s' = (x, s'')"
  then show "st_watchers s'' = W"
    using watchers_put_at [of E p r s'] by (auto simp: get_or_alloc_def alloc_revision_def Let_def split: option.splits)
next
  fix rv s d r rv' s' y s''
  assume "st_watchers s = W" "get_or_alloc rv s = (r, rv', s')" "delete_range_at E d r s' = (y, s'')"
  then show "st_watchers s'' = W"
    using watchers_delete_range_at [of E d r s'] by (auto simp: get_or_alloc_def alloc_revision_def Let_def split: option.splits)
qed auto

lemma watchers_txn [watchers_frame]: "st_watchers (snd (txn E env req s)) = st_watchers s"
proof -
  have "P = (\<lambda>_. True) \<Longrightarrow> all_puts P ops" for P ops by (induction P ops rule: all_puts.induct) auto
  then have "all_puts (\<lambda>_. True) ops" for ops by blast
  then have "st_watchers s' = st_watchers s" if "apply_txn_ops E [] 0 0 ops None [] s = (x, rv, df, s')" for ops x rv df s'
    using watched.apply_txn(1) [OF refl refl _ that] by blast
  then show ?thesis by (auto simp: txn_def Let_def split: res.splits prod.splits)
qed

lemma watchers_put [watchers_frame]: "st_watchers (snd (put E req s)) = st_watchers s"
  by (auto simp: put_def alloc_revision_def Let_def watchers_put_at split: res.splits prod.splits)

lemma watchers_delete_range [watchers_frame]: "st_watchers (snd (delete_range E req s)) = st_watchers s"
  by (simp add: delete_range_unfold watchers_delete_range_at watchers_alloc)

lemma watchers_compact [watchers_frame]: "st_watchers (snd (compact r s)) = st_watchers s"
  by (simp add: compact_def Let_def)

lemma watchers_lease_requests [watchers_frame]:
  "st_watchers (snd (lease_grant now req s)) = st_watchers s"
  "st_watchers (snd (lease_keep_alive now lease_id s)) = st_watchers s"
  by (auto simp: lease_grant_def lease_keep_alive_def alloc_lease_id_def Let_def
      split: res.splits option.splits if_splits prod.splits)

lemma watchers_lease_revoke [watchers_frame]: "st_watchers (snd (lease_revoke E lease_id s)) = st_watchers s"
  using watchers_delete_keys_for_lease [of E lease_id "s\<lparr>st_leases := bt_remove (sint lease_id) (st_leases s), st_expiry_notify := True\<rparr>"]
  by (auto simp: lease_revoke_def Let_def split: prod.splits res.splits)

lemma watchers_expire_leases: "st_watchers (snd (expire_leases E ids s)) = st_watchers s"
proof (induction E ids s rule: expire_leases.induct)
  case (2 E i ids s)
  let ?t = "s\<lparr>st_leases := bt_remove i (st_leases s)\<rparr>"
  obtain x t where x: "delete_keys_for_lease E (word_of_int i) ?t = (x, t)" by fastforce
  then have "st_watchers t = st_watchers s" using watchers_delete_keys_for_lease [of E "word_of_int i" ?t] by simp
  with 2 x show ?case by (cases x) simp_all
qed simp

lemma watchers_expiry_step [watchers_frame]: "st_watchers (snd (expiry_step E now s)) = st_watchers s"
  using watchers_expire_leases [of E "expired_ids now s" s]
  by (auto simp: expiry_step_def Let_def split: prod.splits res.splits)

lemma compact_wal_frame:
  "compact_wal E s_a sb sc rn (Inr ()) temp s = (res, s') \<Longrightarrow> st_watchers s' = st_watchers s \<and> st_next_rev s' = st_next_rev s"
  by (auto simp: compact_wal_def compact_phase_c_def Let_def split: prod.splits sum.splits if_splits)

section \<open>The store behind the services\<close>

text \<open>Every call is a sequence of steps of the store, and leaves the watchers alone.\<close>

lemma keep_alive_steps:
  assumes "\<forall>lease_id now tx_open. KaRequest lease_id now tx_open \<in> set msgs \<longrightarrow> clock_ok now"
  shows "(store_step E)\<^sup>*\<^sup>* s (snd (keep_alive_stream msgs s)) \<and> st_watchers (snd (keep_alive_stream msgs s)) = st_watchers s"
  using assms
proof (induction msgs s rule: keep_alive_stream.induct)
  case (3 lease_id now tx_open msgs s)
  obtain x t where x: "lease_keep_alive now lease_id s = (x, t)" by fastforce
  have "store_step E s (snd (lease_keep_alive now lease_id s))"
    using "3.prems" by (intro store_step.lease_keep_alive_step) (auto simp: clock_ok_def)
  then have t: "store_step E s t" "st_watchers t = st_watchers s"
    using watchers_lease_requests(2) [of now lease_id s] by (simp_all add: x)
  have m: "\<forall>lease_id now tx_open. KaRequest lease_id now tx_open \<in> set msgs \<longrightarrow> clock_ok now" using "3.prems" by auto
  show ?case
  proof (cases x)
    case (Ok r)
    then show ?thesis using "3.IH"(1) [OF x [symmetric] Ok _ m] t x
      by (cases tx_open) (auto split: prod.splits intro: converse_rtranclp_into_rtranclp)
  next
    case (Err e)
    then show ?thesis using "3.IH"(2) [OF x [symmetric] Err m] t x
      by (auto split: prod.splits intro: converse_rtranclp_into_rtranclp)
  qed (use t x in auto)
qed simp_all

lemma serve_steps:
  assumes "rpc_fits ce r s"
  shows "(store_step E)\<^sup>*\<^sup>* s (snd (serve E ce r s)) \<and> st_watchers (snd (serve E ce r s)) = st_watchers s"
proof (cases r)
  case (LeaseKeepAliveRpc msgs)
  then show ?thesis using keep_alive_steps [of msgs E s] assms by (auto split: prod.splits)
next
  case (PutRpc req)
  have "snd (serve E ce r s) = snd (put E req s)" by (auto simp: PutRpc Kv_put_def split: prod.splits res.splits)
  then show ?thesis using assms PutRpc by (auto simp: watchers_put intro: store_step.put_step)
next
  case (DeleteRangeRpc req)
  have "snd (serve E ce r s) = snd (delete_range E req s)"
    by (auto simp: DeleteRangeRpc Kv_delete_range_def split: prod.splits res.splits)
  then show ?thesis using assms DeleteRangeRpc by (auto simp: watchers_delete_range intro: store_step.delete_range_step)
next
  case (TxnRpc req)
  have "snd (serve E ce r s) = snd (txn E (ce_txn ce) req s)" by (auto simp: TxnRpc Kv_txn_def split: prod.splits res.splits)
  then show ?thesis using assms TxnRpc by (auto simp: watchers_txn intro: store_step.txn_step)
next
  case (CompactRpc revision)
  have "snd (serve E ce r s) = snd (compact revision s)" by (auto simp: CompactRpc Kv_compact_def split: prod.splits)
  then show ?thesis by (auto simp: watchers_compact intro: store_step.compact_step)
next
  case (LeaseGrantRpc req)
  have "snd (serve E ce r s) = snd (lease_grant (ce_now ce) req s)"
    by (auto simp: LeaseGrantRpc Lease_grant_def split: prod.splits res.splits)
  then show ?thesis using assms LeaseGrantRpc
    by (auto simp: watchers_lease_requests clock_ok_def intro!: r_into_rtranclp store_step.lease_grant_step)
next
  case (LeaseRevokeRpc lease_id)
  have "snd (serve E ce r s) = snd (lease_revoke E lease_id s)"
    by (auto simp: LeaseRevokeRpc Lease_revoke_def split: prod.splits res.splits)
  then show ?thesis using assms LeaseRevokeRpc by (auto simp: watchers_lease_revoke intro: store_step.lease_revoke_step)
qed (auto split: prod.splits)

lemma register_all_steps: "(store_step E)\<^sup>*\<^sup>* s (register_all active s)"
proof (induction active arbitrary: s)
  case (Cons ctx active)
  have "store_step E s (snd (register_watcher (registration_of ctx) s))" by (rule store_step.register_step)
  then show ?case
    using Cons.IH [of "snd (register_watcher (registration_of ctx) s)"] by (simp add: register_all_def converse_rtranclp_into_rtranclp)
qed (simp add: register_all_def)

lemma watchers_register_all: "st_watchers (register_all active s) = st_watchers s @ map registration_of active"
  by (induction active arbitrary: s) (simp_all add: register_all_def register_watcher_def Let_def)

text \<open>Steps of the store keep the machine well-formed and durable, and the revision does not go backwards.\<close>

lemma store_steps_ok:
  assumes "(store_step E)\<^sup>*\<^sup>* s s'" and "libs_ok E" and "machine_ok E (s, c)"
  shows "machine_ok E (s', c) \<and> st_next_rev s \<le> st_next_rev s'"
proof -
  have "machine_ok E (s', c) \<and> durable_from (base_at s) core E s'"
    using assms(1)
  proof (induction rule: rtranclp_induct)
    case base
    then show ?case using assms(3) durable_base_at [of core E s] by simp
  next
    case (step t u)
    then have "store_ok t" by simp
    with step show ?case
      using store_step_durable [OF step.hyps(2) assms(2)] machine_step_ok [OF machine_step.request [OF step.hyps(2)] assms(2), of c]
      by blast
  qed
  then show ?thesis by (simp add: durable_from_def base_at_def)
qed

lemma machine_ok_outbox: "machine_ok E (s\<lparr>st_outbox := x\<rparr>, c) \<longleftrightarrow> machine_ok E (s, c)"
proof -
  have "view_of (s\<lparr>st_outbox := x\<rparr>) = view_of s" by (rule view_of_keys) simp
  then show ?thesis
    by (simp add: store_ok_def keys_ok_def leases_ok_def durable_from_def split: option.splits)
qed

definition advances :: "libs \<Rightarrow> store_state \<times> store_state option \<Rightarrow> store_state \<times> store_state option \<Rightarrow> bool" where
  "advances E m m' \<longleftrightarrow> (machine_ok E m \<longrightarrow> machine_ok E m' \<and> st_next_rev (fst m) \<le> st_next_rev (fst m'))"

lemma advances_steps: "libs_ok E \<Longrightarrow> (store_step E)\<^sup>*\<^sup>* s s' \<Longrightarrow> advances E (s, c) (s', c)"
  unfolding advances_def using store_steps_ok by fastforce

lemma advances_step: "libs_ok E \<Longrightarrow> store_step E s s' \<Longrightarrow> advances E (s, c) (s', c)"
  by (rule advances_steps) auto

section \<open>How events find their stream\<close>

text \<open>
  The tasks that read, or will read, an event channel: the forwarders of a stream and the one whose creation it waits
  for.  A channel belongs to one watch id, wherever it occurs: in the queue of the batching task, with a
  reader, or with a registered watcher.
\<close>

definition stream_taps :: "stream_state \<Rightarrow> forwarder list" where
  "stream_taps st = (case sm_waiting st of Some (fw, _) \<Rightarrow> [fw] | None \<Rightarrow> []) @ sm_forwarders st"

definition taps :: "server \<Rightarrow> forwarder list" where
  "taps srv = concat (map stream_taps (srv_streams srv))"

definition routes :: "global_create list \<Rightarrow> forwarder list \<Rightarrow> watch_registration list \<Rightarrow> (nat \<times> i64) set" where
  "routes Q T W = (\<lambda>c. (gc_event_tx c, gc_watch_id c)) ` set Q \<union> (\<lambda>fw. (fw_event_rx fw, fw_watch_id fw)) ` set T
     \<union> (\<lambda>w. (wr_sender w, wr_watch_id w)) ` set W"

definition wired :: "global_create list \<Rightarrow> forwarder list \<Rightarrow> watch_registration list \<Rightarrow> nat \<Rightarrow> bool" where
  "wired Q T W n \<longleftrightarrow> single_valued (routes Q T W) \<and> (\<forall>p \<in> routes Q T W. fst p < n)
     \<and> distinct (map fw_event_rx T) \<and> distinct (map gc_event_tx Q @ map wr_sender W) \<and> distinct (map wr_watch_id W)"

lemma wired_shrink:
  assumes "wired Q T W n" and "mset T' \<subseteq># mset T"
    and "mset (map gc_event_tx Q' @ map wr_sender W') \<subseteq># mset (map gc_event_tx Q @ map wr_sender W)"
    and "routes Q' T' W' \<subseteq> routes Q T W" and "distinct (map wr_watch_id W')" and "n \<le> n'"
  shows "wired Q' T' W' n'"
proof -
  have "mset (map fw_event_rx T') \<subseteq># mset (map fw_event_rx T)" using assms(2) by (simp add: image_mset_subseteq_mono)
  then have "distinct (map fw_event_rx T')" by (rule distinct_sub_mset) (use assms(1) in \<open>simp add: wired_def\<close>)
  moreover have "distinct (map gc_event_tx Q' @ map wr_sender W')" by (rule distinct_sub_mset [OF assms(3)]) (use assms(1) in \<open>simp add: wired_def\<close>)
  moreover have "single_valued (routes Q' T' W')" using assms(1,4) by (meson single_valued_subset wired_def)
  ultimately show ?thesis using assms(1,4-) by (fastforce simp: wired_def)
qed

lemma wired_create:
  assumes "wired Q T W n" and "gc_event_tx g = n" and "fw_event_rx fw = n" and "gc_watch_id g = fw_watch_id fw"
    and "mset T' = add_mset fw (mset T)"
  shows "wired (Q @ [g]) T' W (n + 2)"
proof -
  have lt: "\<forall>p \<in> routes Q T W. fst p < n" using assms(1) by (simp add: wired_def)
  have set: "set T' = insert fw (set T)" using assms(5) by (metis set_mset_add_mset_insert set_mset_mset)
  have r: "routes (Q @ [g]) T' W = insert (n, fw_watch_id fw) (routes Q T W)"
    using assms(2-4) by (auto simp: routes_def set)
  have "single_valued (routes (Q @ [g]) T' W)"
    using assms(1) lt unfolding r by (fastforce simp: wired_def single_valued_def)
  moreover have "mset (map fw_event_rx T') = mset (map fw_event_rx (fw # T))" using assms(5) by simp
  then have "distinct (map fw_event_rx T') \<longleftrightarrow> distinct (map fw_event_rx (fw # T))" by (rule mset_eq_imp_distinct_iff)
  moreover have "n \<notin> fw_event_rx ` set T" "n \<notin> gc_event_tx ` set Q" "n \<notin> wr_sender ` set W"
    using lt by (auto simp: routes_def ball_Un)
  ultimately show ?thesis using assms(1-3) lt by (auto simp: wired_def r)
qed

lemma taps_update:
  assumes "i < length sts"
  shows "mset (concat (map stream_taps (sts[i := st]))) + mset (stream_taps (sts ! i)) =
    mset (concat (map stream_taps sts)) + mset (stream_taps st)"
proof -
  have "sts = take i sts @ sts ! i # drop (Suc i) sts" using assms by (rule id_take_nth_drop)
  then have "mset (concat (map stream_taps sts)) = mset (concat (map stream_taps (take i sts))) + mset (stream_taps (sts ! i))
      + mset (concat (map stream_taps (drop (Suc i) sts)))"
    by (metis (no_types, lifting) append.assoc concat.simps(2) concat_append list.simps(9) map_append mset_append)
  then show ?thesis by (simp add: upd_conv_take_nth_drop [OF assms])
qed

lemma taps_shrink:
  assumes "i < length sts" and "mset (stream_taps st) \<subseteq># mset (stream_taps (sts ! i))"
  shows "mset (concat (map stream_taps (sts[i := st]))) \<subseteq># mset (concat (map stream_taps sts))"
  using taps_update [OF assms(1), of st] assms(2)
  by (metis add.commute mset_subset_eq_add_left mset_subset_eq_mono_add_right_cancel subset_mset.add_left_mono)

lemma routes_shrink: "mset T' \<subseteq># mset T \<Longrightarrow> set W' \<subseteq> set W \<Longrightarrow> set Q' \<subseteq> set Q \<Longrightarrow> routes Q' T' W' \<subseteq> routes Q T W"
  using set_mset_mono [of "mset T'" "mset T"] by (auto simp: routes_def)

section \<open>The invariant of the server\<close>

definition server_inv :: "libs \<Rightarrow> server \<Rightarrow> bool" where
  "server_inv E srv \<longleftrightarrow> machine_ok E (srv_store srv, srv_compaction srv)
     \<and> wired (sv_queue (srv_watch srv)) (taps srv) (st_watchers (srv_store srv)) (sv_next_channel (srv_watch srv))"

text \<open>Fewer readers and watchers, on the same queue.\<close>

lemma wired_less:
  assumes "wired Q T W n" and "mset T' \<subseteq># mset T" and "W' = filter P W" and "n \<le> n'"
  shows "wired Q T' W' n'"
proof (rule wired_shrink [OF assms(1,2)])
  show "mset (map gc_event_tx Q @ map wr_sender W') \<subseteq># mset (map gc_event_tx Q @ map wr_sender W)"
    by (simp add: assms(3) image_mset_subseteq_mono)
  show "routes Q T' W' \<subseteq> routes Q T W" using assms(2,3) by (intro routes_shrink) auto
  show "distinct (map wr_watch_id W')" using assms(1,3) by (simp add: wired_def distinct_map_filter)
qed (rule assms(4))

lemma wired_same: "wired Q T W n \<Longrightarrow> mset T' \<subseteq># mset T \<Longrightarrow> n \<le> n' \<Longrightarrow> wired Q T' W n'"
  by (rule wired_less [of _ _ _ _ _ _ "\<lambda>_. True"]) simp_all

lemma watchers_cancel: "st_watchers (snd (cancel_watcher watch_id s)) = filter (\<lambda>w. wr_watch_id w \<noteq> watch_id) (st_watchers s)"
  by (simp add: cancel_watcher_def Let_def)

lemma stream_turn_effect:
  assumes "stream_turn queue_open tx_open msg st sv = (st', sv')"
  shows "(sv_queue sv' = sv_queue sv \<and> stream_taps st' = stream_taps st \<and> sv_next_channel sv \<le> sv_next_channel sv'
      \<and> (sv_store sv' = sv_store sv \<or> (\<exists>watch_id. sv_store sv' = snd (cancel_watcher watch_id (sv_store sv)))))
    \<or> (\<exists>g fw. sv_queue sv' = sv_queue sv @ [g] \<and> gc_event_tx g = sv_next_channel sv \<and> fw_event_rx fw = sv_next_channel sv
      \<and> gc_watch_id g = fw_watch_id fw \<and> stream_taps st' = fw # stream_taps st
      \<and> sv_next_channel sv' = sv_next_channel sv + 2 \<and> sv_store sv' = sv_store sv)"
proof (cases "sm_ended st \<or> sm_waiting st \<noteq> None")
  case True
  then show ?thesis using assms by (auto simp: stream_turn_def)
next
  case False
  then have w: "sm_waiting st = None" by blast
  show ?thesis
  proof (cases "\<exists>create. msg = Request (Some (CreateRequest create))")
    case True
    then obtain create where msg: "msg = Request (Some (CreateRequest create))" ..
    show ?thesis using assms False w
      by (cases queue_open) (auto simp: msg stream_turn_def on_create_def next_watch_id_def stream_taps_def Let_def
          split: if_splits)
  next
    case no: False
    show ?thesis using assms False w no
      by (auto simp: stream_turn_def on_cancel_def on_progress_def send_or_end_def stream_taps_def Let_def
          split: stream_message.splits option.splits watch_request.splits if_splits)
  qed
qed

lemma on_reply_taps: "mset (stream_taps (on_reply tx_open r st)) \<subseteq># mset (stream_taps st)"
  by (auto simp: on_reply_def stream_taps_def Let_def split: option.splits sum.splits)

lemma forward_turn_store:
  assumes "forward_turn tx_open fw input s = (frames, alive, s')"
  shows "s' = s \<or> (\<exists>watch_id. s' = snd (cancel_watcher watch_id s))"
  using assms by (auto simp: forward_turn_def split: forward_input.splits if_splits)

text \<open>A step that only removes readers or cancels watchers.\<close>

lemma server_inv_less:
  assumes "server_inv E srv" and "libs_ok E"
    and "srv_store srv' = srv_store srv \<or> (\<exists>watch_id. srv_store srv' = snd (cancel_watcher watch_id (srv_store srv)))"
    and "srv_compaction srv' = srv_compaction srv" and "sv_queue (srv_watch srv') = sv_queue (srv_watch srv)"
    and "sv_next_channel (srv_watch srv) \<le> sv_next_channel (srv_watch srv')" and "mset (taps srv') \<subseteq># mset (taps srv)"
  shows "server_inv E srv' \<and> st_next_rev (srv_store srv) \<le> st_next_rev (srv_store srv')"
proof -
  have "(store_step E)\<^sup>*\<^sup>* (srv_store srv) (srv_store srv')" using assms(3) store_step.cancel_step [of E "srv_store srv"] by (metis r_into_rtranclp rtranclp.rtrancl_refl)
  then have "machine_ok E (srv_store srv', srv_compaction srv') \<and> st_next_rev (srv_store srv) \<le> st_next_rev (srv_store srv')"
    using store_steps_ok [OF _ assms(2), of "srv_store srv" "srv_store srv'" "srv_compaction srv"] assms(1,4)
    by (simp add: server_inv_def del: machine_ok.simps)
  moreover have "\<exists>P. st_watchers (srv_store srv') = filter P (st_watchers (srv_store srv))"
    using assms(3) by (auto simp: watchers_cancel intro: exI [of _ "\<lambda>_. True"])
  ultimately show ?thesis
    using assms(1,5-) unfolding server_inv_def by (auto intro: wired_less simp del: machine_ok.simps)
qed

text \<open>A step of the store that leaves the watchers alone.\<close>

lemma server_inv_store:
  assumes "server_inv E srv" and "libs_ok E" and "(store_step E)\<^sup>*\<^sup>* (srv_store srv) s'"
    and "st_watchers s' = st_watchers (srv_store srv)"
  shows "server_inv E (set_store s' srv) \<and> st_next_rev (srv_store srv) \<le> st_next_rev s'"
  using store_steps_ok [OF assms(3,2), of "srv_compaction srv"] assms(1,4)
  by (simp add: server_inv_def taps_def del: machine_ok.simps)

lemma server_inv_flush:
  assumes "server_inv E srv" and "libs_ok E" and "sv_queue (srv_watch srv) = batch @ rest" and "fe_lock fe = srv_store srv"
    and "set (st_watchers (srv_store srv)) \<subseteq> set (st_watchers (fe_dup fe))"
    and "flush_global_batch E stat s_cp fe batch = Some (replies, s')"
  shows "server_inv E (srv\<lparr>srv_watch := (srv_watch srv)\<lparr>sv_store := s', sv_queue := rest\<rparr>, srv_replies := rs\<rparr>)
    \<and> st_next_rev (srv_store srv) \<le> st_next_rev s'"
proof -
  let ?W = "st_watchers (srv_store srv)" and ?Q = "sv_queue (srv_watch srv)" and ?n = "sv_next_channel (srv_watch srv)"
  obtain cp off where cp: "flush_global_batch_at E fe batch cp off = Some (replies, s')"
    using assms(6) by (auto simp: flush_global_batch_def split: prod.splits)
  obtain replies' n active where f:
    "flush_global_batch_at E fe batch cp off = Some (replies' @ created_replies (fe_cur fe) n active, flush_active E fe cp off active)"
    "mset active \<subseteq># mset (map context_of batch)" "distinct (map wc_watch_id active)"
    "wc_watch_id ` set active \<inter> wr_watch_id ` set (st_watchers (fe_dup fe)) = {}"
    by (rule flush_cases)
  obtain x where s': "s' = register_all active ((srv_store srv)\<lparr>st_outbox := x\<rparr>)"
    using f(1) cp assms(4) by (auto simp: flush_active_def split: prod.splits)
  have w: "st_watchers s' = ?W @ map registration_of active" by (simp add: s' watchers_register_all)
  have ok: "machine_ok E (s', srv_compaction srv) \<and> st_next_rev (srv_store srv) \<le> st_next_rev s'"
    using store_steps_ok [OF register_all_steps assms(2), of "(srv_store srv)\<lparr>st_outbox := x\<rparr>" "srv_compaction srv" active]
      assms(1) machine_ok_outbox [of E x "srv_store srv"] by (simp add: s' server_inv_def del: machine_ok.simps)
  have wired: "wired ?Q (taps srv) ?W ?n" using assms(1) by (simp add: server_inv_def)
  have sub: "set active \<subseteq> context_of ` set batch" using set_mset_mono [OF f(2)] by simp
  have "wired rest (taps srv) (st_watchers s') ?n"
  proof (rule wired_shrink [OF wired])
    have "mset (map wr_sender (map registration_of active)) \<subseteq># mset (map gc_event_tx batch)"
      using image_mset_subseteq_mono [OF f(2), of wc_event_tx]
      by (simp add: registration_of_def context_of_def Let_def comp_def multiset.map_comp)
    then show "mset (map gc_event_tx rest @ map wr_sender (st_watchers s')) \<subseteq># mset (map gc_event_tx ?Q @ map wr_sender ?W)"
      by (simp add: w assms(3) ac_simps mset_subset_eq_mono_add)
    have "\<exists>c \<in> set batch. wr_sender (registration_of ctx) = gc_event_tx c \<and> wr_watch_id (registration_of ctx) = gc_watch_id c"
      if "ctx \<in> set active" for ctx
      using that sub by (force simp: registration_of_def context_of_def Let_def)
    then show "routes rest (taps srv) (st_watchers s') \<subseteq> routes ?Q (taps srv) ?W"
      by (fastforce simp: routes_def w assms(3))
    have "wr_watch_id (registration_of ctx) = wc_watch_id ctx" for ctx by (simp add: registration_of_def)
    then show "distinct (map wr_watch_id (st_watchers s'))"
      using f(3,4) assms(5) wired by (auto simp: w wired_def comp_def)
  qed simp_all
  then show ?thesis using ok by (simp add: server_inv_def taps_def del: machine_ok.simps)
qed
lemma server_step_inv:
  assumes "server_step E srv srv'" and "libs_ok E" and "server_inv E srv"
  shows "server_inv E srv' \<and> st_next_rev (srv_store srv) \<le> st_next_rev (srv_store srv')"
  using assms(1)
proof cases
  case (call ce r)
  then show ?thesis using server_inv_store [OF assms(3,2)] serve_steps by simp
next
  case (connect addr st sv)
  then show ?thesis
    by (intro server_inv_less [OF assms(3,2)])
      (auto simp: open_stream_def next_stream_id_def taps_def stream_taps_def Let_def)
next
  case (message i queue_open tx_open msg st sv)
  let ?T = "concat (map stream_taps ((srv_streams srv)[i := st]))"
  from stream_turn_effect [OF message(3)] show ?thesis
  proof (elim disjE exE conjE, goal_cases)
    case 1
    then show ?thesis using taps_shrink [OF message(2), of st] message(1)
      by (intro server_inv_less [OF assms(3,2)]) (simp_all add: taps_def)
  next
    case (2 watch_id)
    then show ?thesis using taps_shrink [OF message(2), of st] message(1)
      by (intro server_inv_less [OF assms(3,2)]) (auto simp add: taps_def)
  next
    case (3 g fw)
    have "mset ?T = add_mset fw (mset (taps srv))" using taps_update [OF message(2), of st] 3 by (simp add: taps_def)
    with 3 message(1) assms(3) show ?thesis
      using wired_create [of "sv_queue (srv_watch srv)" "taps srv" "st_watchers (srv_store srv)" "sv_next_channel (srv_watch srv)" g fw ?T]
      by (simp add: server_inv_def taps_def del: machine_ok.simps)
  qed
next
  case (reply i fw ch r tx_open)
  then show ?thesis using taps_shrink [OF reply(2) on_reply_taps]
    by (intro server_inv_less [OF assms(3,2)]) (simp_all add: taps_def)
next
  case (reply_dropped i tx_open)
  then show ?thesis using taps_shrink [OF reply_dropped(2) on_reply_taps]
    by (intro server_inv_less [OF assms(3,2)]) (simp_all add: taps_def)
next
  case (flush batch rest fe stat s_cp replies s')
  then show ?thesis using server_inv_flush [OF assms(3,2) flush(2-5)] by simp
next
  case (forward i fw tx_open input frames alive s' st)
  have "mset (stream_taps st) \<subseteq># mset (stream_taps (srv_streams srv ! i))"
    by (simp add: forward(5) stream_taps_def split: option.splits)
  from taps_shrink [OF forward(2) this] forward_turn_store [OF forward(4)] show ?thesis
    unfolding forward(1) by (intro server_inv_less [OF assms(3,2)]) (simp_all add: taps_def)
next
  case (expiry_task now)
  then have "(store_step E)\<^sup>*\<^sup>* (srv_store srv) (snd (expiry_step E now (srv_store srv)))"
    by (auto intro!: r_into_rtranclp store_step.expiry_task_step)
  then show ?thesis using server_inv_store [OF assms(3,2)] watchers_expiry_step expiry_task(1) by simp
next
  case (fsync_task synced)
  have "(store_step E)\<^sup>*\<^sup>* (srv_store srv) ((srv_store srv)\<lparr>st_wal := fst (fsync_step synced (st_wal (srv_store srv)))\<rparr>)"
    by (auto intro!: r_into_rtranclp store_step.fsync_task_step)
  then show ?thesis using server_inv_store [OF assms(3,2)] fsync_task by simp
next
  case begin_compaction
  then show ?thesis using assms(3) machine_step_ok [OF machine_step.snapshot assms(2), of "srv_store srv"]
    by (simp add: server_inv_def taps_def del: machine_ok.simps)
next
  case (end_compaction s_a sb sc rn temp res s')
  then show ?thesis using assms(3) compact_wal_frame [OF end_compaction(3)]
      machine_step_ok [OF machine_step.compacted [OF end_compaction(3)] assms(2)]
    by (simp add: server_inv_def taps_def del: machine_ok.simps)
qed

text \<open>A store that was just opened has no watchers.\<close>

lemma watchers_apply_record: "st_watchers (snd (apply_record E r s)) = st_watchers s"
  by (auto simp: apply_record_def apply_put_eq Let_def dest: watchers_apply_delete split: option.splits prod.splits res.splits)

lemma server_inv_start: "machine_ok E (s, None) \<Longrightarrow> st_watchers s = [] \<Longrightarrow> server_inv E (server_start n s)"
  by (simp add: server_inv_def server_start_def taps_def wired_def routes_def del: machine_ok.simps)
lemma watchers_replay: "st_watchers (snd (replay_records E rs s m)) = st_watchers s"
proof (induction E rs s m rule: replay_records.induct)
  case (2 E r rs s m)
  obtain x t where x: "apply_record E r s = (x, t)" by fastforce
  then have "st_watchers t = st_watchers s" using watchers_apply_record [of E r s] by simp
  with 2 x show ?case by (cases x) (auto simp: Let_def)
qed simp

lemma watchers_restore_loop: "st_watchers (snd (restore_lease_loop now ids s)) = st_watchers s"
  by (induction now ids s rule: restore_lease_loop.induct) (auto simp: Let_def split: option.splits)

lemma watchers_open_store:
  assumes "open_store E path existing faults now = Inr (Ok s)"
  shows "st_watchers s = []"
proof -
  let ?wal = "WalFile_open path existing faults"
  obtain rs m t where t: "replay_records E rs (StoreState_new ?wal) 0 = (Ok m, t)" "(Ok (), s) = restore_leases now (t\<lparr>st_next_rev := m + 1\<rparr>)"
    using assms by (auto simp: open_store_def Let_def split: sum.splits prod.splits res.splits)
  have "st_watchers t = []" using watchers_replay [of E rs "StoreState_new ?wal" 0] t(1) by (simp add: StoreState_new_def)
  then have "st_watchers (snd (restore_leases now (t\<lparr>st_next_rev := m + 1\<rparr>))) = []"
    by (simp add: restore_leases_def watchers_restore_loop Let_def)
  then show ?thesis by (simp add: t(2) [symmetric])
qed

lemma server_reachable_inv: "server_reachable E srv \<Longrightarrow> libs_ok E \<Longrightarrow> server_inv E srv"
proof (induction rule: server_reachable.induct)
  case (first_start path)
  have "machine_ok E (StoreState_new (WalFile_open path None []), None)"
    by (simp add: store_ok_new fresh_durable stable_core)
  then show ?case by (rule server_inv_start) (simp add: StoreState_new_def)
next
  case (server_run srv srv')
  then show ?case using server_step_inv by blast
next
  case (server_restart srv now path s')
  then have "machine_ok E (srv_store srv, srv_compaction srv)" by (simp add: server_inv_def del: machine_ok.simps)
  with server_restart have "machine_ok E (s', None)"
    using machine_step_ok [OF machine_step.restart] by (simp add: clock_ok_def del: machine_ok.simps)
  then show ?case using watchers_open_store [OF server_restart.hyps(3)] by (rule server_inv_start)
qed

section \<open>Properties\<close>

text \<open>C1. The server as a whole, however the calls of its services, the messages of its watch streams, the batching and
  forwarding tasks, the background tasks and restarts interleave, as long as the log accepts every write (the states
  of the machine have no fault in the script of their log) and a compaction can open the file it has renamed: the
  store is well-formed, and a new process that starts from the log finds every key with its value, modification
  revision and lease, and no other key.  Watch ids and event channels of the registered watchers are unique, no two
  tasks read the same channel, and a task that reads the channel of a watcher forwards its events under the id of that
  watcher.  Within one process no step makes the next revision smaller.  Nothing of the kind is claimed across a
  restart: a deletion that finds no key uses a revision and logs nothing, and the next process gives that revision out
  again.\<close>

theorem server_correct:
  assumes "libs_ok E" and "server_reachable E srv" and "clock_ok now"
  shows "store_ok (srv_store srv)
    \<and> (\<exists>s'. open_store E path (Some (wf_content (st_wal (srv_store srv)))) [] now = Inr (Ok s')
         \<and> store_ok s' \<and> proj core (view_of s') = proj core (view_of (srv_store srv)))
    \<and> distinct (map wr_watch_id (st_watchers (srv_store srv))) \<and> distinct (map wr_sender (st_watchers (srv_store srv)))
    \<and> distinct (map fw_event_rx (taps srv))
    \<and> (\<forall>fw \<in> set (taps srv). \<forall>w \<in> set (st_watchers (srv_store srv)).
         fw_event_rx fw = wr_sender w \<longrightarrow> fw_watch_id fw = wr_watch_id w)
    \<and> (server_step E srv srv' \<longrightarrow> st_next_rev (srv_store srv) \<le> st_next_rev (srv_store srv'))"
proof -
  have inv: "server_inv E srv" by (rule server_reachable_inv [OF assms(2,1)])
  then have w: "wired (sv_queue (srv_watch srv)) (taps srv) (st_watchers (srv_store srv)) (sv_next_channel (srv_watch srv))"
    and ok: "store_ok (srv_store srv)" "durable core E (srv_store srv)" by (simp_all add: server_inv_def)
  have "fw_watch_id fw = wr_watch_id w'"
    if "fw \<in> set (taps srv)" "w' \<in> set (st_watchers (srv_store srv))" "fw_event_rx fw = wr_sender w'" for fw w'
  proof -
    have "(fw_event_rx fw, fw_watch_id fw) \<in> routes (sv_queue (srv_watch srv)) (taps srv) (st_watchers (srv_store srv))"
      "(fw_event_rx fw, wr_watch_id w') \<in> routes (sv_queue (srv_watch srv)) (taps srv) (st_watchers (srv_store srv))"
      using that by (force simp: routes_def image_iff)+
    then show ?thesis using w by (auto simp: wired_def dest: single_valuedD)
  qed
  moreover have "\<exists>s'. open_store E path (Some (wf_content (st_wal (srv_store srv)))) [] now = Inr (Ok s')
      \<and> store_ok s' \<and> proj core (view_of s') = proj core (view_of (srv_store srv))"
    using restart_durable [OF assms(1) ok(2), of now path] assms(3) by (auto simp: clock_ok_def)
  ultimately show ?thesis using ok(1) w server_step_inv [OF _ assms(1) inv] by (auto simp: wired_def)
qed

definition demo_call :: call_env where
  "demo_call = \<lparr>ce_now = 0, ce_read = (StoreState_new demo_wal, StoreState_new demo_wal, (\<lambda>_. StoreState_new demo_wal), Inr None),
     ce_txn = (\<lambda>_. (StoreState_new demo_wal, StoreState_new demo_wal, (\<lambda>_. StoreState_new demo_wal), Inr None)),
     ce_stat = True, ce_xxh3 = (\<lambda>_. 0)\<rparr>"

text \<open>A client puts a key and opens a watch stream on which it creates a watch.\<close>

definition demo_server :: server where
  "demo_server = (let srv = set_store demo_state (server_start 0 (StoreState_new demo_wal));
       (st, sv) = open_stream None (srv_watch srv);
       (st, sv) = stream_turn True True (Request (Some (CreateRequest \<lparr>wq_key = [1], wq_range_end = [], wq_start_revision = 0,
         wq_progress_notify = False, wq_filters = [], wq_prev_kv = False, wq_watch_id = 9\<rparr>))) st sv
     in srv\<lparr>srv_watch := sv, srv_streams := [st]\<rparr>)"

lemma demo_server_reachable: "server_reachable ref_libs demo_server"
proof -
  let ?s0 = "server_start 0 (StoreState_new demo_wal)"
  have w: "demo_wal = WalFile_open ''wal'' None []" by (simp add: demo_wal_def WalFile_open_def)
  have "server_reachable ref_libs ?s0" unfolding w by (rule server_reachable.first_start)
  moreover have "server_step ref_libs ?s0 (set_store (snd (serve ref_libs demo_call (PutRpc (demo_put [1] [2])) (srv_store ?s0))) ?s0)"
    by (rule server_step.call) (simp add: demo_fits server_start_def StoreState_new_def)
  moreover have "snd (serve ref_libs demo_call (PutRpc (demo_put [1] [2])) (srv_store ?s0)) = demo_state"
    by (auto simp: demo_state_def Kv_put_def server_start_def split: prod.splits res.splits)
  ultimately have r1: "server_reachable ref_libs (set_store demo_state ?s0)" by (metis server_reachable.server_run)
  let ?s1 = "set_store demo_state ?s0"
  obtain st sv where o: "open_stream None (srv_watch ?s1) = (st, sv)" by fastforce
  have st1: "srv_streams ?s1 = []" by (simp add: server_start_def)
  from server_step.connect [OF o, of ref_libs] have
    r2: "server_reachable ref_libs (?s1\<lparr>srv_watch := sv, srv_streams := [st]\<rparr>)"
    using r1 st1 by (metis append_Nil server_reachable.server_run)
  let ?s2 = "?s1\<lparr>srv_watch := sv, srv_streams := [st]\<rparr>"
  let ?msg = "Request (Some (CreateRequest \<lparr>wq_key = [1], wq_range_end = [], wq_start_revision = 0,
         wq_progress_notify = False, wq_filters = [], wq_prev_kv = False, wq_watch_id = 9\<rparr>))"
  obtain st' sv' where t: "stream_turn True True ?msg st sv = (st', sv')" by fastforce
  have "server_step ref_libs ?s2 (?s2\<lparr>srv_watch := sv', srv_streams := (srv_streams ?s2)[0 := st']\<rparr>)"
    by (rule server_step.message) (use t in simp_all)
  moreover have "?s2\<lparr>srv_watch := sv', srv_streams := (srv_streams ?s2)[0 := st']\<rparr> = demo_server"
    using o t by (simp add: demo_server_def Let_def)
  ultimately show ?thesis using r2 server_reachable.server_run by metis
qed

lemma server_correct_witness:
  "store_ok (srv_store demo_server) \<and> length (taps demo_server) = 1
   \<and> (\<exists>s'. open_store ref_libs ''wal'' (Some (wf_content (st_wal (srv_store demo_server)))) [] 5 = Inr (Ok s')
        \<and> proj core (view_of s') [1] = Some ([2], 1, 0))"
proof -
  have s: "srv_store demo_server = demo_state" and t: "length (taps demo_server) = 1"
    by (simp_all add: demo_server_def server_start_def open_stream_def next_stream_id_def stream_turn_def on_create_def
        taps_def stream_taps_def Let_def)
  have "proj core (view_of demo_state) [1] = Some ([2], 1, 0)"
    by (simp add: proj_def demo_state_def demo_view spec_put_def core_def)
  moreover have "clock_ok 5" by (simp add: clock_ok_def)
  ultimately show ?thesis
    using server_correct [OF libs_ok_ref demo_server_reachable, of 5 "''wal''" demo_server] t by (auto simp: s)
qed

text \<open>The batching task loses no creation and keeps their order.\<close>

fun arrived :: "batch_input list \<Rightarrow> global_create list" where
  "arrived [] = []"
| "arrived (QueueClosed # inputs) = []"
| "arrived (TimerFired # inputs) = arrived inputs"
| "arrived (Arrived c # inputs) = c # arrived inputs"

lemma collect_batch_arrived: "collect_batch inputs = (batch, rest) \<Longrightarrow> batch @ arrived rest = arrived inputs"
  by (induction inputs arbitrary: batch rest rule: collect_batch.induct) (auto simp: Let_def split: prod.splits)

theorem batches_in_order:
  "concat (global_watch_loop inputs) = arrived inputs \<and> [] \<notin> set (global_watch_loop inputs)"
proof (induction inputs rule: global_watch_loop.induct)
  case (4 first inputs)
  obtain batch rest where b: "collect_batch inputs = (batch, rest)" by fastforce
  from 4 [OF b [symmetric] refl] show ?case using collect_batch_arrived [OF b] by (auto simp: b)
qed simp_all

end
