(* ===== verification/Expiry_Task.thy ===== *)
theory Expiry_Task
  imports Server
begin

text \<open>
  The expiry task of \<^verbatim>\<open>src/storage/background.rs\<close> as a task that runs beside the server.  It computes how long to
  sleep under the read lock, waits for its timer or for the permit of a notification, and removes the leases
  that are due under the write lock; between any two of these the server may take any number of steps and time
  may pass.  The requests of \<^verbatim>\<open>src/storage/store.rs\<close> that change a deadline leave a permit behind.  The lemmas show
  that the task cannot miss a deadline because of that interleaving: it waits only while every deadline is ahead of
  its timer, and every lease is eventually removed unless it is renewed.
\<close>

section \<open>The task and its environment\<close>

text \<open>Where the task is in its loop: at the head; with a duration computed at a time (\<open>None\<close> is
  \<open>Duration::MAX\<close>); waiting since a time, on a timer set for a time, after a duration computed at the first
  time; and woken, before it has the write lock.\<close>

datatype expiry_phase =
    Loop_Head
  | Computed nat "nat option"
  | Waiting nat nat "nat option"
  | Woken

record expiry_machine =
  em_server :: server
  em_now :: nat
  em_phase :: expiry_phase

abbreviation em_store :: "expiry_machine \<Rightarrow> store_state" where
  "em_store m \<equiv> srv_store (em_server m)"

text \<open>The steps of the task, in the order of the code.  When permit and timer are both there, \<open>select!\<close> takes either.
  Revisions stay in range, as in the steps of the server.\<close>

inductive expiry_task_step :: "libs \<Rightarrow> expiry_machine \<Rightarrow> expiry_machine \<Rightarrow> bool" for E where
  compute: "em_phase m = Loop_Head
    \<Longrightarrow> expiry_task_step E m (m\<lparr>em_phase := Computed (em_now m) (expiry_sleep (em_now m) (em_store m))\<rparr>)"
| sleep: "em_phase m = Computed t0 dur
    \<Longrightarrow> expiry_task_step E m (m\<lparr>em_phase := Waiting t0 (em_now m) (map_option (\<lambda>d. em_now m + d) dur)\<rparr>)"
| timer: "em_phase m = Waiting t0 t1 (Some t) \<Longrightarrow> t \<le> em_now m
    \<Longrightarrow> expiry_task_step E m
         (m\<lparr>em_server := set_store (expiry_wait False (em_store m)) (em_server m), em_phase := Woken\<rparr>)"
| notified: "em_phase m = Waiting t0 t1 w \<Longrightarrow> st_expiry_notify (em_store m)
    \<Longrightarrow> expiry_task_step E m
         (m\<lparr>em_server := set_store (expiry_wait True (em_store m)) (em_server m), em_phase := Woken\<rparr>)"
| expire: "em_phase m = Woken \<Longrightarrow> unat (st_next_rev (em_store m)) + length (st_leases (em_store m)) < 2 ^ 64
    \<Longrightarrow> expiry_task_step E m
         (m\<lparr>em_server := set_store (snd (expiry_step E (em_now m) (em_store m))) (em_server m), em_phase := Loop_Head\<rparr>)"

text \<open>What goes on around it: any step of the server, at any reading of the clock, and time passing.\<close>

inductive expiry_env_step :: "libs \<Rightarrow> expiry_machine \<Rightarrow> expiry_machine \<Rightarrow> bool" for E where
  server: "server_step E (em_server m) srv \<Longrightarrow> expiry_env_step E m (m\<lparr>em_server := srv\<rparr>)"
| time_passes: "em_now m \<le> t \<Longrightarrow> expiry_env_step E m (m\<lparr>em_now := t\<rparr>)"

inductive expiry_reachable :: "libs \<Rightarrow> expiry_machine \<Rightarrow> bool" for E where
  start: "server_reachable E srv \<Longrightarrow> expiry_reachable E \<lparr>em_server = srv, em_now = t, em_phase = Loop_Head\<rparr>"
| task: "expiry_reachable E m \<Longrightarrow> expiry_task_step E m m' \<Longrightarrow> expiry_reachable E m'"
| env: "expiry_reachable E m \<Longrightarrow> expiry_env_step E m m' \<Longrightarrow> expiry_reachable E m'"

section \<open>Who changes a deadline leaves a permit\<close>

definition alarm :: "store_state \<Rightarrow> (int, lease_state) btree \<times> bool" where
  "alarm s = (st_leases s, st_expiry_notify s)"

definition wakes :: "store_state \<Rightarrow> store_state \<Rightarrow> bool" where
  "wakes s s' \<longleftrightarrow> (st_expiry_notify s \<longrightarrow> st_expiry_notify s') \<and> (st_expiry_notify s' \<or> st_leases s' = st_leases s)"

lemma wakes_refl: "wakes s s" by (simp add: wakes_def)

lemma wakes_trans: "wakes s t \<Longrightarrow> wakes t u \<Longrightarrow> wakes s u" by (auto simp: wakes_def)

lemma alarm_wakes: "alarm s' = alarm s \<Longrightarrow> wakes s s'" by (simp add: alarm_def wakes_def)

lemma alarm_apply_put: "alarm (snd (apply_put key val lease r kb s)) = alarm s"
  by (simp add: alarm_def apply_put_eq)

lemma alarm_apply_delete: "apply_delete key r s = (x, s') \<Longrightarrow> alarm s' = alarm s"
  by (auto simp: alarm_def apply_delete_def Let_def notify_watchers_def split: option.splits if_splits)

lemma alarm_apply_deletes: "apply_deletes keys r s = (x, s') \<Longrightarrow> alarm s' = alarm s"
  by (induction keys r s arbitrary: x s' rule: apply_deletes.induct)
    (auto dest: alarm_apply_delete split: prod.splits res.splits)

lemma alarm_simps [simp]:
  "alarm (s\<lparr>st_wal := w\<rparr>) = alarm s" "alarm (s\<lparr>st_next_rev := r\<rparr>) = alarm s" "alarm (s\<lparr>st_outbox := b\<rparr>) = alarm s"
  "alarm (s\<lparr>st_watchers := ws\<rparr>) = alarm s" "alarm (s\<lparr>st_compact_rev := r\<rparr>) = alarm s"
  "alarm (snd (alloc_revision s)) = alarm s"
  by (simp_all add: alarm_def alloc_revision_def Let_def)

lemma alarm_put_at: "alarm (snd (put_at E req r s)) = alarm s"
  by (auto simp: put_at_eq Let_def alarm_apply_put split: prod.splits sum.splits)

lemma alarm_delete_range_at: "alarm (snd (delete_range_at E req r s)) = alarm s"
  by (auto simp: delete_range_at_def Let_def dest!: alarm_apply_deletes
      split: option.splits prod.splits sum.splits res.splits)

lemma alarm_delete_keys_for_lease: "delete_keys_for_lease E lease_id s = (x, s') \<Longrightarrow> alarm s' = alarm s"
  by (auto simp: delete_keys_for_lease_def alloc_revision_def Let_def dest!: alarm_apply_deletes
      split: prod.splits sum.splits if_splits)

interpretation alarmed: txn_ops E "\<lambda>_ s. alarm s = A" "\<lambda>_ _ _ s'. alarm s' = A" "\<lambda>_. True" for E A
proof unfold_locales
  fix rv s p r rv' s' x s''
  assume "alarm s = A" "get_or_alloc rv s = (r, rv', s')" "put_at E p r s' = (x, s'')"
  then show "alarm s'' = A"
    using alarm_put_at [of E p r s'] by (auto simp: get_or_alloc_def alloc_revision_def Let_def split: option.splits)
next
  fix rv s d r rv' s' y s''
  assume "alarm s = A" "get_or_alloc rv s = (r, rv', s')" "delete_range_at E d r s' = (y, s'')"
  then show "alarm s'' = A"
    using alarm_delete_range_at [of E d r s'] by (auto simp: get_or_alloc_def alloc_revision_def Let_def split: option.splits)
qed auto

lemma alarm_txn: "alarm (snd (txn E env req s)) = alarm s"
proof -
  have "P = (\<lambda>_. True) \<Longrightarrow> all_puts P ops" for P ops by (induction P ops rule: all_puts.induct) auto
  then have "all_puts (\<lambda>_. True) ops" for ops by blast
  then have "alarm s' = alarm s" if "apply_txn_ops E [] 0 0 ops None [] s = (x, rv, df, s')" for ops x rv df s'
    using alarmed.apply_txn(1) [OF refl refl _ that] by blast
  then show ?thesis by (auto simp: txn_def Let_def split: res.splits prod.splits)
qed

lemma store_step_wakes:
  assumes "store_step E s s'" and "machine_ok E (s, c)"
  shows "wakes s s'"
  using assms(1)
proof cases
  case (put_step req)
  have "alarm (snd (put E req s)) = alarm s"
    by (auto simp: put_unfold alarm_put_at split: res.splits)
  then show ?thesis by (simp add: put_step(1) alarm_wakes)
next
  case (delete_range_step req)
  then show ?thesis by (simp add: alarm_wakes delete_range_unfold alarm_delete_range_at)
next
  case (txn_step req env)
  then show ?thesis by (simp add: alarm_wakes alarm_txn)
next
  case (compact_step r)
  then show ?thesis by (simp add: alarm_wakes compact_def Let_def)
next
  case (lease_grant_step now lreq)
  then show ?thesis
    by (auto simp: wakes_def lease_grant_def alloc_lease_id_def Let_def split: res.splits option.splits if_splits prod.splits)
next
  case (lease_revoke_step lease_id)
  then show ?thesis
    by (auto simp: wakes_def lease_revoke_def alarm_def Let_def dest!: alarm_delete_keys_for_lease split: res.splits prod.splits)
next
  case (lease_keep_alive_step now lease_id)
  then show ?thesis by (auto simp: wakes_def lease_keep_alive_def Let_def split: option.splits)
next
  case (expiry_task_step now)
  have "store_ok s" "wf_faults (st_wal s) = []" using assms(2) by (auto simp: durable_def)
  note x = expiry_step_effect [OF this(1) expiry_task_step(2) this(2), of E now]
  show ?thesis
  proof (cases "expired_ids now s = []")
    case True
    then show ?thesis by (simp add: expiry_task_step(1) expiry_step_def wakes_refl)
  next
    case False
    have ok: "bt_ok (st_leases s)" using \<open>store_ok s\<close> by (simp add: store_ok_def leases_ok_def)
    obtain e where e: "e \<in> set (bt_iter (st_leases s))" "ls_expires_at (snd e) \<le> now"
      using False by (auto simp: expired_ids_def filter_empty_conv)
    then have "bt_get (st_leases s) (fst e) = Some (snd e)" using bt.iter_get [OF ok, of "fst e" "snd e"] by simp
    then have "st_expiry_notify s'" using x e(2) expiry_task_step(1) by blast
    then show ?thesis by (simp add: wakes_def)
  qed
next
  case (fsync_task_step synced)
  then show ?thesis by (simp add: alarm_wakes)
next
  case (register_step reg)
  then show ?thesis by (simp add: alarm_wakes register_watcher_def Let_def)
next
  case (cancel_step watch_id)
  then show ?thesis by (simp add: alarm_wakes cancel_watcher_def Let_def)
qed

lemma store_steps_wakes:
  assumes "(store_step E)\<^sup>*\<^sup>* s s'" and "libs_ok E" and "machine_ok E (s, c)"
  shows "wakes s s'"
  using assms(1)
proof (induction rule: rtranclp_induct)
  case (step t u)
  have "machine_ok E (t, c)" using store_steps_ok [OF step.hyps(1) assms(2,3)] by blast
  then show ?case using store_step_wakes [OF step.hyps(2)] step.IH wakes_trans by blast
qed (rule wakes_refl)

lemma flush_alarm:
  assumes "flush_global_batch E stat s_cp fe batch = Some (replies, s')"
  shows "alarm s' = alarm (fe_lock fe)"
proof -
  have r: "alarm (register_all active s) = alarm s" for active s
    by (induction active arbitrary: s) (simp_all add: register_all_def register_watcher_def Let_def)
  obtain cp off where cp: "flush_global_batch_at E fe batch cp off = Some (replies, s')"
    using assms by (auto simp: flush_global_batch_def split: prod.splits)
  obtain replies' n active where
    "flush_global_batch_at E fe batch cp off = Some (replies' @ created_replies (fe_cur fe) n active, flush_active E fe cp off active)"
    by (rule flush_cases)
  then show ?thesis using cp by (auto simp: flush_active_def r split: prod.splits)
qed

lemma server_step_wakes:
  assumes "server_step E srv srv'" and "libs_ok E" and "server_inv E srv"
  shows "wakes (srv_store srv) (srv_store srv')"
proof -
  have m: "machine_ok E (srv_store srv, srv_compaction srv)" using assms(3) by (simp add: server_inv_def del: machine_ok.simps)
  have c: "alarm (snd (cancel_watcher w s)) = alarm s" for w s by (simp add: cancel_watcher_def Let_def)
  show ?thesis using assms(1)
  proof cases
    case (call ce r)
    then show ?thesis using store_steps_wakes [OF _ assms(2) m] serve_steps by simp
  next
    case (connect addr st sv)
    then show ?thesis by (auto simp: open_stream_def next_stream_id_def Let_def wakes_refl)
  next
    case (message i queue_open tx_open msg st sv)
    from stream_turn_effect [OF message(3)] show ?thesis
      by (auto simp: message(1) c wakes_refl intro: alarm_wakes)
  next
    case (flush batch rest fe stat s_cp replies s')
    then show ?thesis using flush_alarm by (auto intro: alarm_wakes)
  next
    case (forward i fw tx_open input frames alive s' st)
    then show ?thesis using forward_turn_store [OF forward(4)] by (auto simp: c wakes_refl intro: alarm_wakes)
  next
    case (expiry_task now)
    then show ?thesis using store_step_wakes [OF store_step.expiry_task_step m] by simp
  next
    case (end_compaction s_a sb sc rn temp res s')
    then have "alarm s' = alarm (srv_store srv)"
      by (auto simp: compact_wal_def compact_phase_c_def Let_def split: prod.splits sum.splits if_splits)
    then show ?thesis by (simp add: end_compaction(1) alarm_wakes)
  qed (simp_all add: wakes_refl alarm_wakes)
qed

section \<open>The invariant of the task\<close>

text \<open>Without a permit, the duration or the timer the task has chosen fits every lease there is.  The timer may end as
  much later than a deadline as the task took from computing the duration to starting to wait.\<close>

fun phase_ok :: "expiry_phase \<Rightarrow> nat \<Rightarrow> store_state \<Rightarrow> bool" where
  "phase_ok (Computed t0 dur) now s \<longleftrightarrow> t0 \<le> now \<and> (st_expiry_notify s
     \<or> (\<forall>e \<in> set (st_leases s). \<exists>d. dur = Some d \<and> t0 + d \<le> max t0 (ls_expires_at (snd e))))"
| "phase_ok (Waiting t0 t1 w) now s \<longleftrightarrow> t0 \<le> t1 \<and> (st_expiry_notify s
     \<or> (\<forall>e \<in> set (st_leases s). \<exists>t. w = Some t \<and> t + t0 \<le> max t0 (ls_expires_at (snd e)) + t1))"
| "phase_ok _ now s \<longleftrightarrow> True"

definition expiry_inv :: "libs \<Rightarrow> expiry_machine \<Rightarrow> bool" where
  "expiry_inv E m \<longleftrightarrow> server_inv E (em_server m) \<and> phase_ok (em_phase m) (em_now m) (em_store m)"

lemma phase_ok_wakes: "phase_ok ph now s \<Longrightarrow> wakes s s' \<Longrightarrow> now \<le> now' \<Longrightarrow> phase_ok ph now' s'"
  by (cases ph; cases "st_expiry_notify s'"; simp add: wakes_def)

lemma phase_ok_compute: "phase_ok (Computed now (expiry_sleep now s)) now s"
  using expiry_sleep_earliest [where now = now and s = s] by (auto split: option.splits)

lemma phase_ok_sleep:
  "phase_ok (Computed t0 dur) now s \<Longrightarrow> phase_ok (Waiting t0 now (map_option (\<lambda>d. now + d) dur)) now s"
  by fastforce

lemma server_inv_permit:
  assumes "server_inv E srv"
  shows "server_inv E (set_store (expiry_wait b (srv_store srv)) srv)"
proof -
  let ?s = "srv_store srv"
  have v: "view_of (?s\<lparr>st_expiry_notify := False\<rparr>) = view_of ?s" by (rule view_of_keys) simp
  have "machine_ok E (?s\<lparr>st_expiry_notify := False\<rparr>, c) \<longleftrightarrow> machine_ok E (?s, c)" for c
    using v by (simp add: store_ok_def keys_ok_def leases_ok_def durable_from_def split: option.splits)
  with assms show ?thesis by (simp add: server_inv_def expiry_wait_def taps_def del: machine_ok.simps)
qed

lemma expiry_task_step_inv:
  assumes "expiry_task_step E m m'" and "libs_ok E" and "expiry_inv E m"
  shows "expiry_inv E m' \<and> em_now m' = em_now m"
proof -
  have i: "server_inv E (em_server m)" "phase_ok (em_phase m) (em_now m) (em_store m)"
    using assms(3) by (simp_all add: expiry_inv_def)
  show ?thesis using assms(1)
  proof cases
    case compute
    then show ?thesis using i phase_ok_compute by (simp add: expiry_inv_def del: phase_ok.simps)
  next
    case (sleep t0 dur)
    then show ?thesis using i phase_ok_sleep by (simp add: expiry_inv_def del: phase_ok.simps)
  next
    case expire
    then have "server_step E (em_server m) (em_server m')" by (simp add: server_step.expiry_task)
    then show ?thesis using server_step_inv [OF _ assms(2) i(1)] expire by (simp add: expiry_inv_def)
  qed (use i(1) server_inv_permit in \<open>simp_all add: expiry_inv_def\<close>)
qed

lemma expiry_env_step_inv:
  assumes "expiry_env_step E m m'" and "libs_ok E" and "expiry_inv E m"
  shows "expiry_inv E m' \<and> em_now m \<le> em_now m' \<and> em_phase m' = em_phase m"
  using assms(1)
proof cases
  case (server srv)
  then show ?thesis
    using server_step_inv [OF server(2) assms(2)] server_step_wakes [OF server(2) assms(2)] assms(3)
      phase_ok_wakes [of "em_phase m" "em_now m" "em_store m" "srv_store srv" "em_now m"]
    by (simp add: expiry_inv_def)
next
  case (time_passes t)
  then show ?thesis using assms(3) phase_ok_wakes [OF _ wakes_refl, of "em_phase m" "em_now m" "em_store m" t] by (simp add: expiry_inv_def)
qed

lemma expiry_reachable_inv: "expiry_reachable E m \<Longrightarrow> libs_ok E \<Longrightarrow> expiry_inv E m"
proof (induction rule: expiry_reachable.induct)
  case (start srv t)
  then show ?case using server_reachable_inv by (simp add: expiry_inv_def)
qed (use expiry_task_step_inv expiry_env_step_inv in blast)+

text \<open>The task is blocked only in its wait, without a permit and before its timer.\<close>

lemma expiry_task_blocked:
  assumes "expiry_inv E m" and "\<nexists>m'. expiry_task_step E m m'"
    and "unat (st_next_rev (em_store m)) + length (st_leases (em_store m)) < 2 ^ 64"
  shows "\<exists>t0 t1 w. em_phase m = Waiting t0 t1 w
    \<and> (\<forall>e \<in> set (st_leases (em_store m)). em_now m + t0 < max t0 (ls_expires_at (snd e)) + t1)"
proof (cases "em_phase m")
  case (Waiting t0 t1 w)
  then have "\<not> st_expiry_notify (em_store m)" "\<And>t. w = Some t \<Longrightarrow> em_now m < t"
    using assms(2) expiry_task_step.notified expiry_task_step.timer by (blast, metis not_le)
  with assms(1) Waiting show ?thesis by (fastforce simp: expiry_inv_def)
next
  case Woken
  then show ?thesis using assms(2) expiry_task_step.expire [OF Woken assms(3)] by blast
qed (use assms(2) expiry_task_step.compute expiry_task_step.sleep in blast)+

section \<open>Runs\<close>

text \<open>A run of the machine.  It is fair when time grows without bound and the task is scheduled: from no moment on
  can it always take a step and never take one.\<close>

definition expiry_run :: "libs \<Rightarrow> (nat \<Rightarrow> expiry_machine) \<Rightarrow> bool" where
  "expiry_run E \<sigma> \<longleftrightarrow> expiry_reachable E (\<sigma> 0)
     \<and> (\<forall>i. expiry_task_step E (\<sigma> i) (\<sigma> (Suc i)) \<or> expiry_env_step E (\<sigma> i) (\<sigma> (Suc i)))"

definition expiry_fair :: "libs \<Rightarrow> (nat \<Rightarrow> expiry_machine) \<Rightarrow> bool" where
  "expiry_fair E \<sigma> \<longleftrightarrow> (\<forall>t. \<exists>i. t \<le> em_now (\<sigma> i))
     \<and> (\<forall>i. (\<forall>k \<ge> i. \<exists>m'. expiry_task_step E (\<sigma> k) m') \<longrightarrow> (\<exists>k \<ge> i. expiry_task_step E (\<sigma> k) (\<sigma> (Suc k))))"

definition revisions_left :: "expiry_machine \<Rightarrow> bool" where
  "revisions_left m \<longleftrightarrow> unat (st_next_rev (em_store m)) + length (st_leases (em_store m)) < 2 ^ 64"

lemma expiry_run_reachable: "expiry_run E \<sigma> \<Longrightarrow> expiry_reachable E (\<sigma> i)"
  by (induction i) (auto simp: expiry_run_def intro: expiry_reachable.intros)

lemma expiry_run_time:
  assumes "expiry_run E \<sigma>" and "libs_ok E" and "i \<le> k"
  shows "em_now (\<sigma> i) \<le> em_now (\<sigma> k)"
proof -
  have "em_now (\<sigma> n) \<le> em_now (\<sigma> (Suc n))" for n
    using assms(1) expiry_task_step_inv [OF _ assms(2)] expiry_env_step_inv [OF _ assms(2)]
      expiry_reachable_inv [OF expiry_run_reachable [OF assms(1)] assms(2)]
    by (metis expiry_run_def order_refl)
  then show ?thesis using assms(3) by (rule lift_Suc_mono_le)
qed

text \<open>While a lease keeps its deadline, the task goes on taking steps.\<close>

lemma expiry_task_goes_on:
  assumes "expiry_run E \<sigma>" and "expiry_fair E \<sigma>" and "libs_ok E"
    and l: "\<And>k. a \<le> k \<Longrightarrow> bt_get (st_leases (em_store (\<sigma> k))) j = Some l \<and> revisions_left (\<sigma> k)"
  shows "\<exists>k \<ge> a. expiry_task_step E (\<sigma> k) (\<sigma> (Suc k)) \<and> em_phase (\<sigma> k) = em_phase (\<sigma> a)"
proof -
  have inv: "expiry_inv E (\<sigma> k)" for k by (rule expiry_reachable_inv [OF expiry_run_reachable [OF assms(1)] assms(3)])
  have same: "em_phase (\<sigma> k) = em_phase (\<sigma> a)"
    if "a \<le> k" "\<forall>n. a \<le> n \<and> n < k \<longrightarrow> \<not> expiry_task_step E (\<sigma> n) (\<sigma> (Suc n))" for k
    using that
  proof (induction k rule: dec_induct)
    case (step n)
    then show ?case using assms(1) expiry_env_step_inv [OF _ assms(3) inv [of n]] by (auto simp: expiry_run_def)
  qed simp
  have "\<exists>k \<ge> a. expiry_task_step E (\<sigma> k) (\<sigma> (Suc k))"
  proof (rule ccontr)
    assume n: "\<not> ?thesis"
    define T where "T = (case em_phase (\<sigma> a) of Waiting t0 t1 w \<Rightarrow> max t0 (ls_expires_at l) + t1 | _ \<Rightarrow> 0)"
    obtain b where b: "T \<le> em_now (\<sigma> b)" using assms(2) unfolding expiry_fair_def by blast
    have "\<exists>m'. expiry_task_step E (\<sigma> k) m'" if k: "max a b \<le> k" for k
    proof (rule ccontr)
      assume "\<nexists>m'. expiry_task_step E (\<sigma> k) m'"
      moreover have g: "bt_get (st_leases (em_store (\<sigma> k))) j = Some l" and rv: "revisions_left (\<sigma> k)"
        using l k by simp_all
      have ok: "bt_ok (st_leases (em_store (\<sigma> k)))"
        using inv [of k] by (simp add: expiry_inv_def server_inv_def store_ok_def leases_ok_def)
      have mem: "(j, l) \<in> set (st_leases (em_store (\<sigma> k)))"
        using bt.iter_get [OF ok, of j l] g by (simp add: bt_iter_def)
      ultimately obtain t0 t1 w where w: "em_phase (\<sigma> k) = Waiting t0 t1 w"
        "\<forall>e \<in> set (st_leases (em_store (\<sigma> k))). em_now (\<sigma> k) + t0 < max t0 (ls_expires_at (snd e)) + t1"
        using expiry_task_blocked [OF inv [of k] _ rv [unfolded revisions_left_def]] by blast
      have lt: "em_now (\<sigma> k) + t0 < max t0 (ls_expires_at l) + t1" using bspec [OF w(2) mem] by simp
      have "em_phase (\<sigma> a) = em_phase (\<sigma> k)" using same [of k] n k by auto
      then have "T = max t0 (ls_expires_at l) + t1" using w(1) by (simp add: T_def)
      moreover have "em_now (\<sigma> b) \<le> em_now (\<sigma> k)" using expiry_run_time [OF assms(1,3)] k by simp
      ultimately show False using b lt by simp
    qed
    then obtain k where "max a b \<le> k" "expiry_task_step E (\<sigma> k) (\<sigma> (Suc k))"
      using assms(2) unfolding expiry_fair_def by meson
    then show False using n by auto
  qed
  then obtain k where "a \<le> k \<and> expiry_task_step E (\<sigma> k) (\<sigma> (Suc k))"
    "\<And>n. n < k \<Longrightarrow> \<not> (a \<le> n \<and> expiry_task_step E (\<sigma> n) (\<sigma> (Suc n)))"
    using exists_least_iff [of "\<lambda>k. a \<le> k \<and> expiry_task_step E (\<sigma> k) (\<sigma> (Suc k))"] by blast
  then show ?thesis using same [of k] by blast
qed

text \<open>So it comes to remove what is due.\<close>

fun steps_to_round :: "expiry_phase \<Rightarrow> nat" where
  "steps_to_round Woken = 0"
| "steps_to_round (Waiting _ _ _) = 1"
| "steps_to_round (Computed _ _) = 2"
| "steps_to_round Loop_Head = 3"

lemma expiry_round_comes:
  assumes "expiry_run E \<sigma>" and "expiry_fair E \<sigma>" and "libs_ok E"
    and l: "\<And>k. a \<le> k \<Longrightarrow> bt_get (st_leases (em_store (\<sigma> k))) j = Some l \<and> revisions_left (\<sigma> k)"
  shows "\<exists>k \<ge> a. em_phase (\<sigma> k) = Woken \<and> expiry_task_step E (\<sigma> k) (\<sigma> (Suc k))"
  using l
proof (induction "steps_to_round (em_phase (\<sigma> a))" arbitrary: a rule: less_induct)
  case less
  obtain k where k: "a \<le> k" "expiry_task_step E (\<sigma> k) (\<sigma> (Suc k))" "em_phase (\<sigma> k) = em_phase (\<sigma> a)"
    using expiry_task_goes_on [OF assms(1-3) less.prems] by blast
  show ?case
  proof (cases "em_phase (\<sigma> k) = Woken")
    case False
    then have "steps_to_round (em_phase (\<sigma> (Suc k))) < steps_to_round (em_phase (\<sigma> a))"
      using k(2,3) by (auto elim!: expiry_task_step.cases) (metis steps_to_round.simps less_Suc_eq numeral_2_eq_2 numeral_3_eq_3 One_nat_def)+
    from less.hyps [OF this] less.prems k(1) obtain n where
      "Suc k \<le> n" "em_phase (\<sigma> n) = Woken" "expiry_task_step E (\<sigma> n) (\<sigma> (Suc n))" by (metis le_SucI le_trans)
    then show ?thesis using k(1) by (intro exI [of _ n]) simp
  qed (use k in blast)
qed

section \<open>Properties\<close>

text \<open>C24. Leases expire: in every run of the server beside its expiry task in which the task is scheduled and time goes
  on, however requests, the other tasks and the steps of the expiry task interleave, every lease is eventually removed
  or gets another deadline by a renewal (as long as revisions last).  And the task never sleeps past a deadline: it is
  blocked only in its wait, and only while the clock is before the deadline of the lease plus the time it took from
  computing the duration to starting the wait.\<close>

theorem lease_expiry_liveness:
  assumes "libs_ok E" and "expiry_run E \<sigma>" and "expiry_fair E \<sigma>"
    and "bt_get (st_leases (em_store (\<sigma> i))) j = Some l"
  shows "(\<exists>k \<ge> i. bt_get (st_leases (em_store (\<sigma> k))) j \<noteq> Some l \<or> \<not> revisions_left (\<sigma> k))
    \<and> ((\<nexists>m'. expiry_task_step E (\<sigma> i) m') \<and> revisions_left (\<sigma> i) \<longrightarrow>
         (\<exists>t0 t1 w. em_phase (\<sigma> i) = Waiting t0 t1 w \<and> em_now (\<sigma> i) + t0 < max t0 (ls_expires_at l) + t1))"
proof -
  have inv: "expiry_inv E (\<sigma> k)" for k by (rule expiry_reachable_inv [OF expiry_run_reachable [OF assms(2)] assms(1)])
  have ok: "store_ok (em_store (\<sigma> k))" "wf_faults (st_wal (em_store (\<sigma> k))) = []" for k
    using inv [of k] by (auto simp: expiry_inv_def server_inv_def durable_def)
  have "\<exists>k \<ge> i. bt_get (st_leases (em_store (\<sigma> k))) j \<noteq> Some l \<or> \<not> revisions_left (\<sigma> k)"
  proof (rule ccontr)
    assume "\<not> ?thesis"
    then have keep: "bt_get (st_leases (em_store (\<sigma> k))) j = Some l \<and> revisions_left (\<sigma> k)" if "i \<le> k" for k
      using that by blast
    obtain b where b: "ls_expires_at l \<le> em_now (\<sigma> b)" using assms(3) unfolding expiry_fair_def by blast
    obtain k where k: "max i b \<le> k" "em_phase (\<sigma> k) = Woken" "expiry_task_step E (\<sigma> k) (\<sigma> (Suc k))"
      using expiry_round_comes [OF assms(2,3,1), of "max i b" j l] keep by auto
    have due: "ls_expires_at l \<le> em_now (\<sigma> k)" using b expiry_run_time [OF assms(2,1), of b k] k(1) by simp
    have "em_store (\<sigma> (Suc k)) = snd (expiry_step E (em_now (\<sigma> k)) (em_store (\<sigma> k)))"
      using k(2,3) by (auto elim!: expiry_task_step.cases)
    then have "bt_get (st_leases (em_store (\<sigma> (Suc k)))) j = None"
      using expiry_step_effect [OF ok(1) _ ok(2), of k E "em_now (\<sigma> k)"] keep [of k] k(1) due
      by (simp add: revisions_left_def)
    then show False using keep [of "Suc k"] k(1) by simp
  qed
  moreover have "(j, l) \<in> set (st_leases (em_store (\<sigma> i)))"
    using bt.iter_get [of "st_leases (em_store (\<sigma> i))" j l] ok(1) [of i] assms(4)
    by (simp add: store_ok_def leases_ok_def bt_iter_def)
  ultimately show ?thesis using expiry_task_blocked [OF inv [of i]] by (fastforce simp: revisions_left_def)
qed

text \<open>A run that alternates the clock and the task, after a lease was granted.\<close>

definition expiry_task_next :: "libs \<Rightarrow> expiry_machine \<Rightarrow> expiry_machine option" where
  "expiry_task_next E m =
     (case em_phase m of
        Loop_Head \<Rightarrow> Some (m\<lparr>em_phase := Computed (em_now m) (expiry_sleep (em_now m) (em_store m))\<rparr>)
      | Computed t0 dur \<Rightarrow> Some (m\<lparr>em_phase := Waiting t0 (em_now m) (map_option (\<lambda>d. em_now m + d) dur)\<rparr>)
      | Waiting t0 t1 w \<Rightarrow>
          if st_expiry_notify (em_store m) then
            Some (m\<lparr>em_server := set_store (expiry_wait True (em_store m)) (em_server m), em_phase := Woken\<rparr>)
          else if \<exists>t \<in> set_option w. t \<le> em_now m then
            Some (m\<lparr>em_server := set_store (expiry_wait False (em_store m)) (em_server m), em_phase := Woken\<rparr>)
          else None
      | Woken \<Rightarrow>
          if revisions_left m then
            Some (m\<lparr>em_server := set_store (snd (expiry_step E (em_now m) (em_store m))) (em_server m), em_phase := Loop_Head\<rparr>)
          else None)"

lemma expiry_task_next_step: "expiry_task_next E m = Some m' \<Longrightarrow> expiry_task_step E m m'"
  by (auto simp: expiry_task_next_def revisions_left_def intro: expiry_task_step.intros
      split: expiry_phase.splits if_splits)

lemma expiry_task_next_None: "expiry_task_next E m = None \<Longrightarrow> \<not> expiry_task_step E m m'"
  by (auto simp: expiry_task_next_def revisions_left_def elim!: expiry_task_step.cases split: if_splits)

primrec alternate :: "libs \<Rightarrow> expiry_machine \<Rightarrow> nat \<Rightarrow> expiry_machine" where
  "alternate E m 0 = m"
| "alternate E m (Suc i) =
     (let m' = alternate E m i
      in if even i then m'\<lparr>em_now := em_now m' + 1\<rparr>
         else case expiry_task_next E m' of Some m'' \<Rightarrow> m'' | None \<Rightarrow> m')"

lemma alternate_run:
  assumes "expiry_reachable E m" and "libs_ok E"
  shows "expiry_run E (alternate E m) \<and> expiry_fair E (alternate E m)"
proof -
  have stay: "expiry_env_step E m' m'" for m' using expiry_env_step.time_passes [of m' "em_now m'" E] by simp
  have "expiry_task_step E (alternate E m i) (alternate E m (Suc i))
      \<or> expiry_env_step E (alternate E m i) (alternate E m (Suc i))" for i
    using expiry_task_next_step stay expiry_env_step.time_passes
    by (auto simp: Let_def split: option.splits)
  then have run: "expiry_run E (alternate E m)" using assms(1) by (simp add: expiry_run_def)
  have "n \<le> em_now (alternate E m (2 * n))" for n
  proof (induction n)
    case (Suc n)
    have "em_now (alternate E m (Suc (2 * n))) \<le> em_now (alternate E m (2 * Suc n))"
      using expiry_run_time [OF run assms(2), of "Suc (2 * n)" "2 * Suc n"] by simp
    with Suc show ?case by (simp add: Let_def)
  qed simp
  moreover have "\<exists>k \<ge> i. expiry_task_step E (alternate E m k) (alternate E m (Suc k))"
    if en: "\<forall>k \<ge> i. \<exists>m'. expiry_task_step E (alternate E m k) m'" for i
  proof -
    obtain m' where "expiry_task_next E (alternate E m (2 * i + 1)) = Some m'"
      using spec [OF en, of "2 * i + 1"] expiry_task_next_None [of E "alternate E m (2 * i + 1)"]
      by (cases "expiry_task_next E (alternate E m (2 * i + 1))") auto
    moreover from this have "alternate E m (Suc (2 * i + 1)) = m'" by (subst alternate.simps(2)) (simp add: Let_def)
    ultimately have "expiry_task_step E (alternate E m (2 * i + 1)) (alternate E m (Suc (2 * i + 1)))"
      using expiry_task_next_step by metis
    then show ?thesis by (intro exI [of _ "2 * i + 1"]) simp
  qed
  ultimately show ?thesis using run by (auto simp: expiry_fair_def)
qed

definition demo_granted :: server where
  "demo_granted = set_store (snd (lease_grant 5 \<lparr>lg_ttl = 9, lg_id = 7\<rparr> (StoreState_new demo_wal)))
     (server_start 0 (StoreState_new demo_wal))"

lemma demo_granted_lease:
  "bt_get (st_leases (srv_store demo_granted)) 7 =
     Some \<lparr>ls_id = 7, ls_ttl = 9, ls_expires_at = 9000000005, ls_key_count = 0\<rparr>"
proof -
  have "check_lease_ttl 9 = Ok 9" by (simp add: check_lease_ttl_def LEASE_MAX_TTL_eq LEASE_MIN_TTL_def)
  moreover have "instant_add 5 9 = Some 9000000005" by (simp add: instant_add_def)
  ultimately show ?thesis
    by (simp add: demo_granted_def server_start_def lease_grant_def StoreState_new_def has_lease_def bt_get_def Let_def)
qed

lemma demo_granted_reachable: "server_reachable ref_libs demo_granted"
proof -
  let ?s0 = "server_start 0 (StoreState_new demo_wal)"
  let ?r = "LeaseGrantRpc \<lparr>lg_ttl = 9, lg_id = 7\<rparr>" and ?ce = "demo_call\<lparr>ce_now := 5\<rparr>"
  have w: "demo_wal = WalFile_open ''wal'' None []" by (simp add: demo_wal_def WalFile_open_def)
  have "server_reachable ref_libs ?s0" unfolding w by (rule server_reachable.first_start)
  moreover have "server_step ref_libs ?s0 (set_store (snd (serve ref_libs ?ce ?r (srv_store ?s0))) ?s0)"
    by (rule server_step.call) (simp add: clock_ok_def)
  moreover have "snd (serve ref_libs ?ce ?r (srv_store ?s0)) =
      snd (lease_grant 5 \<lparr>lg_ttl = 9, lg_id = 7\<rparr> (StoreState_new demo_wal))"
    by (auto simp: Lease_grant_def server_start_def demo_call_def split: prod.splits res.splits)
  ultimately show ?thesis unfolding demo_granted_def by (metis server_reachable.server_run)
qed

lemma lease_expiry_liveness_witness:
  "\<exists>\<sigma> l. expiry_run ref_libs \<sigma> \<and> expiry_fair ref_libs \<sigma> \<and> bt_get (st_leases (em_store (\<sigma> 0))) 7 = Some l
     \<and> (\<exists>k. bt_get (st_leases (em_store (\<sigma> k))) 7 \<noteq> Some l \<or> \<not> revisions_left (\<sigma> k))"
proof -
  let ?m = "\<lparr>em_server = demo_granted, em_now = 6, em_phase = Loop_Head\<rparr>"
  have r: "expiry_run ref_libs (alternate ref_libs ?m)" "expiry_fair ref_libs (alternate ref_libs ?m)"
    using alternate_run [OF expiry_reachable.start [OF demo_granted_reachable] libs_ok_ref] by simp_all
  have l: "bt_get (st_leases (em_store (alternate ref_libs ?m 0))) 7 =
      Some \<lparr>ls_id = 7, ls_ttl = 9, ls_expires_at = 9000000005, ls_key_count = 0\<rparr>"
    using demo_granted_lease by simp
  from lease_expiry_liveness [OF libs_ok_ref r l] r l show ?thesis by blast
qed

end
