(* ===== verification/Client.thy ===== *)
theory Client
  imports Txn_Spec
begin

text \<open>
  What the command-line clients of \<^verbatim>\<open>src/bin/\<close> have in common: the put they send, alone or guarded by a
  comparison, and what it does to a store that is well-formed and whose log can be written.
\<close>

text \<open>\<open>put(key, value, None)\<close> and \<open>TxnOp::put(key, value, None)\<close>: only key and value are set.\<close>

definition plain_put :: "bytes \<Rightarrow> bytes \<Rightarrow> put_request" where
  "plain_put key val = \<lparr>pr_key = key, pr_value = val, pr_lease = 0, pr_prev_kv = False,
     pr_ignore_value = False, pr_ignore_lease = False\<rparr>"

lemma plain_put_facts:
  "pr_key (plain_put k v) = k"
  "\<not> put_reuses_missing (plain_put k v) s" "\<not> put_lease_missing (plain_put k v) s"
  "put_value (plain_put k v) s = v" "put_lease (plain_put k v) s = 0"
  "k \<noteq> [] \<Longrightarrow> validate_put (plain_put k v) s = Ok ()"
  "length k < 2 ^ 32 \<Longrightarrow> length v < 2 ^ 32 \<Longrightarrow> put_small (plain_put k v)"
  by (simp_all add: plain_put_def validate_put_def check_key_def put_reuses_missing_def
      put_lease_missing_def put_lease_def put_value_def put_small_def)

text \<open>A put of its own at the next revision.\<close>

lemma plain_put_at:
  assumes "store_ok s" and "wf_faults (st_wal s) = []" and "st_next_rev s \<noteq> - 1"
    and "length k < 2 ^ 32" and "length v < 2 ^ 32" and "alloc_revision s = (r, t)"
  shows "\<exists>q s'. put_at E (plain_put k v) r t = (Ok q, s') \<and> store_ok s' \<and> wf_faults (st_wal s') = []
    \<and> st_next_rev s' = st_next_rev s + 1 \<and> view_of s' = spec_put k v 0 (st_next_rev s) (view_of s)"
proof -
  let ?p = "plain_put k v"
  have t: "t = snd (alloc_revision s)" "r = st_next_rev s" using assms(6) by (auto simp: alloc_revision_def Let_def)
  note p = plain_put_facts(1-5) plain_put_facts(7) [OF assms(4,5)]
  obtain q s' where at: "put_at E ?p r t = (Ok q, s')" "s' = snd (put_at E ?p r t)"
    using p assms(2) unfolding t by (simp add: put_at_eq append_kv_no_fault Let_def)
  have n: "wf_faults (st_wal s') = []" "st_next_rev s' = st_next_rev s + 1"
    using p assms(2) unfolding at(2) t by (simp_all add: put_at_eq append_kv_no_fault apply_put_eq Let_def)
  have tt: "store_ok t" "at_rev r t" using alloc_revision_at [OF assms(1,3)] by (simp_all add: t)
  have v: "view_of t = view_of s" by (simp add: t view_of_def get_alive_def fun_eq_iff)
  have "keys_ok t" using tt(1) by (simp add: store_ok_def)
  note pc = put_at_correct [OF this tt(2) p(6), of E, unfolded at(1)]
  then have "store_ok s'" "view_of s' = spec_put k v 0 (st_next_rev s) (view_of s)"
    using store_ok_keys [OF tt(1)] by (simp_all add: p v t(2))
  with at(1) n show ?thesis by blast
qed

lemma plain_put_run:
  assumes "store_ok s" and "wf_faults (st_wal s) = []" and "st_next_rev s \<noteq> - 1"
    and "k \<noteq> []" and "length k < 2 ^ 32" and "length v < 2 ^ 32"
  shows "\<exists>q s'. put E (plain_put k v) s = (Ok q, s') \<and> store_ok s' \<and> wf_faults (st_wal s') = []
    \<and> st_next_rev s' = st_next_rev s + 1 \<and> view_of s' = spec_put k v 0 (st_next_rev s) (view_of s)"
proof -
  have al: "alloc_revision s = (st_next_rev s, snd (alloc_revision s))" by (simp add: alloc_revision_def Let_def)
  from plain_put_at [OF assms(1-3,5,6) al, of E] show ?thesis
    by (simp add: put_unfold plain_put_facts(6) [OF assms(4)])
qed

text \<open>A transaction that puts one key when its comparisons hold, and does nothing otherwise.\<close>

lemma guarded_put_run:
  assumes "store_ok s" and "wf_faults (st_wal s) = []" and "st_next_rev s \<noteq> - 1"
    and "k \<noteq> []" and "length k < 2 ^ 32" and "length v < 2 ^ 32"
    and "tx_success q = [Some (RequestPut (plain_put k v))]" and "tx_failure q = []"
    and "holds = list_all (key_compare (view_of s)) (tx_compare q)"
  shows "\<exists>resp s'. txn E env q s = (Ok resp, s') \<and> store_ok s' \<and> wf_faults (st_wal s') = []
    \<and> ts_succeeded resp = holds \<and> st_next_rev s' = st_next_rev s + of_bool holds
    \<and> view_of s' = (if holds then spec_put k v 0 (st_next_rev s) (view_of s) else view_of s)"
proof -
  have c: "check_txn_duplicate_keys q = Ok ()"
    using assms(4,7,8) by (simp add: check_txn_duplicate_keys_def check_txn_branch_def check_key_def dup_check_def
        plain_put_facts)
  have e: "list_all (eval_compare s) (tx_compare q) = holds" by (simp add: view_helpers assms(9))
  show ?thesis
  proof (cases holds)
    case False
    then have "txn E env q s = (Ok \<lparr>ts_header = Some (header s), ts_succeeded = False, ts_responses = []\<rparr>, s)"
      using c e by (simp add: txn_def assms(8))
    then show ?thesis using False assms(1,2) by simp
  next
    case True
    obtain t where al: "alloc_revision s = (st_next_rev s, t)" by (simp add: alloc_revision_def Let_def)
    obtain r s' where at: "put_at E (plain_put k v) (st_next_rev s) t = (Ok r, s')" "store_ok s'"
      "wf_faults (st_wal s') = []" "st_next_rev s' = st_next_rev s + 1" "view_of s' = spec_put k v 0 (st_next_rev s) (view_of s)"
      using plain_put_at [OF assms(1-3,5,6) al, of E] by blast
    have "txn E env q s =
        (Ok \<lparr>ts_header = Some (header s'), ts_succeeded = True, ts_responses = [Some (ResponsePut r)]\<rparr>, s')"
      using c e True al at(1) plain_put_facts(6) [OF assms(4), of v s] by (simp add: txn_def assms(7) get_or_alloc_def)
    then show ?thesis using True at by simp
  qed
qed

end
