(* ===== verification/Load_Tools.thy ===== *)
theory Load_Tools
  imports Services Text Client
begin

text \<open>
  The load and benchmark clients (\<^verbatim>\<open>src/bin/stress.rs\<close>, \<^verbatim>\<open>wipe_stress.rs\<close>, \<^verbatim>\<open>concurrent_put.rs\<close>,
  \<^verbatim>\<open>bench.rs\<close>) against the store: which requests their workers send, and what is in the store afterwards, whatever
  the order in which the requests of the workers arrive.  The client library is not part of the repository: the
  requests it builds are a parameter.  Timing, the reporter and printing are left out; so are the reads of the load
  generator, whose answers it drops.
\<close>

section \<open>The client library\<close>

text \<open>\<open>put(key, value, None)\<close> and \<open>delete(key, DeleteOptions::new().with_prefix())\<close>.\<close>

record etcd_client =
  ec_put :: "bytes \<Rightarrow> bytes \<Rightarrow> put_request"
  ec_delete_prefix :: "bytes \<Rightarrow> delete_range_request"

text \<open>What the library documents: a put without options sets only key and value; a deletion with a prefix ends
  its range behind the last key with the prefix, and at \<open>[0]\<close> when there is no such key.\<close>

definition client_documented :: "etcd_client \<Rightarrow> bool" where
  "client_documented C \<longleftrightarrow> (\<forall>k v. ec_put C k v = plain_put k v)
     \<and> (\<forall>p. ec_delete_prefix C p =
          \<lparr>dr_key = p, dr_range_end = (case prefix_end p of Some e \<Rightarrow> e | None \<Rightarrow> [0]), dr_prev_kv = False\<rparr>)"

definition make_value :: "nat \<Rightarrow> bytes" where
  "make_value n = replicate n (word_of_nat (of_char CHR ''x''))"

section \<open>The load generator\<close>

text \<open>Every worker counts its keys upwards; the counters of operations and errors are shared.\<close>

record stress_state =
  sx_next :: "nat \<Rightarrow> u64"
  sx_ops :: u64
  sx_errs :: u64
  sx_store :: store_state

definition stress_key :: "nat \<Rightarrow> u64 \<Rightarrow> bytes" where
  "stress_key w i = ascii (''stress/'' @ zero_pad 4 w @ ''/'' @ zero_pad 20 (unat i))"

definition stress_turn :: "libs \<Rightarrow> etcd_client \<Rightarrow> bytes \<Rightarrow> nat \<Rightarrow> stress_state \<Rightarrow> stress_state" where
  "stress_turn E C val w st =
     (let i = sx_next st w;
          key = stress_key w i;
          st = (case Kv_put E (ec_put C key val) (sx_store st) of
                  (Ok _, s) \<Rightarrow> st\<lparr>sx_ops := sx_ops st + 1, sx_store := s\<rparr>
                | (_, s) \<Rightarrow> st\<lparr>sx_errs := sx_errs st + 1, sx_store := s\<rparr>)
      in st\<lparr>sx_next := (sx_next st)(w := i + 1)\<rparr>)"

text \<open>The run of all workers: the list says which worker's request is served next.\<close>

definition stress_run :: "libs \<Rightarrow> etcd_client \<Rightarrow> nat \<Rightarrow> nat list \<Rightarrow> store_state \<Rightarrow> stress_state" where
  "stress_run E C val_size schedule s =
     fold (stress_turn E C (make_value val_size)) schedule
       \<lparr>sx_next = (\<lambda>_. 0), sx_ops = 0, sx_errs = 0, sx_store = s\<rparr>"

text \<open>The clean-up prints the number of deleted keys, and panics when the request fails.\<close>

definition wipe_stress :: "libs \<Rightarrow> etcd_client \<Rightarrow> store_state \<Rightarrow> i64 option \<times> store_state" where
  "wipe_stress E C s =
     (case Kv_delete_range E (ec_delete_prefix C (ascii ''stress/'')) s of
        (Ok resp, s) \<Rightarrow> (Some (ds_deleted resp), s)
      | (_, s) \<Rightarrow> (None, s))"

section \<open>The contention benchmark\<close>

definition PREPOP :: nat where "PREPOP = 50000"
definition OPS_PER_WORKER :: nat where "OPS_PER_WORKER = 2000"

definition rwlock_key :: "u64 \<Rightarrow> bytes" where
  "rwlock_key i = ascii (''rwlock_bench/'' @ zero_pad 20 (unat i))"

text \<open>The warm-up panics at the first error.\<close>

fun warmup_puts :: "libs \<Rightarrow> etcd_client \<Rightarrow> bytes \<Rightarrow> u64 list \<Rightarrow> store_state \<Rightarrow> store_state option" where
  "warmup_puts E C val [] s = Some s"
| "warmup_puts E C val (i # is') s =
     (case Kv_put E (ec_put C (rwlock_key i) val) s of
        (Ok _, s) \<Rightarrow> warmup_puts E C val is' s
      | (_, s) \<Rightarrow> None)"

definition warmup :: "libs \<Rightarrow> etcd_client \<Rightarrow> store_state \<Rightarrow> store_state option" where
  "warmup E C s = warmup_puts E C (make_value 128) (map word_of_nat [0..<PREPOP]) s"

text \<open>A worker with the keys it has still to write and the number of its latencies; it dies at an error,
  and its latencies are lost.\<close>

record bench_worker =
  bw_keys :: "u64 list"
  bw_latencies :: "nat option"

definition bench_turn ::
    "libs \<Rightarrow> etcd_client \<Rightarrow> bytes \<Rightarrow> nat \<Rightarrow> (nat \<Rightarrow> bench_worker) \<times> store_state
       \<Rightarrow> (nat \<Rightarrow> bench_worker) \<times> store_state" where
  "bench_turn E C val w st =
     (case st of (ws, s) \<Rightarrow>
        case bw_keys (ws w) of
          [] \<Rightarrow> (ws, s)
        | key_idx # keys \<Rightarrow>
            (case Kv_put E (ec_put C (rwlock_key key_idx) val) s of
               (Ok _, s) \<Rightarrow>
                 (ws(w := \<lparr>bw_keys = keys, bw_latencies = map_option Suc (bw_latencies (ws w))\<rparr>), s)
             | (_, s) \<Rightarrow> (ws(w := \<lparr>bw_keys = [], bw_latencies = None\<rparr>), s)))"

text \<open>One round with the key sequences drawn for its workers; the result is the number of collected
  latencies.\<close>

definition bench_round ::
    "libs \<Rightarrow> etcd_client \<Rightarrow> nat \<Rightarrow> (nat \<Rightarrow> u64 list) \<Rightarrow> nat list \<Rightarrow> store_state \<Rightarrow> nat \<times> store_state" where
  "bench_round E C workers per_worker_keys schedule s =
     (let (ws, s) = fold (bench_turn E C (make_value 128)) schedule
                      ((\<lambda>w. \<lparr>bw_keys = per_worker_keys w, bw_latencies = Some 0\<rparr>), s)
      in (sum_list (map (\<lambda>w. case bw_latencies (ws w) of Some n \<Rightarrow> n | None \<Rightarrow> 0) [0..<workers]), s))"

section \<open>The benchmark\<close>

definition bench_key :: "u64 \<Rightarrow> bytes" where
  "bench_key i = ascii (''rudurru_bench/'' @ zero_pad 20 (unat i))"

text \<open>The keys that the workers of the throughput test write.\<close>

definition per_task :: "nat \<Rightarrow> nat" where "per_task workers = 2000 div workers"

definition bench_worker_keys :: "nat \<Rightarrow> nat \<Rightarrow> bytes list" where
  "bench_worker_keys workers w =
     map (\<lambda>i. bench_key (word_of_nat (w * per_task workers + 30000000 + i))) [0..<per_task workers]"

section \<open>A put of the client\<close>

lemma client_put_run:
  assumes "client_documented C" and "store_ok s" and "wf_faults (st_wal s) = []" and "st_next_rev s \<noteq> - 1"
    and "k \<noteq> []" and "length k < 2 ^ 32" and "length v < 2 ^ 32"
  shows "\<exists>q s'. Kv_put E (ec_put C k v) s = (Ok q, s') \<and> store_ok s' \<and> wf_faults (st_wal s') = []
    \<and> st_next_rev s' = st_next_rev s + 1 \<and> view_of s' = spec_put k v 0 (st_next_rev s) (view_of s)"
  using plain_put_run [OF assms(2-7), of E] assms(1) by (auto simp: Kv_put_def client_documented_def)

section \<open>Keys of the workers\<close>

lemma digits_separated:
  "list_all P a \<Longrightarrow> list_all P b \<Longrightarrow> \<not> P c \<Longrightarrow> a @ c # x = b @ c # y \<Longrightarrow> a = b \<and> x = y"
proof (induction a arbitrary: b)
  case Nil
  then show ?case by (cases b) auto
next
  case (Cons d a)
  then show ?case by (cases b) auto
qed

lemma stress_key_inject: "stress_key w i = stress_key w' i' \<longleftrightarrow> w = w' \<and> i = i'"
proof
  assume "stress_key w i = stress_key w' i'"
  then have "zero_pad 4 w @ CHR ''/'' # zero_pad 20 (unat i) = zero_pad 4 w' @ CHR ''/'' # zero_pad 20 (unat i')"
    by (simp only: stress_key_def ascii_inject append.simps same_append_eq)
      (simp only: append_Cons append_Nil same_append_eq list.inject simp_thms)
  then have "zero_pad 4 w = zero_pad 4 w' \<and> zero_pad 20 (unat i) = zero_pad 20 (unat i')"
    using digits_separated [OF zero_pad_digits zero_pad_digits, of "CHR ''/''"] by (simp add: is_digit_def)
  then show "w = w' \<and> i = i'" by (simp add: zero_pad_inject word_unat_eq_iff)
qed simp

lemma unat_less_digits: "unat (i :: u64) < 10 ^ 20"
proof -
  have "unat i < 2 ^ LENGTH(64)" by (rule unsigned_less)
  then show ?thesis by simp
qed

lemma stress_key_facts:
  "stress_key w i \<noteq> []" "prefix (ascii ''stress/'') (stress_key w i)"
  "w < 2 ^ 64 \<Longrightarrow> length (stress_key w i) < 2 ^ 32"
proof -
  show "stress_key w i \<noteq> []" "prefix (ascii ''stress/'') (stress_key w i)" unfolding stress_key_def ascii_append by (simp_all add: ascii_def)
  assume "w < 2 ^ 64"
  then have "w < 10 ^ 20" by simp
  from length_show_nat [OF this] have "length (zero_pad 4 w) \<le> 20" by (simp add: zero_pad_def)
  then show "length (stress_key w i) < 2 ^ 32"
    using length_zero_pad [OF unat_less_digits, of i] by (simp add: stress_key_def)
qed

section \<open>The run of the load generator\<close>

text \<open>The keys that a schedule writes.\<close>

definition written :: "nat list \<Rightarrow> bytes set" where
  "written xs = (\<lambda>(w, i). stress_key w (word_of_nat i)) ` (SIGMA w:set xs. {..<count_list xs w})"

lemma written_snoc: "written (xs @ [w]) = insert (stress_key w (word_of_nat (count_list xs w))) (written xs)"
proof -
  have "(SIGMA v:set (xs @ [w]). {..<count_list (xs @ [w]) v}) =
      insert (w, count_list xs w) (SIGMA v:set xs. {..<count_list xs v})"
    by (auto simp: less_Suc_eq count_list_0_iff intro: ccontr split: if_splits)
  then show ?thesis by (simp add: written_def)
qed

lemma card_written:
  assumes "length xs < 2 ^ 64"
  shows "card (written xs) = length xs"
proof -
  have lt: "i < 2 ^ 64" if "i < count_list xs w" for w i
    using that assms count_le_length [of xs w] by linarith
  have "inj_on (\<lambda>(w, i). stress_key w (word_of_nat i)) (SIGMA w:set xs. {..<count_list xs w})"
  proof (rule inj_onI, clarsimp simp: stress_key_inject)
    fix w i j assume "i < count_list xs w" "j < count_list xs w" "(word_of_nat i :: u64) = word_of_nat j"
    then show "i = j" using lt by (simp add: word_of_nat_eq_iff take_bit_nat_eq_self)
  qed
  then have "card (written xs) = (\<Sum>w \<in> set xs. count_list xs w)" by (simp add: written_def card_image)
  then show ?thesis by (simp add: sum_count_set)
qed

definition stress_inv :: "bytes \<Rightarrow> nat list \<Rightarrow> store_state \<Rightarrow> stress_state \<Rightarrow> bool" where
  "stress_inv val xs s st \<longleftrightarrow> sx_next st = (\<lambda>w. word_of_nat (count_list xs w))
     \<and> sx_ops st = word_of_nat (length xs) \<and> sx_errs st = 0
     \<and> store_ok (sx_store st) \<and> wf_faults (st_wal (sx_store st)) = []
     \<and> unat (st_next_rev (sx_store st)) = unat (st_next_rev s) + length xs
     \<and> (\<forall>k. if k \<in> written xs then map_option a_value (view_of (sx_store st) k) = Some val
            else view_of (sx_store st) k = view_of s k)"

lemma stress_inv_turn:
  assumes "client_documented C" and "stress_inv val xs s st" and "w < 2 ^ 64" and "length val < 2 ^ 32"
    and "unat (st_next_rev s) + length xs + 1 < 2 ^ 64"
  shows "stress_inv val (xs @ [w]) s (stress_turn E C val w st)"
proof -
  let ?i = "word_of_nat (count_list xs w) :: u64"
  let ?t = "sx_store st"
  have inv: "sx_next st w = ?i" "store_ok ?t" "wf_faults (st_wal ?t) = []"
    "unat (st_next_rev ?t) = unat (st_next_rev s) + length xs" using assms(2) by (simp_all add: stress_inv_def)
  have n: "st_next_rev ?t \<noteq> - 1" using assms(5) inv(4) by (auto simp: unat_max)
  obtain q t' where t': "Kv_put E (ec_put C (stress_key w ?i) val) ?t = (Ok q, t')" "store_ok t'" "wf_faults (st_wal t') = []"
    "st_next_rev t' = st_next_rev ?t + 1" "view_of t' = spec_put (stress_key w ?i) val 0 (st_next_rev ?t) (view_of ?t)"
    using client_put_run [OF assms(1) inv(2,3) n, of "stress_key w ?i" val E] stress_key_facts assms(3,4) by metis
  have turn: "stress_turn E C val w st =
      st\<lparr>sx_ops := sx_ops st + 1, sx_store := t', sx_next := (sx_next st)(w := ?i + 1)\<rparr>"
    by (simp add: stress_turn_def inv(1) t'(1) Let_def)
  have v: "k \<noteq> stress_key w ?i \<Longrightarrow> view_of t' k = view_of ?t k"
    "map_option a_value (view_of t' (stress_key w ?i)) = Some val" for k
    by (simp_all add: t'(5) spec_put_def split: option.splits)
  have "if k \<in> written (xs @ [w]) then map_option a_value (view_of t' k) = Some val else view_of t' k = view_of s k" for k
    using v(1) [of k] v(2) assms(2) unfolding written_snoc stress_inv_def by (cases "k = stress_key w ?i") (simp_all split: if_splits)
  moreover have "unat (st_next_rev t') = unat (st_next_rev s) + length (xs @ [w])"
    using inv(4) unat_succ [OF n] by (simp add: t'(4))
  moreover have "(sx_next st)(w := ?i + 1) = (\<lambda>v. word_of_nat (count_list (xs @ [w]) v))"
    using assms(2) by (auto simp: stress_inv_def fun_eq_iff)
  ultimately show ?thesis using t'(2,3) assms(2) by (simp add: turn stress_inv_def)
qed

lemma stress_inv_run:
  assumes "client_documented C" and "store_ok s" and "wf_faults (st_wal s) = []"
    and "\<forall>w \<in> set schedule. w < 2 ^ 64" and "val_size < 2 ^ 32"
    and "unat (st_next_rev s) + length schedule < 2 ^ 64"
  shows "stress_inv (make_value val_size) schedule s (stress_run E C val_size schedule s)"
  using assms(4,6)
proof (induction schedule rule: rev_induct)
  case Nil
  then show ?case using assms(2,3) by (simp add: stress_inv_def stress_run_def written_def)
next
  case (snoc w xs)
  then show ?case
    using stress_inv_turn [OF assms(1), of "make_value val_size" xs s "stress_run E C val_size xs s" w E] assms(5)
    by (simp add: stress_run_def make_value_def)
qed

section \<open>The clean-up\<close>

lemma length_live_in:
  assumes "bt_ok (st_keys s)"
  shows "length (live_in b s) = card {k \<in> dom (view_of s). matches_range b k}"
proof -
  have "distinct (live_in b s)"
    using bt.distinct_keys [OF assms] by (simp add: live_in_def bt_iter_def distinct_map_filter)
  then have "length (live_in b s) = card (set (live_in b s))" by (simp add: distinct_card)
  also have "set (live_in b s) = {k \<in> dom (view_of s). matches_range b k}"
    using set_live_in [OF assms] by (auto simp: view_of_def)
  finally show ?thesis .
qed

lemma wipe_run:
  assumes "client_documented C" and "store_ok s" and "wf_faults (st_wal s) = []" and "st_next_rev s \<noteq> - 1"
  shows "\<exists>s'. wipe_stress E C s = (Some (word_of_nat (card {k \<in> dom (view_of s). prefix (ascii ''stress/'') k})), s')
    \<and> view_of s' = (\<lambda>k. if prefix (ascii ''stress/'') k then None else view_of s k)"
proof -
  let ?q = "ec_delete_prefix C (ascii ''stress/'')"
  have q: "dr_bound ?q = Prefix (ascii ''stress/'')" "dr_key ?q \<noteq> []"
  proof -
    have "prefix_end (ascii ''stress/'') = Some (ascii ''stress0'')" by code_simp
    moreover have "resolve_range (ascii ''stress/'') (ascii ''stress0'') = Prefix (ascii ''stress/'')" by code_simp
    moreover have "ascii ''stress/'' \<noteq> []" by (simp add: ascii_def)
    ultimately show "dr_bound ?q = Prefix (ascii ''stress/'')" "dr_key ?q \<noteq> []"
      using assms(1) by (simp_all add: client_documented_def)
  qed
  have ok: "bt_ok (st_keys s)" using assms(2) by (simp add: store_ok_def keys_ok_def)
  obtain resp s' where d: "delete_range E ?q s = (Ok resp, s')"
    using delete_range_is_ok [OF assms(2,4) q(2) assms(3), of E] q(1)
    by (cases "delete_range E ?q s"; cases "fst (delete_range E ?q s)") auto
  have "ds_deleted resp = word_of_nat (card {k \<in> dom (view_of s). prefix (ascii ''stress/'') k})"
    using delete_range_report [OF assms(2,4) d] length_live_in [OF ok] by (simp add: q(1))
  moreover have "view_of s' = (\<lambda>k. if prefix (ascii ''stress/'') k then None else view_of s k)"
    using delete_range_correct [OF assms(2,4) q(2), of E] d q(1)
    by (simp add: spec_delete_def restrict_map_def fun_eq_iff)
  ultimately show ?thesis by (simp add: wipe_stress_def Kv_delete_range_def d)
qed

section \<open>Properties\<close>

text \<open>C38. A run of the load generator and its clean-up, for every order in which the requests of the workers are served: no
  request fails and every worker's keys hold the value; other keys are untouched.  The clean-up then removes
  exactly the keys below the prefix, and when there were none before the run it reports as many deletions as the
  run reported operations.\<close>

theorem stress_then_wipe:
  assumes "client_documented C" and "store_ok s" and "wf_faults (st_wal s) = []"
    and "\<forall>w \<in> set schedule. w < 2 ^ 64" and "val_size < 2 ^ 32"
    and "unat (st_next_rev s) + length schedule + 1 < 2 ^ 64"
    and "st = stress_run E C val_size schedule s"
  shows "sx_errs st = 0 \<and> sx_ops st = word_of_nat (length schedule)
    \<and> (\<forall>w i. i < count_list schedule w \<longrightarrow>
         map_option a_value (view_of (sx_store st) (stress_key w (word_of_nat i))) = Some (make_value val_size))
    \<and> (\<forall>k. \<not> prefix (ascii ''stress/'') k \<longrightarrow> view_of (sx_store st) k = view_of s k)
    \<and> (\<exists>n s'. wipe_stress E C (sx_store st) = (Some n, s')
         \<and> view_of s' = (\<lambda>k. if prefix (ascii ''stress/'') k then None else view_of s k)
         \<and> ((\<forall>k. prefix (ascii ''stress/'') k \<longrightarrow> view_of s k = None) \<longrightarrow> n = sx_ops st))"
proof -
  have "unat (st_next_rev s) + length schedule < 2 ^ 64" using assms(6) by simp
  then have inv: "stress_inv (make_value val_size) schedule s st"
    unfolding assms(7) by (rule stress_inv_run [OF assms(1-5)])
  have pre: "prefix (ascii ''stress/'') k" if "k \<in> written schedule" for k
    using that stress_key_facts(2) by (auto simp: written_def)
  have w: "stress_key w (word_of_nat i) \<in> written schedule" if "i < count_list schedule w" for w i
  proof -
    have "w \<in> set schedule" using that by (metis count_notin not_less_zero)
    then show ?thesis using that by (force simp: written_def)
  qed
  have v: "if k \<in> written schedule then map_option a_value (view_of (sx_store st) k) = Some (make_value val_size)
      else view_of (sx_store st) k = view_of s k" for k using inv by (simp add: stress_inv_def)
  have keep: "view_of (sx_store st) k = view_of s k" if "\<not> prefix (ascii ''stress/'') k" for k
    using v [of k] pre [of k] that by (auto split: if_splits)
  have "st_next_rev (sx_store st) \<noteq> - 1" using assms(6) inv by (auto simp: stress_inv_def unat_max)
  then obtain s' where s': "wipe_stress E C (sx_store st) =
      (Some (word_of_nat (card {k \<in> dom (view_of (sx_store st)). prefix (ascii ''stress/'') k})), s')"
    "view_of s' = (\<lambda>k. if prefix (ascii ''stress/'') k then None else view_of (sx_store st) k)"
    using wipe_run [OF assms(1), of "sx_store st" E] inv by (auto simp: stress_inv_def)
  have "{k \<in> dom (view_of (sx_store st)). prefix (ascii ''stress/'') k} = written schedule"
    if none: "\<forall>k. prefix (ascii ''stress/'') k \<longrightarrow> view_of s k = None"
  proof (rule set_eqI)
    fix k
    show "k \<in> {k \<in> dom (view_of (sx_store st)). prefix (ascii ''stress/'') k} \<longleftrightarrow> k \<in> written schedule"
      using v [of k] pre [of k] none by (cases "k \<in> written schedule") auto
  qed
  then have "word_of_nat (card {k \<in> dom (view_of (sx_store st)). prefix (ascii ''stress/'') k}) = sx_ops st"
    if "\<forall>k. prefix (ascii ''stress/'') k \<longrightarrow> view_of s k = None"
    using that card_written [of schedule] assms(6) inv by (simp add: stress_inv_def)
  moreover have "view_of s' = (\<lambda>k. if prefix (ascii ''stress/'') k then None else view_of s k)"
    using keep by (auto simp: s'(2))
  moreover have "map_option a_value (view_of (sx_store st) (stress_key w (word_of_nat i))) = Some (make_value val_size)"
    if "i < count_list schedule w" for w i using v w [OF that] by (metis (full_types))
  ultimately show ?thesis using s'(1) inv keep by (auto simp: stress_inv_def)
qed

definition ref_client :: etcd_client where
  "ref_client = \<lparr>ec_put = plain_put,
     ec_delete_prefix = (\<lambda>p. \<lparr>dr_key = p,
       dr_range_end = (case prefix_end p of Some e \<Rightarrow> e | None \<Rightarrow> [0]), dr_prev_kv = False\<rparr>)\<rparr>"

lemma ref_client_documented: "client_documented ref_client"
  by (simp add: client_documented_def ref_client_def)

lemma view_of_new: "view_of (StoreState_new demo_wal) = (\<lambda>_. None)"
  by (rule ext) (simp add: view_of_def get_alive_def StoreState_new_def bt_get_def)

lemma new_store_facts: "wf_faults (st_wal (StoreState_new demo_wal)) = []" "st_next_rev (StoreState_new demo_wal) = 1"
  by (simp_all add: StoreState_new_def demo_wal_def)

lemma stress_then_wipe_witness:
  "sx_ops (stress_run ref_libs ref_client 3 [0, 1, 0] (StoreState_new demo_wal)) = 3
   \<and> fst (wipe_stress ref_libs ref_client
       (sx_store (stress_run ref_libs ref_client 3 [0, 1, 0] (StoreState_new demo_wal)))) = Some 3"
proof -
  have "\<forall>w \<in> set [0, 1, 0 :: nat]. w < 2 ^ 64" "(3 :: nat) < 2 ^ 32"
    "unat (st_next_rev (StoreState_new demo_wal)) + length [0, 1, 0 :: nat] + 1 < 2 ^ 64"
    by (simp_all add: new_store_facts)
  from stress_then_wipe [OF ref_client_documented store_ok_new new_store_facts(1) this refl, of ref_libs]
  show ?thesis by (auto simp: view_of_new)
qed

section \<open>The contention benchmark\<close>

definition version_of :: "(bytes \<Rightarrow> abs_kv option) \<Rightarrow> bytes \<Rightarrow> i64" where
  "version_of m k = (case m k of Some v \<Rightarrow> a_version v | None \<Rightarrow> 0)"

lemma version_of_put: "version_of (spec_put k v l r m) j = version_of m j + of_bool (j = k)"
  by (simp add: version_of_def spec_put_def split: option.splits)

lemma rwlock_key_inject: "rwlock_key i = rwlock_key j \<longleftrightarrow> i = j"
  by (simp add: rwlock_key_def ascii_inject zero_pad_inject word_unat_eq_iff)

lemma rwlock_key_facts: "rwlock_key i \<noteq> []" "length (rwlock_key i) < 2 ^ 32"
  using length_zero_pad [OF unat_less_digits, of i] by (simp_all add: rwlock_key_def) (simp add: ascii_def)

text \<open>The store after some writes of the benchmark: every write has raised the version of its key.\<close>

definition bench_inv :: "u64 list \<Rightarrow> store_state \<Rightarrow> store_state \<Rightarrow> bool" where
  "bench_inv is' s t \<longleftrightarrow> store_ok t \<and> wf_faults (st_wal t) = []
     \<and> unat (st_next_rev t) = unat (st_next_rev s) + length is'
     \<and> (\<forall>i. version_of (view_of t) (rwlock_key i) = version_of (view_of s) (rwlock_key i) + word_of_nat (count_list is' i)
          \<and> (i \<in> set is' \<longrightarrow> map_option a_value (view_of t (rwlock_key i)) = Some (make_value 128)))
     \<and> (\<forall>k. k \<notin> range rwlock_key \<longrightarrow> view_of t k = view_of s k)"

lemma bench_inv_put:
  assumes "client_documented C" and "bench_inv is' s t" and "unat (st_next_rev s) + length is' + 1 < 2 ^ 64"
  shows "\<exists>q t'. Kv_put E (ec_put C (rwlock_key i) (make_value 128)) t = (Ok q, t') \<and> bench_inv (is' @ [i]) s t'"
proof -
  have n: "st_next_rev t \<noteq> - 1" using assms(2,3) by (auto simp: bench_inv_def unat_max)
  obtain q t' where t': "Kv_put E (ec_put C (rwlock_key i) (make_value 128)) t = (Ok q, t')" "store_ok t'" "wf_faults (st_wal t') = []"
    "st_next_rev t' = st_next_rev t + 1" "view_of t' = spec_put (rwlock_key i) (make_value 128) 0 (st_next_rev t) (view_of t)"
    using client_put_run [OF assms(1) _ _ n, of "rwlock_key i" "make_value 128" E] rwlock_key_facts assms(2)
    by (auto simp: bench_inv_def make_value_def)
  have o: "view_of t' k = view_of t k" if "k \<noteq> rwlock_key i" for k using that by (simp add: t'(5) spec_put_def)
  have v: "map_option a_value (view_of t' (rwlock_key i)) = Some (make_value 128)"
    by (simp add: t'(5) spec_put_def split: option.splits)
  have "version_of (view_of t') (rwlock_key j) = version_of (view_of s) (rwlock_key j) + word_of_nat (count_list (is' @ [i]) j)
      \<and> (j \<in> set (is' @ [i]) \<longrightarrow> map_option a_value (view_of t' (rwlock_key j)) = Some (make_value 128))" for j
    using assms(2) v o [of "rwlock_key j"] unfolding bench_inv_def t'(5) version_of_put
    by (cases "j = i") (auto simp: rwlock_key_inject)
  moreover have "view_of t' k = view_of s k" if "k \<notin> range rwlock_key" for k
    using that o [of k] assms(2) by (auto simp: bench_inv_def)
  moreover have "unat (st_next_rev t') = unat (st_next_rev s) + length (is' @ [i])"
    using assms(2) unat_succ [OF n] by (simp add: t'(4) bench_inv_def)
  ultimately show ?thesis using t'(1-3) by (auto simp: bench_inv_def)
qed

lemma warmup_run:
  assumes "client_documented C" and "bench_inv js s t" and "unat (st_next_rev s) + length js + length is' < 2 ^ 64"
  shows "\<exists>t'. warmup_puts E C (make_value 128) is' t = Some t' \<and> bench_inv (js @ is') s t'"
  using assms(2,3)
proof (induction is' arbitrary: js t)
  case (Cons i is')
  have "unat (st_next_rev s) + length js + 1 < 2 ^ 64" using Cons.prems(2) by simp
  then obtain q t' where t': "Kv_put E (ec_put C (rwlock_key i) (make_value 128)) t = (Ok q, t')" "bench_inv (js @ [i]) s t'"
    using bench_inv_put [OF assms(1) Cons.prems(1)] by blast
  show ?case using Cons.IH [OF t'(2)] Cons.prems(2) t'(1) by simp
qed simp

text \<open>A round: what each worker has still to do, and the writes served so far.\<close>

definition round_inv :: "nat \<Rightarrow> (nat \<Rightarrow> u64 list) \<Rightarrow> nat list \<Rightarrow> store_state \<Rightarrow> (nat \<Rightarrow> bench_worker) \<times> store_state \<Rightarrow> bool" where
  "round_inv workers keys xs s st \<longleftrightarrow>
     (\<exists>is'. bench_inv is' s (snd st) \<and> length is' = length xs
        \<and> (\<forall>i. count_list is' i = (\<Sum>w<workers. count_list (take (count_list xs w) (keys w)) i)))
     \<and> (\<forall>w. fst st w = \<lparr>bw_keys = drop (count_list xs w) (keys w), bw_latencies = Some (count_list xs w)\<rparr>)"

lemma sum_upd:
  "w < (n :: nat) \<Longrightarrow> (\<Sum>v<n. f v + (if v = w then d else 0)) = (\<Sum>v<n. f v) + (d :: nat)"
  by (simp add: sum.distrib)

lemma round_inv_turn:
  assumes "client_documented C" and "round_inv workers keys xs s st" and "w < workers"
    and "count_list xs w < length (keys w)" and "unat (st_next_rev s) + length xs + 1 < 2 ^ 64"
  shows "round_inv workers keys (xs @ [w]) s (bench_turn E C (make_value 128) w st)"
proof -
  let ?c = "count_list xs w"
  obtain ws t where st: "st = (ws, t)" by (cases st)
  obtain is' where inv: "bench_inv is' s t" "length is' = length xs"
    "\<And>i. count_list is' i = (\<Sum>w<workers. count_list (take (count_list xs w) (keys w)) i)"
    and ws: "\<And>w. ws w = \<lparr>bw_keys = drop (count_list xs w) (keys w), bw_latencies = Some (count_list xs w)\<rparr>"
    using assms(2) by (auto simp: round_inv_def st)
  have d: "drop ?c (keys w) = keys w ! ?c # drop (Suc ?c) (keys w)" using assms(4) by (simp add: Cons_nth_drop_Suc)
  obtain q t' where t': "Kv_put E (ec_put C (rwlock_key (keys w ! ?c)) (make_value 128)) t = (Ok q, t')"
    "bench_inv (is' @ [keys w ! ?c]) s t'"
    using bench_inv_put [OF assms(1) inv(1)] assms(5) inv(2) by metis
  have turn: "bench_turn E C (make_value 128) w st =
      (ws(w := \<lparr>bw_keys = drop (Suc ?c) (keys w), bw_latencies = Some (Suc ?c)\<rparr>), t')"
    using t'(1) by (simp add: bench_turn_def st ws d)
  have "count_list (is' @ [keys w ! ?c]) i = (\<Sum>v<workers. count_list (take (count_list (xs @ [w]) v) (keys v)) i)" for i
  proof -
    have "count_list (take (count_list (xs @ [w]) v) (keys v)) i =
        count_list (take (count_list xs v) (keys v)) i + (if v = w then of_bool (keys w ! ?c = i) else 0)" for v
      using assms(4) by (simp add: take_Suc_conv_app_nth)
    then show ?thesis using sum_upd [OF assms(3)] by (simp add: inv(3))
  qed
  moreover have "(fst (bench_turn E C (make_value 128) w st)) v =
      \<lparr>bw_keys = drop (count_list (xs @ [w]) v) (keys v), bw_latencies = Some (count_list (xs @ [w]) v)\<rparr>" for v
    by (simp add: turn ws)
  ultimately show ?thesis unfolding round_inv_def using t'(2) inv(2) by (auto simp: turn)
qed

lemma round_inv_run:
  assumes "client_documented C" and "store_ok s" and "wf_faults (st_wal s) = []"
    and "set xs \<subseteq> {..<workers}" and "\<And>w. count_list xs w \<le> length (keys w)"
    and "unat (st_next_rev s) + length xs < 2 ^ 64"
  shows "round_inv workers keys xs s
    (fold (bench_turn E C (make_value 128)) xs ((\<lambda>w. \<lparr>bw_keys = keys w, bw_latencies = Some 0\<rparr>), s))"
  using assms(4-)
proof (induction xs rule: rev_induct)
  case Nil
  then show ?case using assms(2,3) by (auto simp: round_inv_def bench_inv_def intro!: exI [of _ "[]"])
next
  case (snoc w xs)
  have le: "count_list xs v \<le> length (keys v)" for v using snoc.prems(2) [of v] by (simp split: if_splits)
  have "w < workers" "count_list xs w < length (keys w)" using snoc.prems(1) snoc.prems(2) [of w] by simp_all
  then show ?case using round_inv_turn [OF assms(1) snoc.IH] snoc.prems le by simp
qed

lemma count_distinct: "distinct xs \<Longrightarrow> count_list xs x = of_bool (x \<in> set xs)"
  by (induction xs) auto

lemma warmup_indices:
  "count_list (map word_of_nat [0..<n] :: u64 list) i = of_bool (unat i < n)" if "n < 2 ^ 64"
proof -
  have "distinct (map word_of_nat [0..<n] :: u64 list)"
    using that by (auto simp: distinct_map inj_on_def word_of_nat_eq_iff take_bit_nat_eq_self)
  moreover have "i \<in> set (map word_of_nat [0..<n]) \<longleftrightarrow> unat i < n"
  proof
    assume "i \<in> set (map word_of_nat [0..<n])"
    then show "unat i < n" by (auto intro: le_less_trans [OF unat_of_nat_le])
  next
    assume "unat i < n"
    moreover have "i = word_of_nat (unat i)" by simp
    ultimately show "i \<in> set (map word_of_nat [0..<n])" by (metis atLeastLessThan_iff image_eqI list.set_map set_upt zero_le)
  qed
  ultimately show ?thesis by (simp add: count_distinct)
qed

text \<open>C39. The contention benchmark on a store without its keys: the warm-up succeeds, and in a round whose workers all
  finish, for every order in which their requests are served and whatever keys were drawn, no request fails and every latency is
  collected.  Afterwards the version of every key is the number of writes to it, so that no write is lost; other
  keys are untouched.\<close>

theorem contention_benchmark:
  assumes "client_documented C" and "store_ok s" and "wf_faults (st_wal s) = []"
    and "\<forall>i. view_of s (rwlock_key i) = None"
    and "set schedule \<subseteq> {..<workers}" and "\<forall>w < workers. count_list schedule w = length (keys w)"
    and "unat (st_next_rev s) + PREPOP + length schedule < 2 ^ 64"
  shows "\<exists>s1 s2. warmup E C s = Some s1
    \<and> bench_round E C workers keys schedule s1 = (\<Sum>w<workers. length (keys w), s2)
    \<and> (\<forall>i. version_of (view_of s2) (rwlock_key i) =
         word_of_nat (of_bool (unat i < PREPOP) + (\<Sum>w<workers. count_list (keys w) i)))
    \<and> (\<forall>k. k \<notin> range rwlock_key \<longrightarrow> view_of s2 k = view_of s k)"
proof -
  define pool where "pool = (map word_of_nat [0..<PREPOP] :: u64 list)"
  have "bench_inv [] s s" using assms(2,3) by (simp add: bench_inv_def)
  moreover have "unat (st_next_rev s) + length [] + length pool < 2 ^ 64" using assms(7) by (simp add: pool_def)
  ultimately obtain s1 where s1: "warmup E C s = Some s1" "bench_inv pool s s1"
    using warmup_run [OF assms(1), of "[]" s s pool E] by (auto simp: warmup_def pool_def)
  then have ok: "store_ok s1" "wf_faults (st_wal s1) = []" "unat (st_next_rev s1) + length schedule < 2 ^ 64"
    using assms(7) by (simp_all add: bench_inv_def pool_def)
  have le: "count_list schedule w \<le> length (keys w)" for w
  proof (cases "w < workers")
    case False
    then have "w \<notin> set schedule" using assms(5) by auto
    then show ?thesis by (simp add: count_notin)
  qed (use assms(6) in simp)
  define st where "st = fold (bench_turn E C (make_value 128)) schedule
    ((\<lambda>w. \<lparr>bw_keys = keys w, bw_latencies = Some 0\<rparr>), s1)"
  have "round_inv workers keys schedule s1 st"
    unfolding st_def by (rule round_inv_run [OF assms(1) ok(1,2) assms(5) le ok(3)])
  then obtain is' where r: "bench_inv is' s1 (snd st)"
    "\<And>i. count_list is' i = (\<Sum>w<workers. count_list (take (count_list schedule w) (keys w)) i)"
    "\<And>w. fst st w = \<lparr>bw_keys = drop (count_list schedule w) (keys w), bw_latencies = Some (count_list schedule w)\<rparr>"
    by (auto simp: round_inv_def)
  have "bench_round E C workers keys schedule s1 = (\<Sum>w<workers. length (keys w), snd st)"
    using r(3) assms(6)
    by (simp add: bench_round_def st_def [symmetric] case_prod_unfold sum_list_distinct_conv_sum_set atLeast0LessThan)
  moreover have "count_list is' i = (\<Sum>w<workers. count_list (keys w) i)" for i
    unfolding r(2) using assms(6) by (intro sum.cong) simp_all
  moreover have "count_list pool i = of_bool (unat i < PREPOP)" for i
    unfolding pool_def by (rule warmup_indices) (simp add: PREPOP_def)
  moreover have "version_of (view_of s) (rwlock_key i) = 0" for i using assms(4) by (simp add: version_of_def)
  ultimately have "version_of (view_of (snd st)) (rwlock_key i) =
      word_of_nat (of_bool (unat i < PREPOP) + (\<Sum>w<workers. count_list (keys w) i))" for i
    using r(1) s1(2) by (simp add: bench_inv_def)
  moreover have "view_of (snd st) k = view_of s k" if "k \<notin> range rwlock_key" for k
    using that r(1) s1(2) by (simp add: bench_inv_def)
  ultimately show ?thesis using s1(1) \<open>bench_round E C workers keys schedule s1 = _\<close> by blast
qed

lemma contention_benchmark_witness:
  "\<exists>s1 s2. warmup ref_libs ref_client (StoreState_new demo_wal) = Some s1
     \<and> bench_round ref_libs ref_client 2 (\<lambda>w. if w = 0 then [7, 8] else [7]) [0, 1, 0] s1 = (3, s2)
     \<and> version_of (view_of s2) (rwlock_key 7) = 3"
proof -
  have a: "\<forall>i. view_of (StoreState_new demo_wal) (rwlock_key i) = None" by (simp add: view_of_new)
  have b: "set [0, 1, 0] \<subseteq> {..<2 :: nat}"
    "\<forall>w < 2. count_list [0, 1, 0 :: nat] w = length (if w = 0 then [7, 8 :: u64] else [7])"
    "unat (st_next_rev (StoreState_new demo_wal)) + PREPOP + length [0, 1, 0 :: nat] < 2 ^ 64"
    by (auto simp: new_store_facts PREPOP_def less_2_cases_iff)
  obtain s1 s2 where s: "warmup ref_libs ref_client (StoreState_new demo_wal) = Some s1"
    "bench_round ref_libs ref_client 2 (\<lambda>w. if w = 0 then [7, 8] else [7]) [0, 1, 0] s1 =
       (\<Sum>w<2. length (if w = (0 :: nat) then [7, 8 :: u64] else [7]), s2)"
    "version_of (view_of s2) (rwlock_key 7) =
       word_of_nat (of_bool (unat (7 :: u64) < PREPOP) + (\<Sum>w<2. count_list (if w = (0 :: nat) then [7, 8 :: u64] else [7]) 7))"
    using contention_benchmark [OF ref_client_documented store_ok_new new_store_facts(1) a b, of ref_libs] by blast
  have "(\<Sum>w<2. length (if w = (0 :: nat) then [7, 8 :: u64] else [7])) = 3"
    "(\<Sum>w<2. count_list (if w = (0 :: nat) then [7, 8 :: u64] else [7]) 7) = 2" by (simp_all add: numeral_2_eq_2)
  with s show ?thesis by (auto simp: PREPOP_def)
qed

section \<open>The throughput test\<close>

text \<open>The workers of the benchmark write distinct keys, but not always two thousand of them, the number from
  which the tool computes the rate it prints.\<close>

lemma bench_key_inject: "bench_key i = bench_key j \<longleftrightarrow> i = j"
  by (simp add: bench_key_def ascii_inject zero_pad_inject word_unat_eq_iff)

lemma bench_indices:
  "concat (map (\<lambda>w. map (\<lambda>i. w * p + b + i) [0..<p]) [0..<n]) = [b..<b + n * (p :: nat)]"
proof (induction n)
  case (Suc n)
  have "map (\<lambda>i. n * p + b + i) [0..<p] = [b + n * p..<b + n * p + p]"
    using map_add_upt [of "b + n * p" p] by (simp add: add.commute)
  then show ?case using Suc upt_add_eq_append [of b "b + n * p" p] by (simp add: add.assoc add.commute add.left_commute)
qed simp

lemma bench_all_keys:
  "concat (map (bench_worker_keys workers) [0..<workers]) =
     map (\<lambda>n. bench_key (word_of_nat n)) [30000000..<30000000 + workers * per_task workers]"
  unfolding bench_indices [of "per_task workers" 30000000 workers, symmetric] map_concat map_map comp_def
    bench_worker_keys_def [abs_def] ..

theorem bench_ops:
  "distinct (concat (map (bench_worker_keys workers) [0..<workers]))
   \<and> length (concat (map (bench_worker_keys workers) [0..<workers])) = workers * (2000 div workers)"
proof -
  let ?idx = "[30000000..<30000000 + workers * per_task workers]"
  have "workers * per_task workers \<le> 2000" by (simp add: per_task_def)
  then have "i < 2 ^ 64" if "i \<in> set ?idx" for i using that by auto
  then have "inj_on (\<lambda>n. bench_key (word_of_nat n)) (set ?idx)"
    by (auto simp: inj_on_def bench_key_inject word_of_nat_eq_iff take_bit_nat_eq_self simp del: set_upt)
  then show ?thesis unfolding bench_all_keys by (simp add: distinct_map per_task_def)
qed

lemma bench_ops_128: "length (concat (map (bench_worker_keys 128) [0..<128])) = 1920"
  using bench_ops [of 128] by simp

end
