(* ===== verification/Benchmark.thy ===== *)
theory Benchmark
  imports Load_Tools "HOL-Library.Monad_Syntax"
begin

text \<open>
  The performance benchmark (\<^verbatim>\<open>src/bin/bench.rs\<close>) as the requests it sends: single puts and reads, a loop of
  compare-and-swap transactions, puts of growing values, scans of a prefix, and rounds of concurrent workers.  It
  panics at the first request that fails.  As in the other load tools the requests of the client library are a
  parameter, and timing and printing are left out.
\<close>

section \<open>The client library\<close>

text \<open>\<open>get(key, None)\<close>, \<open>get(key, GetOptions::new().with_prefix().with_limit(n))\<close>, and the transaction with
  \<open>Compare::mod_revision(key, Equal, rev)\<close> and one put.\<close>

record bench_client = etcd_client +
  ec_get :: "bytes \<Rightarrow> range_request"
  ec_get_prefix :: "bytes \<Rightarrow> i64 \<Rightarrow> range_request"
  ec_swap :: "bytes \<Rightarrow> i64 \<Rightarrow> bytes \<Rightarrow> txn_request"

definition plain_get :: "bytes \<Rightarrow> bytes \<Rightarrow> i64 \<Rightarrow> range_request" where
  "plain_get key range_end limit = \<lparr>rr_key = key, rr_range_end = range_end, rr_limit = limit, rr_revision = 0,
     rr_sort_order = 0, rr_sort_target = 0, rr_keys_only = False, rr_count_only = False, rr_min_mod_revision = 0,
     rr_max_mod_revision = 0, rr_min_create_revision = 0, rr_max_create_revision = 0\<rparr>"

definition swap_txn :: "bytes \<Rightarrow> i64 \<Rightarrow> bytes \<Rightarrow> txn_request" where
  "swap_txn key revision val =
     \<lparr>tx_compare = [\<lparr>cmp_result = 0, cmp_target = 2, cmp_key = key, cmp_target_union = Some (TModRevision revision),
        cmp_range_end = []\<rparr>],
      tx_success = [Some (RequestPut (plain_put key val))], tx_failure = []\<rparr>"

definition bench_documented :: "bench_client \<Rightarrow> bool" where
  "bench_documented C \<longleftrightarrow> client_documented (etcd_client.truncate C)
     \<and> (\<forall>k. ec_get C k = plain_get k [] 0)
     \<and> (\<forall>p n. ec_get_prefix C p n = plain_get p (case prefix_end p of Some e \<Rightarrow> e | None \<Rightarrow> [0]) n)
     \<and> (\<forall>k r v. ec_swap C k r v = swap_txn k r v)"

section \<open>The requests\<close>

text \<open>No other client is at work in the sequential part, so that every lock acquisition sees the same state.\<close>

definition alone :: "store_state \<Rightarrow> read_env" where
  "alone s = (s, s, (\<lambda>_. s), Inr (Some (wf_content (st_wal s))))"

definition client_get :: "libs \<Rightarrow> range_request \<Rightarrow> store_state \<Rightarrow> range_response option" where
  "client_get E req s =
     (case alone s of (s_rev, s_compact, \<sigma>, file) \<Rightarrow>
        case Kv_range E s_rev s_compact \<sigma> file req of Ok resp \<Rightarrow> Some resp | _ \<Rightarrow> None)"

definition client_put :: "libs \<Rightarrow> 'a etcd_client_scheme \<Rightarrow> bytes \<times> bytes \<Rightarrow> store_state \<Rightarrow> store_state option" where
  "client_put E C kv s = (case Kv_put E (ec_put C (fst kv) (snd kv)) s of (Ok _, s) \<Rightarrow> Some s | _ \<Rightarrow> None)"

text \<open>A loop of requests, left at the first failure.\<close>

fun loop :: "('a \<Rightarrow> store_state \<Rightarrow> store_state option) \<Rightarrow> 'a list \<Rightarrow> store_state \<Rightarrow> store_state option" where
  "loop f [] s = Some s"
| "loop f (x # xs) s = do { s \<leftarrow> f x s; loop f xs s }"

text \<open>One turn of the transaction loop: the revision read from the first key-value of the answer, or zero.\<close>

definition bench_txn :: "libs \<Rightarrow> bench_client \<Rightarrow> bytes \<Rightarrow> store_state \<Rightarrow> store_state option" where
  "bench_txn E C key s = do {
     get \<leftarrow> client_get E (ec_get C key) s;
     revision \<leftarrow> (case rs_kvs get of
        [] \<Rightarrow> Some 0
      | kv # _ \<Rightarrow> map_option kv_mod_revision (x_kv_decode E kv));
     (case Kv_txn E (\<lambda>_. alone s) (ec_swap C key revision (ascii ''txn'')) s of (Ok _, s) \<Rightarrow> Some s | _ \<Rightarrow> None)
   }"

definition bench_keys :: "nat \<Rightarrow> nat \<Rightarrow> bytes list" where
  "bench_keys base n = map (\<lambda>i. bench_key (word_of_nat (i + base))) [0..<n]"

definition KEY_PREFIX :: bytes where "KEY_PREFIX = ascii ''rudurru_bench/''"

definition bench_sequential :: "libs \<Rightarrow> bench_client \<Rightarrow> store_state \<Rightarrow> store_state option" where
  "bench_sequential E C s = do {
     s \<leftarrow> loop (\<lambda>k. client_put E C (k, ascii ''warmup'')) (bench_keys 0 100) s;
     s \<leftarrow> loop (\<lambda>k. client_put E C (k, make_value 128)) (bench_keys 10000000 1000) s;
     s \<leftarrow> loop (\<lambda>k s. map_option (\<lambda>_. s) (client_get E (ec_get C k) s)) (bench_keys 0 1000) s;
     s \<leftarrow> loop (bench_txn E C) (bench_keys 0 100) s;
     s \<leftarrow> loop (\<lambda>n. loop (\<lambda>k. client_put E C (k, make_value n)) (bench_keys 20000000 500)) [64, 256, 1024, 4096, 16384] s;
     loop (\<lambda>n s. map_option (\<lambda>_. s) (client_get E (ec_get_prefix C KEY_PREFIX n) s)) [10, 100, 1000] s
   }"

text \<open>The concurrent rounds: the schedule says which worker's request is served next; a worker whose request fails
  panics, and so does the benchmark when it waits for it.\<close>

definition throughput_turn ::
    "libs \<Rightarrow> 'a etcd_client_scheme \<Rightarrow> nat \<Rightarrow> (nat \<Rightarrow> bytes list option) \<times> store_state
       \<Rightarrow> (nat \<Rightarrow> bytes list option) \<times> store_state" where
  "throughput_turn E C w st =
     (case st of (ws, s) \<Rightarrow>
        case ws w of
          Some (k # ks) \<Rightarrow>
            (case Kv_put E (ec_put C k (make_value 128)) s of
               (Ok _, s) \<Rightarrow> (ws(w := Some ks), s)
             | (_, s) \<Rightarrow> (ws(w := None), s))
        | _ \<Rightarrow> (ws, s))"

definition throughput_round ::
    "libs \<Rightarrow> 'a etcd_client_scheme \<Rightarrow> nat \<times> nat list \<Rightarrow> store_state \<Rightarrow> store_state option" where
  "throughput_round E C round s =
     (case round of (workers, schedule) \<Rightarrow>
        let (ws, s) = fold (throughput_turn E C) schedule ((\<lambda>w. Some (bench_worker_keys workers w)), s)
        in if list_all (\<lambda>w. ws w \<noteq> None) [0..<workers] then Some s else None)"

definition WORKERS :: "nat list" where "WORKERS = [1, 4, 8, 16, 32, 64, 128]"

definition bench_main :: "libs \<Rightarrow> bench_client \<Rightarrow> nat list list \<Rightarrow> store_state \<Rightarrow> store_state option" where
  "bench_main E C schedules s = do {
     s \<leftarrow> bench_sequential E C s;
     loop (throughput_round E C) (zip WORKERS schedules) s
   }"

section \<open>What a request writes\<close>

text \<open>The store after some writes of a client: every key has the value last written to it.\<close>

definition ready :: "nat \<Rightarrow> store_state \<Rightarrow> bool" where
  "ready n s \<longleftrightarrow> store_ok s \<and> wf_faults (st_wal s) = [] \<and> unat (st_next_rev s) + n < 2 ^ 64"

definition wrote :: "(bytes \<times> bytes) list \<Rightarrow> store_state \<Rightarrow> store_state \<Rightarrow> bool" where
  "wrote kvs s t \<longleftrightarrow> store_ok t \<and> wf_faults (st_wal t) = []
     \<and> unat (st_next_rev t) = unat (st_next_rev s) + length kvs
     \<and> (\<forall>k. case map_of (rev kvs) k of
            Some v \<Rightarrow> map_option a_value (view_of t k) = Some v
          | None \<Rightarrow> view_of t k = view_of s k)"

text \<open>A program that succeeds and writes these pairs, from every store with enough revisions left.\<close>

definition runs :: "(store_state \<Rightarrow> store_state option) \<Rightarrow> (bytes \<times> bytes) list \<Rightarrow> bool" where
  "runs f kvs \<longleftrightarrow> (\<forall>s. ready (length kvs) s \<longrightarrow> (\<exists>t. f s = Some t \<and> wrote kvs s t))"

lemma wrote_at:
  "wrote kvs s t \<Longrightarrow> case map_of (rev kvs) k of
     Some v \<Rightarrow> map_option a_value (view_of t k) = Some v | None \<Rightarrow> view_of t k = view_of s k"
  by (simp add: wrote_def)

lemma wrote_append:
  assumes "wrote a s t" and "wrote b t u"
  shows "wrote (a @ b) s u"
proof -
  have "case map_of (rev (a @ b)) k of Some v \<Rightarrow> map_option a_value (view_of u k) = Some v | None \<Rightarrow> view_of u k = view_of s k" for k
  proof (cases "map_of (rev b) k")
    case None
    then have "view_of u k = view_of t k" "map_of (rev (a @ b)) k = map_of (rev a) k"
      using wrote_at [OF assms(2), of k] by (simp_all add: map_add_def)
    then show ?thesis using wrote_at [OF assms(1), of k] by (cases "map_of (rev a) k") (simp_all add: map_add_def None)
  next
    case (Some v)
    then have "map_option a_value (view_of u k) = Some v" "map_of (rev (a @ b)) k = Some v"
      using wrote_at [OF assms(2), of k] by (simp_all add: map_add_def)
    then show ?thesis by simp
  qed
  then show ?thesis using assms by (simp add: wrote_def)
qed

lemma runs_skip: "runs Some []"
  by (simp add: runs_def ready_def wrote_def)

lemma runs_bind:
  assumes "runs f a" and "runs g b"
  shows "runs (\<lambda>s. do { s \<leftarrow> f s; g s }) (a @ b)"
  unfolding runs_def
proof (intro allI impI)
  fix s assume s: "ready (length (a @ b)) s"
  then have "ready (length a) s" by (simp add: ready_def)
  then obtain t where t: "f s = Some t" "wrote a s t" using assms(1) by (auto simp: runs_def)
  then have "ready (length b) t" using s by (simp add: ready_def wrote_def)
  then obtain u where "g t = Some u" "wrote b t u" using assms(2) by (auto simp: runs_def)
  with t show "\<exists>u. (do { s \<leftarrow> f s; g s }) = Some u \<and> wrote (a @ b) s u" using wrote_append by auto
qed

lemma runs_loop:
  assumes "\<And>x. x \<in> set xs \<Longrightarrow> runs (f x) (g x)"
  shows "runs (loop f xs) (concat (map g xs))"
  using assms
proof (induction xs)
  case Nil
  have "loop f [] = Some" by (rule ext) simp
  then show ?case using runs_skip by simp
next
  case (Cons x xs)
  have "loop f (x # xs) = (\<lambda>s. do { s \<leftarrow> f x s; loop f xs s })" by (rule ext) simp
  then show ?case using runs_bind [of "f x" "g x" "loop f xs"] Cons by simp
qed

lemma runs_put:
  assumes "bench_documented C" and "k \<noteq> []" and "length k < 2 ^ 32" and "length v < 2 ^ 32"
  shows "runs (client_put E C (k, v)) [(k, v)]"
  unfolding runs_def
proof (intro allI impI)
  fix s assume s: "ready (length [(k, v)]) s"
  then have n: "st_next_rev s \<noteq> - 1" by (auto simp: ready_def unat_max)
  have d: "client_documented (etcd_client.truncate C)" "ec_put (etcd_client.truncate C) = ec_put C"
    using assms(1) by (simp_all add: bench_documented_def etcd_client.defs)
  obtain q t where t: "Kv_put E (ec_put C k v) s = (Ok q, t)" "store_ok t" "wf_faults (st_wal t) = []"
    "st_next_rev t = st_next_rev s + 1" "view_of t = spec_put k v 0 (st_next_rev s) (view_of s)"
    using client_put_run [OF d(1) _ _ n assms(2-4), of E] s by (auto simp: ready_def d(2))
  have "wrote [(k, v)] s t"
    using t(2-4) unat_succ [OF n] by (simp add: wrote_def t(5) spec_put_def split: option.splits)
  then show "\<exists>t. client_put E C (k, v) s = Some t \<and> wrote [(k, v)] s t" using t(1) by (simp add: client_put_def)
qed

section \<open>Reads\<close>

text \<open>A read of one key gives its entry as the protobuf decoder of the client sees it.\<close>

lemma get_key:
  assumes "store_ok s" and "k \<noteq> []" and "prost_law E"
  shows "\<exists>resp. client_get E (plain_get k [] 0) s = Some resp
    \<and> (case view_of s k of
         None \<Rightarrow> rs_kvs resp = []
       | Some w \<Rightarrow> \<exists>b kv. rs_kvs resp = [b] \<and> x_kv_decode E b = Some kv \<and> kv_mod_revision kv = a_mod w)"
proof -
  let ?q = "plain_get k [] 0"
  have q: "rr_key ?q = k" "rr_range_end ?q = []" "sint (rr_revision ?q) = 0" "\<not> rr_count_only ?q"
    "row_blob ?q k b = b" "\<not> row_filtered ?q ks" for b ks
    by (simp_all add: plain_get_def row_blob_def row_filtered_def)
  have "range_current s ?q = range_point s ?q k" by (simp add: range_current_def resolve_range_def q)
  then have g: "client_get E ?q s = (case range_point s ?q k of Ok resp \<Rightarrow> Some resp | _ \<Rightarrow> None)"
    using assms(2) by (simp add: client_get_def alone_def Kv_range_def range_store_def check_key_def q split: res.splits)
  show ?thesis
  proof (cases "bt_get (st_keys s) k")
    case None
    then show ?thesis by (simp add: g range_point_def q Let_def view_of_def get_alive_def)
  next
    case (Some ks)
    then have e: "entry_ok (st_next_rev s) k ks" using assms(1) by (simp add: store_ok_def keys_ok_def)
    then obtain cr ver where "ks_kv_bytes ks = kv_blob k (ks_value ks) cr (ks_mod_revision ks) ver (ks_lease ks)"
      by (auto simp: entry_ok_def)
    then have "\<exists>kv. x_kv_decode E (ks_kv_bytes ks) = Some kv \<and> kv_mod_revision kv = ks_mod_revision ks"
      using assms(3) e by (simp add: prost_law_def entry_ok_def)
    then show ?thesis
      using Some by (auto simp: g range_point_def q Let_def view_of_def get_alive_def point_row_ok_eq abs_entry_def)
  qed
qed

lemma runs_get:
  assumes "bench_documented C" and "k \<noteq> []" and "prost_law E"
  shows "runs (\<lambda>s. map_option (\<lambda>_. s) (client_get E (ec_get C k) s)) []"
  unfolding runs_def
proof (intro allI impI)
  fix s assume s: "ready (length ([] :: (bytes \<times> bytes) list)) s"
  have "ec_get C k = plain_get k [] 0" using assms(1) by (simp add: bench_documented_def)
  then show "\<exists>t. map_option (\<lambda>_. s) (client_get E (ec_get C k) s) = Some t \<and> wrote [] s t"
    using get_key [OF _ assms(2,3), of s] s by (auto simp: ready_def wrote_def)
qed

text \<open>A scan of a prefix with a limit that the server can allocate for.\<close>

lemma runs_get_prefix:
  assumes "bench_documented C" and "0 < sint n" and "sint n < 2 ^ 58"
  shows "runs (\<lambda>s. map_option (\<lambda>_. s) (client_get E (ec_get_prefix C KEY_PREFIX n) s)) []"
  unfolding runs_def
proof (intro allI impI)
  fix s assume s: "ready (length ([] :: (bytes \<times> bytes) list)) s"
  have p: "prefix_end KEY_PREFIX = Some (ascii ''rudurru_bench0'')"
    "resolve_range KEY_PREFIX (ascii ''rudurru_bench0'') = Prefix KEY_PREFIX" by code_simp+
  let ?q = "plain_get KEY_PREFIX (ascii ''rudurru_bench0'') n"
  have q: "rr_key ?q = KEY_PREFIX" "rr_range_end ?q = ascii ''rudurru_bench0''" "sint (rr_revision ?q) = 0"
    "rr_limit ?q = n" "\<not> rr_count_only ?q" by (simp_all add: plain_get_def)
  have "KEY_PREFIX \<noteq> []" by (simp add: KEY_PREFIX_def ascii_def)
  moreover have "\<not> capacity_overflow (unat n)"
    using assms(2,3) by (simp add: capacity_overflow_def BYTES_SIZE_def unat_sint_nonneg)
  then have "\<exists>resp. range_current s ?q = Ok resp"
    using assms(2) by (simp add: range_current_def range_scan_def bt_range_def q p Let_def)
  ultimately have "\<exists>resp. client_get E ?q s = Some resp"
    by (auto simp: client_get_def alone_def Kv_range_def range_store_def check_key_def q)
  moreover have "ec_get_prefix C KEY_PREFIX n = ?q" using assms(1) by (simp add: bench_documented_def p)
  ultimately show "\<exists>t. map_option (\<lambda>_. s) (client_get E (ec_get_prefix C KEY_PREFIX n) s) = Some t \<and> wrote [] s t"
    using s by (auto simp: ready_def wrote_def)
qed

section \<open>The compare-and-swap loop\<close>

text \<open>With no other writer the revision just read is still that of the key, so that the swap always takes place.\<close>

lemma runs_txn:
  assumes "bench_documented C" and "prost_law E" and "k \<noteq> []" and "length k < 2 ^ 32"
  shows "runs (bench_txn E C k) [(k, ascii ''txn'')]"
  unfolding runs_def
proof (intro allI impI)
  fix s assume s: "ready (length [(k, ascii ''txn'')]) s"
  then have n: "st_next_rev s \<noteq> - 1" by (auto simp: ready_def unat_max)
  let ?m = "case view_of s k of Some w \<Rightarrow> a_mod w | None \<Rightarrow> 0"
  let ?q = "swap_txn k ?m (ascii ''txn'')"
  have "list_all (key_compare (view_of s)) (tx_compare ?q)"
    by (simp add: swap_txn_def key_compare_def spec_compare_def compare_entry_def target_from_i32_def result_from_i32_def)
  then obtain resp t where t: "txn E (\<lambda>_. alone s) ?q s = (Ok resp, t)" "store_ok t" "wf_faults (st_wal t) = []"
    "st_next_rev t = st_next_rev s + 1" "view_of t = spec_put k (ascii ''txn'') 0 (st_next_rev s) (view_of s)"
    using guarded_put_run [OF _ _ n assms(3,4), of "ascii ''txn''" ?q True E "\<lambda>_. alone s"] s
    by (auto simp: ready_def swap_txn_def)
  have c: "ec_get C k = plain_get k [] 0" "ec_swap C k r v = swap_txn k r v" for r v
    using assms(1) by (simp_all add: bench_documented_def)
  have "store_ok s" using s by (simp add: ready_def)
  from get_key [OF this assms(3,2)] have "bench_txn E C k s = Some t"
    using t(1) by (cases "view_of s k") (auto simp: bench_txn_def c Kv_txn_def)
  moreover have "wrote [(k, ascii ''txn'')] s t"
    using t(2-4) unat_succ [OF n] by (simp add: wrote_def t(5) spec_put_def split: option.splits)
  ultimately show "\<exists>t. bench_txn E C k s = Some t \<and> wrote [(k, ascii ''txn'')] s t" by blast
qed

section \<open>Concurrent rounds\<close>

text \<open>The order in which a schedule serves the keys of the workers.\<close>

fun served :: "(nat \<Rightarrow> bytes list) \<Rightarrow> nat list \<Rightarrow> bytes list" where
  "served ws [] = []"
| "served ws (w # xs) = (case ws w of [] \<Rightarrow> served ws xs | k # ks \<Rightarrow> k # served (ws(w := ks)) xs)"

lemma length_served: "(\<And>w. count_list xs w \<le> length (ws w)) \<Longrightarrow> length (served ws xs) = length xs"
proof (induction xs arbitrary: ws)
  case (Cons w xs)
  obtain k ks where w: "ws w = k # ks" using Cons.prems [of w] by (cases "ws w") auto
  have "count_list xs v \<le> length ((ws(w := ks)) v)" for v using Cons.prems [of v] w by (auto split: if_splits)
  then show ?case using Cons.IH w by simp
qed simp

lemma set_served:
  "(\<And>w. count_list xs w \<le> length (ws w)) \<Longrightarrow> set (served ws xs) = (\<Union>w. set (take (count_list xs w) (ws w)))"
proof (induction xs arbitrary: ws)
  case (Cons w xs)
  obtain k ks where w: "ws w = k # ks" using Cons.prems [of w] by (cases "ws w") auto
  have "count_list xs v \<le> length ((ws(w := ks)) v)" for v using Cons.prems [of v] w by (auto split: if_splits)
  then have IH: "set (served (ws(w := ks)) xs) = (\<Union>v. set (take (count_list xs v) ((ws(w := ks)) v)))" by (rule Cons.IH)
  have "set (take (count_list (w # xs) v) (ws v)) =
      (if v = w then {k} else {}) \<union> set (take (count_list xs v) ((ws(w := ks)) v))" for v using w by simp
  then have "(\<Union>v. set (take (count_list (w # xs) v) (ws v))) =
      insert k (\<Union>v. set (take (count_list xs v) ((ws(w := ks)) v)))" by (auto split: if_splits)
  then show ?case by (simp add: w IH)
qed simp

lemma throughput_fold:
  assumes "bench_documented C" and "\<And>w. count_list xs w \<le> length (ws w)"
    and "\<And>w k. k \<in> set (ws w) \<Longrightarrow> k \<noteq> [] \<and> length k < 2 ^ 32" and "ready (length xs) s"
  shows "\<exists>ws' t. fold (throughput_turn E C) xs ((\<lambda>w. Some (ws w)), s) = ((\<lambda>w. Some (ws' w)), t)
    \<and> wrote (map (\<lambda>k. (k, make_value 128)) (served ws xs)) s t"
  using assms(2-4)
proof (induction xs arbitrary: ws s)
  case Nil
  then show ?case by (auto simp: wrote_def ready_def)
next
  case (Cons w xs)
  obtain k ks where w: "ws w = k # ks" using Cons.prems(1) [of w] by (cases "ws w") auto
  have k: "k \<noteq> []" "length k < 2 ^ 32" using Cons.prems(2) [of k w] w by simp_all
  have "length (make_value 128) < 2 ^ 32" by (simp add: make_value_def)
  from runs_put [OF assms(1) k this, of E] obtain t
    where t: "client_put E C (k, make_value 128) s = Some t" "wrote [(k, make_value 128)] s t"
    using Cons.prems(3) by (auto simp: runs_def ready_def)
  define ws1 where "ws1 = ws(w := ks)"
  have turn: "throughput_turn E C w ((\<lambda>w. Some (ws w)), s) = ((\<lambda>v. Some (ws1 v)), t)"
    using t(1) by (auto simp: throughput_turn_def client_put_def w ws1_def fun_eq_iff split: prod.splits res.splits)
  have "count_list xs v \<le> length (ws1 v)" for v using Cons.prems(1) [of v] w by (auto simp: ws1_def split: if_splits)
  moreover have "j \<noteq> [] \<and> length j < 2 ^ 32" if "j \<in> set (ws1 v)" for v j
    using that Cons.prems(2) [of j v] w by (auto simp: ws1_def split: if_splits)
  moreover have "ready (length xs) t" using t(2) Cons.prems(3) by (simp add: ready_def wrote_def)
  ultimately obtain ws' u where u: "fold (throughput_turn E C) xs ((\<lambda>w. Some (ws1 w)), t) = ((\<lambda>w. Some (ws' w)), u)"
    "wrote (map (\<lambda>k. (k, make_value 128)) (served ws1 xs)) t u"
    using Cons.IH [of ws1 t] by blast
  have "served ws (w # xs) = k # served ws1 xs" by (simp add: w ws1_def)
  then show ?case using turn u(1) wrote_append [OF t(2) u(2)] by (intro exI [of _ ws'] exI [of _ u]) simp
qed

text \<open>The index of a key of the benchmark.\<close>

abbreviation bk :: "nat \<Rightarrow> bytes" where "bk n \<equiv> bench_key (word_of_nat n)"

lemma bk_inject: "m < 2 ^ 64 \<Longrightarrow> n < 2 ^ 64 \<Longrightarrow> bk m = bk n \<longleftrightarrow> m = n"
  by (simp add: bench_key_inject word_of_nat_eq_iff take_bit_nat_eq_self)

lemma bk_facts: "bench_key i \<noteq> []" "length (bench_key i) < 2 ^ 32"
  using length_zero_pad [OF unat_less_digits, of i] by (simp_all add: bench_key_def) (simp add: ascii_def)

lemma set_bench_keys: "set (bench_keys base n) = bk ` {base..<base + n}"
proof -
  have "(\<lambda>i. i + base) ` {0..<n} = {base..<base + n}" by (simp add: add.commute)
  then have "bk ` {base..<base + n} = (\<lambda>i. bk (i + base)) ` {0..<n}" by (metis image_image)
  then show ?thesis by (simp add: bench_keys_def)
qed

definition round_ok :: "nat \<times> nat list \<Rightarrow> bool" where
  "round_ok round \<longleftrightarrow> (case round of (workers, schedule) \<Rightarrow>
     set schedule \<subseteq> {..<workers} \<and> (\<forall>w < workers. count_list schedule w = per_task workers))"

definition round_writes :: "nat \<times> nat list \<Rightarrow> (bytes \<times> bytes) list" where
  "round_writes round = (case round of (workers, schedule) \<Rightarrow>
     map (\<lambda>k. (k, make_value 128)) (served (bench_worker_keys workers) schedule))"

lemma round_counts:
  assumes "round_ok (workers, schedule)"
  shows "count_list schedule w \<le> length (bench_worker_keys workers w)"
proof (cases "w < workers")
  case False
  then have "w \<notin> set schedule" using assms by (auto simp: round_ok_def)
  then show ?thesis by (simp add: count_notin)
qed (use assms in \<open>simp add: round_ok_def bench_worker_keys_def\<close>)

lemma runs_round:
  assumes "bench_documented C" and "round_ok round"
  shows "runs (throughput_round E C round) (round_writes round)"
  unfolding runs_def
proof (intro allI impI)
  fix s assume s: "ready (length (round_writes round)) s"
  obtain workers schedule where r: "round = (workers, schedule)" by (cases round)
  note c = round_counts [OF assms(2) [unfolded r]]
  have "ready (length schedule) s" using s length_served [OF c] by (simp add: round_writes_def r)
  moreover have "k \<noteq> [] \<and> length k < 2 ^ 32" if "k \<in> set (bench_worker_keys workers w)" for w k
    using that bk_facts by (auto simp: bench_worker_keys_def)
  ultimately obtain ws t where "fold (throughput_turn E C) schedule ((\<lambda>w. Some (bench_worker_keys workers w)), s) = ((\<lambda>w. Some (ws w)), t)"
    "wrote (round_writes round) s t"
    using throughput_fold [OF assms(1) c, of s E] by (auto simp: round_writes_def r)
  then show "\<exists>t. throughput_round E C round s = Some t \<and> wrote (round_writes round) s t"
    by (auto simp: throughput_round_def r list_all_iff)
qed

lemma set_round_writes:
  assumes "round_ok (workers, schedule)"
  shows "set (round_writes (workers, schedule)) = (\<lambda>n. (bk n, make_value 128)) ` {30000000..<30000000 + workers * per_task workers}"
proof -
  have "take (count_list schedule w) (bench_worker_keys workers w) = (if w < workers then bench_worker_keys workers w else [])" for w
    using assms by (auto simp: round_ok_def bench_worker_keys_def count_list_0_iff)
  then have "set (served (bench_worker_keys workers) schedule) = (\<Union>w<workers. set (bench_worker_keys workers w))"
    using set_served [OF round_counts [OF assms]] by (auto split: if_splits)
  also have "\<dots> = set (concat (map (bench_worker_keys workers) [0..<workers]))" by (simp add: atLeast0LessThan)
  also have "\<dots> = set (map bk [30000000..<30000000 + workers * per_task workers])"
    unfolding bench_all_keys ..
  finally show ?thesis by (simp add: round_writes_def image_image)
qed

lemma length_round_writes: "round_ok (workers, schedule) \<Longrightarrow> length (round_writes (workers, schedule)) = length schedule"
  using length_served [OF round_counts] by (simp add: round_writes_def)

section \<open>The whole benchmark\<close>

definition puts :: "bytes \<Rightarrow> bytes list \<Rightarrow> (bytes \<times> bytes) list" where
  "puts v ks = map (\<lambda>k. (k, v)) ks"

lemma set_puts: "(k, v') \<in> set (puts v ks) \<longleftrightarrow> k \<in> set ks \<and> v' = v"
  by (auto simp: puts_def)

lemma length_puts: "length (puts v ks) = length ks"
  by (simp add: puts_def)

lemma runs_puts:
  assumes "bench_documented C" and "length v < 2 ^ 32" and "set ks \<subseteq> range bench_key"
  shows "runs (loop (\<lambda>k. client_put E C (k, v)) ks) (puts v ks)"
proof -
  have "runs (loop (\<lambda>k. client_put E C (k, v)) ks) (concat (map (\<lambda>k. [(k, v)]) ks))"
  proof (rule runs_loop)
    fix k assume "k \<in> set ks"
    then show "runs (client_put E C (k, v)) [(k, v)]" using runs_put [OF assms(1) _ _ assms(2)] bk_facts assms(3) by blast
  qed
  moreover have "concat (map (\<lambda>k. [(k, v)]) ks) = puts v ks" by (induction ks) (simp_all add: puts_def)
  ultimately show ?thesis by simp
qed

lemma runs_cong: "runs f kvs \<Longrightarrow> (\<And>s. f s = g s) \<Longrightarrow> runs g kvs"
  by (simp add: runs_def)

definition sequential_writes :: "(bytes \<times> bytes) list" where
  "sequential_writes = puts (ascii ''warmup'') (bench_keys 0 100) @ puts (make_value 128) (bench_keys 10000000 1000)
     @ puts (ascii ''txn'') (bench_keys 0 100)
     @ concat (map (\<lambda>n. puts (make_value n) (bench_keys 20000000 500)) [64, 256, 1024, 4096])
     @ puts (make_value 16384) (bench_keys 20000000 500)"

lemma runs_sequential:
  assumes "bench_documented C" and "prost_law E"
  shows "runs (bench_sequential E C) sequential_writes"
proof -
  have keys: "set (bench_keys b n) \<subseteq> range bench_key" for b n by (auto simp: set_bench_keys)
  have len: "length (ascii ''warmup'') < 2 ^ 32" "length (make_value n) < 2 ^ 32" if "n < 20000" for n
    using that by (simp_all add: make_value_def)
  have kf: "k \<noteq> []" "length k < 2 ^ 32" if "k \<in> set (bench_keys b n)" for k b n
    using that bk_facts by (auto simp: set_bench_keys)
  note p1 = runs_puts [OF assms(1) len(1) [of 0] keys] and p2 = runs_puts [OF assms(1) len(2) keys]
  have g: "runs (loop (\<lambda>k s. map_option (\<lambda>_. s) (client_get E (ec_get C k) s)) (bench_keys b n)) (concat (map (\<lambda>_. []) (bench_keys b n)))" for b n
    by (rule runs_loop, rule runs_get [OF assms(1) _ assms(2)]) (rule kf(1))
  have t: "runs (loop (bench_txn E C) (bench_keys b n)) (concat (map (\<lambda>k. [(k, ascii ''txn'')]) (bench_keys b n)))" for b n
    by (rule runs_loop, rule runs_txn [OF assms]) (rule kf, assumption)+
  have te: "concat (map (\<lambda>k. [(k, v)]) ks) = puts v ks" for v :: bytes and ks by (induction ks) (simp_all add: puts_def)
  have z: "runs (loop (\<lambda>n. loop (\<lambda>k. client_put E C (k, make_value n)) (bench_keys 20000000 500)) [64, 256, 1024, 4096, 16384])
      (concat (map (\<lambda>n. puts (make_value n) (bench_keys 20000000 500)) [64, 256, 1024, 4096, 16384]))"
    by (rule runs_loop) (use p2 in auto)
  have pr: "runs (loop (\<lambda>n s. map_option (\<lambda>_. s) (client_get E (ec_get_prefix C KEY_PREFIX n) s)) [10, 100, 1000])
      (concat (map (\<lambda>_. []) [10, 100, 1000 :: i64]))"
    by (rule runs_loop, rule runs_get_prefix [OF assms(1)]) auto
  have e: "concat (map (\<lambda>n. puts (make_value n) (bench_keys 20000000 500)) [64, 256, 1024, 4096, 16384]) =
      concat (map (\<lambda>n. puts (make_value n) (bench_keys 20000000 500)) [64, 256, 1024, 4096]) @ puts (make_value 16384) (bench_keys 20000000 500)"
    by (simp only: list.map concat.simps append_Nil2 append_assoc)
  have n: "concat (map (\<lambda>_. [] :: (bytes \<times> bytes) list) xs) = []" for xs :: "'z list" by simp
  have w: "sequential_writes = puts (ascii ''warmup'') (bench_keys 0 100) @ puts (make_value 128) (bench_keys 10000000 1000)
     @ [] @ puts (ascii ''txn'') (bench_keys 0 100)
     @ concat (map (\<lambda>n. puts (make_value n) (bench_keys 20000000 500)) [64, 256, 1024, 4096, 16384]) @ []"
    unfolding sequential_writes_def e by (simp only: append_assoc append_Nil append_Nil2)
  have s: "runs (loop (bench_txn E C) (bench_keys 0 100)) (puts (ascii ''txn'') (bench_keys 0 100))"
    "runs (loop (\<lambda>k s. map_option (\<lambda>_. s) (client_get E (ec_get C k) s)) (bench_keys 0 1000)) []"
    "runs (loop (\<lambda>n s. map_option (\<lambda>_. s) (client_get E (ec_get_prefix C KEY_PREFIX n) s)) [10, 100, 1000]) []"
    using t [of 0 100] g [of 0 1000] pr unfolding te n .
  show ?thesis unfolding bench_sequential_def [abs_def] w by (intro runs_bind p1 p2 z s) simp_all
qed

text \<open>The last of several writes decides.\<close>

lemma last_write:
  assumes "wrote (a @ b @ c) s t" and "(k, v) \<in> set b" and "\<And>v'. (k, v') \<in> set b \<Longrightarrow> v' = v" and "k \<notin> fst ` set c"
  shows "map_option a_value (view_of t k) = Some v"
proof -
  have "map_of (rev c) k = None" using assms(4) by (simp add: map_of_eq_None_iff)
  moreover have "k \<in> fst ` set (rev b)" using assms(2) by force
  then have "map_of (rev b) k \<noteq> None" by (simp only: map_of_eq_None_iff not_not)
  then obtain v' where v': "map_of (rev b) k = Some v'" by auto
  then have "(k, v') \<in> set b" by (metis map_of_SomeD set_rev)
  then have "v' = v" by (rule assms(3))
  ultimately have "map_of (rev (a @ b @ c)) k = Some v" using v' by (simp add: map_add_def)
  with wrote_at [OF assms(1), of k] show ?thesis by simp
qed

definition schedules_ok :: "nat list list \<Rightarrow> bool" where
  "schedules_ok schedules \<longleftrightarrow> length schedules = length WORKERS \<and> list_all round_ok (zip WORKERS schedules)"

definition round_part :: "nat list list \<Rightarrow> (bytes \<times> bytes) list" where
  "round_part schedules = concat (map round_writes (zip WORKERS schedules))"

lemma set_round_part:
  assumes "schedules_ok schedules"
  shows "set (round_part schedules) = (\<lambda>n. (bk n, make_value 128)) ` {30000000..<30002000}"
proof -
  have r: "set (round_writes r) = (\<lambda>n. (bk n, make_value 128)) ` {30000000..<30000000 + fst r * per_task (fst r)}"
    if "r \<in> set (zip WORKERS schedules)" for r
    using that assms set_round_writes [of "fst r" "snd r"] by (simp add: schedules_ok_def list_all_iff)
  have "fst r * per_task (fst r) \<le> 2000" for r :: "nat \<times> nat list" by (simp add: per_task_def)
  then have "set (round_writes r) \<subseteq> (\<lambda>n. (bk n, make_value 128)) ` {30000000..<30002000}"
    if "r \<in> set (zip WORKERS schedules)" for r
    unfolding r [OF that] by (intro image_mono) (auto intro: less_le_trans)
  then have "set (round_part schedules) \<subseteq> (\<lambda>n. (bk n, make_value 128)) ` {30000000..<30002000}"
    by (auto simp: round_part_def)
  moreover obtain sch rest where s: "schedules = sch # rest" using assms by (cases schedules) (auto simp: schedules_ok_def WORKERS_def)
  have m: "(1, sch) \<in> set (zip WORKERS schedules)" by (simp add: s WORKERS_def)
  have "set (round_writes (1, sch)) = (\<lambda>n. (bk n, make_value 128)) ` {30000000..<30002000}"
    using r [OF m] by (simp add: per_task_def)
  then have "(\<lambda>n. (bk n, make_value 128)) ` {30000000..<30002000} \<subseteq> set (round_part schedules)"
    using m by (auto simp: round_part_def)
  ultimately show ?thesis by (rule subset_antisym)
qed

lemma runs_main:
  assumes "bench_documented C" and "prost_law E" and "schedules_ok schedules"
  shows "runs (bench_main E C schedules) (sequential_writes @ round_part schedules)"
proof -
  have "runs (loop (throughput_round E C) (zip WORKERS schedules)) (round_part schedules)"
    unfolding round_part_def by (rule runs_loop, rule runs_round [OF assms(1)])
      (use assms(3) in \<open>simp add: schedules_ok_def list_all_iff\<close>)
  then show ?thesis unfolding bench_main_def [abs_def] by (rule runs_bind [OF runs_sequential [OF assms(1,2)]])
qed

lemma length_writes: "length sequential_writes = 3700"
  by (simp add: sequential_writes_def length_puts bench_keys_def)

section \<open>Properties\<close>

text \<open>The benchmark against a store whose log can be written, for every order in which the requests of its concurrent
  workers are served: no request fails; every compare-and-swap takes place, since nobody writes between its
  read and its transaction; afterwards the keys of each phase hold the value written last, and no other key has
  changed.\<close>

theorem benchmark_correct:
  assumes "bench_documented C" and "prost_law E" and "schedules_ok schedules"
    and "store_ok s" and "wf_faults (st_wal s) = []"
    and "unat (st_next_rev s) + 3700 + length (round_part schedules) < 2 ^ 64"
  shows "\<exists>t. bench_main E C schedules s = Some t
    \<and> (\<forall>n. n < 100 \<longrightarrow> map_option a_value (view_of t (bk n)) = Some (ascii ''txn''))
    \<and> (\<forall>n. 10000000 \<le> n \<and> n < 10001000 \<longrightarrow> map_option a_value (view_of t (bk n)) = Some (make_value 128))
    \<and> (\<forall>n. 20000000 \<le> n \<and> n < 20000500 \<longrightarrow> map_option a_value (view_of t (bk n)) = Some (make_value 16384))
    \<and> (\<forall>n. 30000000 \<le> n \<and> n < 30002000 \<longrightarrow> map_option a_value (view_of t (bk n)) = Some (make_value 128))
    \<and> (\<forall>k. k \<notin> bk ` ({..<100} \<union> {10000000..<10001000} \<union> {20000000..<20000500} \<union> {30000000..<30002000})
          \<longrightarrow> view_of t k = view_of s k)"
proof -
  let ?R = "round_part schedules"
  let ?P1 = "puts (ascii ''warmup'') (bench_keys 0 100)" and ?P2 = "puts (make_value 128) (bench_keys 10000000 1000)"
  let ?P3 = "puts (ascii ''txn'') (bench_keys 0 100)"
  let ?P4 = "concat (map (\<lambda>n. puts (make_value n) (bench_keys 20000000 500)) [64, 256, 1024, 4096])"
  let ?P5 = "puts (make_value 16384) (bench_keys 20000000 500)"
  have "ready (length (sequential_writes @ ?R)) s" using assms(4-6) by (simp add: ready_def length_writes)
  then obtain t where t: "bench_main E C schedules s = Some t" "wrote (sequential_writes @ ?R) s t"
    using runs_main [OF assms(1-3)] by (auto simp: runs_def)
  note w = t(2) [unfolded sequential_writes_def append_assoc]
  have R: "(k, v) \<in> set ?R \<longleftrightarrow> k \<in> bk ` {30000000..<30002000} \<and> v = make_value 128" for k v
    by (auto simp: set_round_part [OF assms(3)])
  have fR: "fst ` set ?R = bk ` {30000000..<30002000}" by (auto simp: set_round_part [OF assms(3)] image_image)
  have fP: "fst ` set (puts v ks) = set ks" for v ks by (auto simp: puts_def image_image)
  have f4: "fst ` set ?P4 = bk ` {20000000..<20000500}" by (simp add: fP image_Un set_bench_keys)
  note sets = fR f4 fP set_bench_keys set_puts image_Un set_append
  have bk: "bk n \<in> bk ` {a..<b} \<longleftrightarrow> a \<le> n \<and> n < b" if "n < 2 ^ 64" "b < 2 ^ 64" for n a b
    using that by (auto simp: bk_inject)
  have "map_option a_value (view_of t (bk n)) = Some (ascii ''txn'')" if "n < 100" for n
    by (rule last_write [of "?P1 @ ?P2" ?P3 "?P4 @ ?P5 @ ?R" s]) (use that w in \<open>simp_all add: sets bk\<close>)
  moreover have "map_option a_value (view_of t (bk n)) = Some (make_value 128)" if "10000000 \<le> n" "n < 10001000" for n
    by (rule last_write [of ?P1 ?P2 "?P3 @ ?P4 @ ?P5 @ ?R" s]) (use that w in \<open>simp_all add: sets bk\<close>)
  moreover have "map_option a_value (view_of t (bk n)) = Some (make_value 16384)" if "20000000 \<le> n" "n < 20000500" for n
    by (rule last_write [of "?P1 @ ?P2 @ ?P3 @ ?P4" ?P5 ?R s]) (use that w in \<open>simp_all add: sets bk\<close>)
  moreover have "map_option a_value (view_of t (bk n)) = Some (make_value 128)" if "30000000 \<le> n" "n < 30002000" for n
    by (rule last_write [of "?P1 @ ?P2 @ ?P3 @ ?P4 @ ?P5" ?R "[]" s]) (use that w in \<open>simp_all add: R bk\<close>)
  moreover have "view_of t k = view_of s k"
    if "k \<notin> bk ` ({..<100} \<union> {10000000..<10001000} \<union> {20000000..<20000500} \<union> {30000000..<30002000})" for k
  proof -
    have "k \<notin> fst ` set (sequential_writes @ ?R)"
      using that by (auto simp: sequential_writes_def sets lessThan_atLeast0 simp del: set_concat)
    then have "map_of (rev (sequential_writes @ ?R)) k = None" by (simp only: map_of_eq_None_iff set_rev not_False_eq_True)
    then show ?thesis using wrote_at [OF t(2), of k] by (simp only: option.case)
  qed
  ultimately show ?thesis using t(1) by blast
qed

text \<open>The assumptions hold for the reference libraries, a fresh store and workers that take turns.\<close>

definition ref_bench_client :: bench_client where
  "ref_bench_client = etcd_client.extend ref_client
     \<lparr>ec_get = (\<lambda>k. plain_get k [] 0),
      ec_get_prefix = (\<lambda>p. plain_get p (case prefix_end p of Some e \<Rightarrow> e | None \<Rightarrow> [0])),
      ec_swap = swap_txn\<rparr>"

definition turns :: "nat \<Rightarrow> nat list" where
  "turns workers = concat (replicate (per_task workers) [0..<workers])"

lemma round_ok_turns: "round_ok (workers, turns workers)"
proof -
  have "count_list (concat (replicate n [0..<workers])) w = n" if "w < workers" for n w
    using that by (induction n) (simp_all add: count_distinct)
  then show ?thesis by (auto simp: round_ok_def turns_def set_replicate_conv_if)
qed

lemma schedules_ok_turns: "schedules_ok (map turns WORKERS)"
proof -
  have "list_all round_ok (zip ws (map turns ws))" for ws by (induction ws) (simp_all add: round_ok_turns)
  then show ?thesis by (simp add: schedules_ok_def)
qed

lemma length_round_part_turns: "length (round_part (map turns WORKERS)) \<le> 14000"
proof -
  have "length (turns w) \<le> 2000" for w by (simp add: turns_def length_concat sum_list_replicate per_task_def)
  then have "length (round_writes (w, turns w)) \<le> 2000" for w using length_round_writes [OF round_ok_turns] by simp
  then have "length (concat (map round_writes (zip ws (map turns ws)))) \<le> 2000 * length ws" for ws
    by (induction ws) (simp_all add: add_mono)
  from this [of WORKERS] show ?thesis by (simp add: round_part_def WORKERS_def)
qed

lemma benchmark_correct_example:
  "\<exists>t. bench_main ref_libs ref_bench_client (map turns WORKERS) (StoreState_new demo_wal) = Some t
     \<and> map_option a_value (view_of t (bk 7)) = Some (ascii ''txn'') \<and> view_of t [1] = None"
proof -
  have c: "bench_documented ref_bench_client"
    using ref_client_documented
    by (simp add: bench_documented_def ref_bench_client_def etcd_client.defs) (simp add: ref_client_def)
  have "unat (st_next_rev (StoreState_new demo_wal)) + 3700 + length (round_part (map turns WORKERS)) < 2 ^ 64"
    using length_round_part_turns by (simp add: new_store_facts)
  note b = benchmark_correct [OF c prost_law_ref schedules_ok_turns store_ok_new new_store_facts(1) this]
  have "bk n \<noteq> [1]" for n by (simp add: bench_key_def ascii_def)
  then have n: "[1] \<notin> bk ` N" for N by (metis imageE)
  from b obtain t where t: "bench_main ref_libs ref_bench_client (map turns WORKERS) (StoreState_new demo_wal) = Some t"
    "\<forall>n. n < 100 \<longrightarrow> map_option a_value (view_of t (bk n)) = Some (ascii ''txn'')"
    "\<forall>k. k \<notin> bk ` ({..<100} \<union> {10000000..<10001000} \<union> {20000000..<20000500} \<union> {30000000..<30002000})
          \<longrightarrow> view_of t k = view_of (StoreState_new demo_wal) k" by blast
  have "map_option a_value (view_of t (bk 7)) = Some (ascii ''txn'')" by (rule t(2) [rule_format]) simp
  moreover have "view_of t [1] = None" using t(3) [rule_format, OF n] by (simp only: view_of_new)
  ultimately show ?thesis using t(1) by blast
qed

end
