(* ===== verification/Process_Status.thy ===== *)
theory Process_Status
  imports Kv_Ops Text
begin

text \<open>
  The status report of the process (\<^verbatim>\<open>src/main.rs\<close>): every minute it reads its memory use from
  \<^verbatim>\<open>/proc/self/status\<close> and sends it with the statistics of the store as a datagram of gauges.
\<close>

section \<open>Reading the memory use\<close>

text \<open>The string functions of the standard library, on ASCII text.\<close>

definition newline :: char where "newline = CHR 0x0A"

text \<open>\<open>lines\<close>: the last line may lack its line feed, and a carriage return before a line feed is dropped.\<close>

fun lines_loop :: "string \<Rightarrow> string \<Rightarrow> string list" where
  "lines_loop acc [] = (if acc = [] then [] else [acc])"
| "lines_loop acc (c # cs) =
     (if c = newline
      then (if acc \<noteq> [] \<and> last acc = CHR 0x0D then butlast acc else acc) # lines_loop [] cs
      else lines_loop (acc @ [c]) cs)"

definition str_lines :: "string \<Rightarrow> string list" where "str_lines s = lines_loop [] s"

definition strip_prefix :: "string \<Rightarrow> string \<Rightarrow> string option" where
  "strip_prefix p s = (if prefix p s then Some (drop (length p) s) else None)"

definition is_space :: "char \<Rightarrow> bool" where
  "is_space c \<longleftrightarrow> c = CHR '' '' \<or> 9 \<le> (of_char c :: nat) \<and> (of_char c :: nat) \<le> 13"

definition str_trim :: "string \<Rightarrow> string" where
  "str_trim s = rev (dropWhile is_space (rev (dropWhile is_space s)))"

text \<open>\<open>trim_end_matches\<close> removes a non-empty suffix as often as it occurs.\<close>

function trim_end_matches :: "string \<Rightarrow> string \<Rightarrow> string" where
  "trim_end_matches suf s =
     (if suf \<noteq> [] \<and> suffix suf s then trim_end_matches suf (take (length s - length suf) s) else s)"
  by pat_completeness auto
termination
  by (relation "measure (\<lambda>(suf, s). length s)") (auto simp: suffix_def)

declare trim_end_matches.simps [simp del]

definition field_value :: "string \<Rightarrow> u64" where
  "field_value v = (case parse_u64 (trim_end_matches '' kB'' (str_trim v)) of Some n \<Rightarrow> n | None \<Rightarrow> 0)"

text \<open>One line of the file; the values are resident, virtual and peak size.\<close>

definition proc_line :: "string \<Rightarrow> u64 \<times> u64 \<times> u64 \<Rightarrow> u64 \<times> u64 \<times> u64" where
  "proc_line line acc =
     (case acc of (rss, vsize, peak) \<Rightarrow>
        case strip_prefix ''VmRSS:'' line of
          Some v \<Rightarrow> (field_value v, vsize, peak)
        | None \<Rightarrow>
            (case strip_prefix ''VmSize:'' line of
               Some v \<Rightarrow> (rss, field_value v, peak)
             | None \<Rightarrow>
                 (case strip_prefix ''VmPeak:'' line of
                    Some v \<Rightarrow> (rss, vsize, field_value v)
                  | None \<Rightarrow> (rss, vsize, peak))))"

definition read_proc_mem :: "string option \<Rightarrow> u64 \<times> u64 \<times> u64" where
  "read_proc_mem status =
     (case status of None \<Rightarrow> (0, 0, 0) | Some text \<Rightarrow> fold proc_line (str_lines text) (0, 0, 0))"

section \<open>The datagram\<close>

definition gauge :: "string \<Rightarrow> nat \<Rightarrow> string" where
  "gauge name n = name @ '':'' @ show_nat n @ ''|g'' @ [newline]"

text \<open>One round: the statistics of the store, the size of the log file (\<open>None\<close> when it cannot be read) and the memory
  use, in the order of the datagram.\<close>

definition status_gauges :: "nat option \<Rightarrow> string option \<Rightarrow> store_state \<Rightarrow> (string \<times> nat) list" where
  "status_gauges wal_size proc s =
     (let st = stats s;
          (rss_kb, vsize_kb, peak_kb) = read_proc_mem proc
      in [(''rudurru.rev'', unat (stat_revision st)), (''rudurru.keys'', unat (stat_keys st)),
          (''rudurru.watchers'', unat (stat_watchers st)), (''rudurru.leases'', unat (stat_leases st)),
          (''rudurru.wal_size'', case wal_size of Some n \<Rightarrow> n | None \<Rightarrow> 0),
          (''rudurru.mem.rss_kb'', unat rss_kb), (''rudurru.mem.vsize_kb'', unat vsize_kb),
          (''rudurru.mem.peak_kb'', unat peak_kb)])"

definition status_datagram :: "nat option \<Rightarrow> string option \<Rightarrow> store_state \<Rightarrow> string" where
  "status_datagram wal_size proc s = concat (map (\<lambda>(name, n). gauge name n) (status_gauges wal_size proc s))"

section \<open>Lemmas\<close>

lemma lines_loop_line:
  "newline \<notin> set l \<Longrightarrow> lines_loop acc (l @ newline # rest) =
     (if acc @ l \<noteq> [] \<and> last (acc @ l) = CHR 0x0D then butlast (acc @ l) else acc @ l) # lines_loop [] rest"
  by (induction l arbitrary: acc) auto

definition line_ok :: "string \<Rightarrow> bool" where
  "line_ok l \<longleftrightarrow> newline \<notin> set l \<and> (l = [] \<or> last l \<noteq> CHR 0x0D)"

lemma str_lines_join: "list_all line_ok ls \<Longrightarrow> str_lines (concat (map (\<lambda>l. l @ [newline]) ls)) = ls"
proof (induction ls)
  case (Cons l ls)
  then have "newline \<notin> set l" "l = [] \<or> last l \<noteq> CHR 0x0D" by (simp_all add: line_ok_def)
  with Cons show ?case using lines_loop_line [of l "[]"] by (auto simp: str_lines_def)
qed (simp add: str_lines_def)

lemma digit_char_facts: "is_digit c \<Longrightarrow> \<not> is_space c \<and> c \<noteq> newline \<and> c \<noteq> CHR ''B'' \<and> c \<noteq> CHR ''g'' \<and> c \<noteq> CHR '':''"
  by (auto simp: is_digit_def is_space_def newline_def)

lemma last_digit: "is_digit (last (show_nat n))"
  using show_nat_digits [of n] last_in_set [OF show_nat_nonempty [of n]] by (simp add: list_all_iff)

lemma trim_end_once:
  assumes "suf \<noteq> []" and "s \<noteq> []" and "last s \<noteq> last suf"
  shows "trim_end_matches suf (s @ suf) = s"
proof -
  have "\<not> suffix suf s" using assms by (auto simp: suffix_def)
  then have "trim_end_matches suf s = s" by (subst trim_end_matches.simps) simp
  then show ?thesis using assms(1) by (subst trim_end_matches.simps) (simp add: suffix_def)
qed

lemma field_value_line:
  assumes "list_all is_space ws" and "n < 2 ^ 64"
  shows "field_value (ws @ show_nat n @ '' kB'') = word_of_nat n"
proof -
  obtain c cs where c: "show_nat n = c # cs" by (cases "show_nat n") simp_all
  then have "is_digit c" using show_nat_digits [of n] by simp
  then have "\<not> is_space c" using digit_char_facts by simp
  then have "dropWhile is_space (ws @ show_nat n @ '' kB'') = show_nat n @ '' kB''"
    using assms(1) by (simp add: dropWhile_append1 dropWhile_append2 list_all_iff c)
  moreover have "\<not> is_space CHR ''B''" by (simp add: is_space_def)
  ultimately have "str_trim (ws @ show_nat n @ '' kB'') = show_nat n @ '' kB''" by (simp add: str_trim_def)
  moreover have "trim_end_matches '' kB'' (show_nat n @ '' kB'') = show_nat n"
    using last_digit [of n] digit_char_facts by (intro trim_end_once) auto
  ultimately show ?thesis using parse_show_nat [OF assms(2)] by (simp add: field_value_def)
qed

text \<open>A status file: each of the three fields has one line, with blanks before the number.\<close>

definition mem_line :: "string \<Rightarrow> nat \<Rightarrow> string \<Rightarrow> bool" where
  "mem_line name n l \<longleftrightarrow> (\<exists>ws. list_all is_space ws \<and> l = name @ ws @ show_nat n @ '' kB'')"

definition proc_file :: "string list \<Rightarrow> nat \<Rightarrow> nat \<Rightarrow> nat \<Rightarrow> bool" where
  "proc_file ls rss vsize peak \<longleftrightarrow> list_all line_ok ls \<and> rss < 2 ^ 64 \<and> vsize < 2 ^ 64 \<and> peak < 2 ^ 64
     \<and> (\<exists>l \<in> set ls. prefix ''VmRSS:'' l) \<and> (\<forall>l \<in> set ls. prefix ''VmRSS:'' l \<longrightarrow> mem_line ''VmRSS:'' rss l)
     \<and> (\<exists>l \<in> set ls. prefix ''VmSize:'' l) \<and> (\<forall>l \<in> set ls. prefix ''VmSize:'' l \<longrightarrow> mem_line ''VmSize:'' vsize l)
     \<and> (\<exists>l \<in> set ls. prefix ''VmPeak:'' l) \<and> (\<forall>l \<in> set ls. prefix ''VmPeak:'' l \<longrightarrow> mem_line ''VmPeak:'' peak l)"

lemma strip_mem_line:
  assumes "n < 2 ^ 64" and "prefix name l \<longrightarrow> mem_line name n l"
  shows "map_option field_value (strip_prefix name l) = (if prefix name l then Some (word_of_nat n) else None)"
  using assms by (auto simp: strip_prefix_def mem_line_def field_value_line)

lemma proc_line_eq:
  assumes "rss < 2 ^ 64" and "vsize < 2 ^ 64" and "peak < 2 ^ 64"
    and "prefix ''VmRSS:'' l \<longrightarrow> mem_line ''VmRSS:'' rss l" and "prefix ''VmSize:'' l \<longrightarrow> mem_line ''VmSize:'' vsize l"
    and "prefix ''VmPeak:'' l \<longrightarrow> mem_line ''VmPeak:'' peak l"
  shows "proc_line l (r, v, p) = (if prefix ''VmRSS:'' l then word_of_nat rss else r,
    if prefix ''VmSize:'' l then word_of_nat vsize else v, if prefix ''VmPeak:'' l then word_of_nat peak else p)"
proof -
  have x: "\<not> (prefix ''VmRSS:'' l \<and> prefix ''VmSize:'' l)" "\<not> (prefix ''VmRSS:'' l \<and> prefix ''VmPeak:'' l)"
    "\<not> (prefix ''VmSize:'' l \<and> prefix ''VmPeak:'' l)" by (auto simp: prefix_def)
  show ?thesis
    using x strip_mem_line [OF assms(1,4)] strip_mem_line [OF assms(2,5)] strip_mem_line [OF assms(3,6)]
    by (auto simp: proc_line_def split: option.splits if_splits)
qed

lemma read_proc_mem_file:
  assumes "proc_file ls rss vsize peak"
  shows "read_proc_mem (Some (concat (map (\<lambda>l. l @ [newline]) ls))) = (word_of_nat rss, word_of_nat vsize, word_of_nat peak)"
proof -
  have lt: "rss < 2 ^ 64" "vsize < 2 ^ 64" "peak < 2 ^ 64" using assms by (simp_all add: proc_file_def)
  have "fold proc_line xs (r, v, p) =
      (if \<exists>l \<in> set xs. prefix ''VmRSS:'' l then word_of_nat rss else r,
       if \<exists>l \<in> set xs. prefix ''VmSize:'' l then word_of_nat vsize else v,
       if \<exists>l \<in> set xs. prefix ''VmPeak:'' l then word_of_nat peak else p)" if "set xs \<subseteq> set ls" for xs r v p
    using that
  proof (induction xs arbitrary: r v p)
    case (Cons l xs)
    have "proc_line l (r, v, p) = (if prefix ''VmRSS:'' l then word_of_nat rss else r,
        if prefix ''VmSize:'' l then word_of_nat vsize else v, if prefix ''VmPeak:'' l then word_of_nat peak else p)"
      by (rule proc_line_eq [OF lt]) (use Cons.prems assms in \<open>auto simp: proc_file_def\<close>)
    then show ?case using Cons.IH Cons.prems by simp
  qed simp
  from this [of ls] show ?thesis
    using str_lines_join [of ls] assms by (simp add: read_proc_mem_def proc_file_def)
qed

section \<open>Reading the datagram back\<close>

text \<open>A reader of gauges: the name up to the colon, the value before the type.\<close>

definition read_gauge :: "string \<Rightarrow> string \<times> u64 option" where
  "read_gauge l = (takeWhile (\<lambda>c. c \<noteq> CHR '':'') l,
     parse_u64 (trim_end_matches ''|g'' (drop 1 (dropWhile (\<lambda>c. c \<noteq> CHR '':'') l))))"

definition gauge_ok :: "string \<times> nat \<Rightarrow> bool" where
  "gauge_ok g \<longleftrightarrow> newline \<notin> set (fst g) \<and> CHR '':'' \<notin> set (fst g) \<and> snd g < 2 ^ 64"

lemma read_gauge_line:
  assumes "gauge_ok (name, n)"
  shows "read_gauge (name @ '':'' @ show_nat n @ ''|g'') = (name, Some (word_of_nat n))"
proof -
  have c: "\<forall>c \<in> set name. c \<noteq> CHR '':''" using assms by (auto simp: gauge_ok_def)
  have "trim_end_matches ''|g'' (show_nat n @ ''|g'') = show_nat n"
    using last_digit [of n] digit_char_facts by (intro trim_end_once) auto
  moreover have "n < 2 ^ 64" using assms by (simp add: gauge_ok_def)
  ultimately show ?thesis
    using c parse_show_nat [of n] by (simp add: read_gauge_def takeWhile_append2 dropWhile_append2)
qed

lemma gauges_roundtrip:
  assumes "list_all gauge_ok gs"
  shows "map read_gauge (str_lines (concat (map (\<lambda>(name, n). gauge name n) gs))) = map (\<lambda>(name, n). (name, Some (word_of_nat n))) gs"
proof -
  let ?l = "\<lambda>(name, n). name @ '':'' @ show_nat n @ ''|g''"
  have "line_ok (?l (name, n))" if "gauge_ok (name, n)" for name n
  proof -
    have "newline \<notin> set (show_nat n)" using show_nat_digits [of n] digit_char_facts by (auto simp: list_all_iff)
    moreover have "newline \<notin> set '':''" "newline \<notin> set ''|g''" by (simp_all add: newline_def)
    ultimately show ?thesis using that by (simp add: line_ok_def gauge_ok_def)
  qed
  then have "list_all line_ok (map ?l gs)" using assms by (fastforce simp: list_all_iff)
  from str_lines_join [OF this] have "str_lines (concat (map (\<lambda>(name, n). gauge name n) gs)) = map ?l gs"
    by (simp add: gauge_def comp_def case_prod_unfold)
  then show ?thesis using assms read_gauge_line by (auto simp: list_all_iff)
qed

section \<open>Properties\<close>

lemma alive_count_view: "bt_ok (st_keys s) \<Longrightarrow> alive_count (st_keys s) = card (dom (view_of s))"
proof -
  assume ok: "bt_ok (st_keys s)"
  have "{k. \<exists>ks. bt_get (st_keys s) k = Some ks \<and> is_alive ks} = dom (view_of s)"
    by (auto simp: view_of_def get_alive_def dom_def split: option.splits)
  then show ?thesis using bt.count_card [OF ok, of "\<lambda>k ks. is_alive ks"] by (simp add: alive_count_def)
qed

text \<open>C40. The status datagram can be read back: a reader of gauges finds the current revision, the number of live keys, the
  numbers of watchers and leases, the size of the log, and the memory sizes as they stand in the status file of the
  process.\<close>

theorem status_roundtrip:
  assumes "store_ok s" and "length (st_keys s) < 2 ^ 64" and "wal_size < 2 ^ 64" and "proc_file ls rss vsize peak"
  shows "map read_gauge (str_lines (status_datagram (Some wal_size) (Some (concat (map (\<lambda>l. l @ [newline]) ls))) s)) =
    [(''rudurru.rev'', Some (current_revision s)), (''rudurru.keys'', Some (word_of_nat (card (dom (view_of s))))),
     (''rudurru.watchers'', Some (word_of_nat (length (st_watchers s)))),
     (''rudurru.leases'', Some (word_of_nat (length (st_leases s)))), (''rudurru.wal_size'', Some (word_of_nat wal_size)),
     (''rudurru.mem.rss_kb'', Some (word_of_nat rss)), (''rudurru.mem.vsize_kb'', Some (word_of_nat vsize)),
     (''rudurru.mem.peak_kb'', Some (word_of_nat peak))]"
proof -
  let ?gs = "status_gauges (Some wal_size) (Some (concat (map (\<lambda>l. l @ [newline]) ls))) s"
  have k: "st_key_count s = word_of_nat (card (dom (view_of s)))"
    using assms(1,2) alive_count_view [of s] by (simp add: store_ok_def keys_ok_def)
  have u: "unat (w :: u64) < 2 ^ 64" for w
  proof -
    have "unat w < 2 ^ LENGTH(64)" by (rule unsigned_less)
    then show ?thesis by simp
  qed
  have g: "newline \<notin> set name \<Longrightarrow> CHR '':'' \<notin> set name \<Longrightarrow> n < 2 ^ 64 \<Longrightarrow> gauge_ok (name, n)" for name n
    by (simp add: gauge_ok_def)
  have "list_all gauge_ok ?gs"
    unfolding status_gauges_def read_proc_mem_file [OF assms(4)] Let_def prod.case option.case list.pred_inject
    by (intro conjI g u assms(3) TrueI) (simp_all add: newline_def)
  from gauges_roundtrip [OF this] show ?thesis
    by (simp add: status_datagram_def status_gauges_def read_proc_mem_file [OF assms(4)] stats_def k Let_def)
qed

definition demo_proc :: "string list" where
  "demo_proc = [''Name: x'', ''VmPeak:    30 kB'', ''VmSize:  20 kB'', ''VmRSS: 10 kB'']"

lemma demo_proc_file: "proc_file demo_proc 10 20 30"
proof -
  have n: "show_nat 10 = ''10''" "show_nat 20 = ''20''" "show_nat 30 = ''30''" by code_simp+
  have "mem_line ''VmPeak:'' 30 ''VmPeak:    30 kB''"
    unfolding mem_line_def n by (rule exI [of _ "''    ''"]) (simp add: is_space_def)
  moreover have "mem_line ''VmSize:'' 20 ''VmSize:  20 kB''"
    unfolding mem_line_def n by (rule exI [of _ "''  ''"]) (simp add: is_space_def)
  moreover have "mem_line ''VmRSS:'' 10 ''VmRSS: 10 kB''"
    unfolding mem_line_def n by (rule exI [of _ "'' ''"]) (simp add: is_space_def)
  ultimately show ?thesis by (simp add: proc_file_def demo_proc_def line_ok_def newline_def prefix_def)
qed

lemma status_roundtrip_witness:
  "map read_gauge (str_lines (status_datagram (Some 4) (Some (concat (map (\<lambda>l. l @ [newline]) demo_proc))) (StoreState_new demo_wal))) =
    [(''rudurru.rev'', Some 0), (''rudurru.keys'', Some 0), (''rudurru.watchers'', Some 0), (''rudurru.leases'', Some 0),
     (''rudurru.wal_size'', Some 4), (''rudurru.mem.rss_kb'', Some 10), (''rudurru.mem.vsize_kb'', Some 20),
     (''rudurru.mem.peak_kb'', Some 30)]"
proof -
  have "length (st_keys (StoreState_new demo_wal)) < 2 ^ 64" "(4 :: nat) < 2 ^ 64" by (simp_all add: StoreState_new_def)
  from status_roundtrip [OF store_ok_new this demo_proc_file] show ?thesis
    by (simp add: current_revision_def StoreState_new_def view_of_def get_alive_def bt_get_def dom_def)
qed

end
