(* ===== verification/Legacy_Log.thy ===== *)
theory Legacy_Log
  imports Recovery
begin

text \<open>
  The previous log format and the command-line tools around it: the legacy record of
  \<^verbatim>\<open>src/storage/wal.rs\<close>, its migration to the current format (\<^verbatim>\<open>src/bin/wal_migrate.rs\<close>), and the tools that
  verify, inspect and rewrite legacy logs (\<^verbatim>\<open>walverify.rs\<close>, \<^verbatim>\<open>waldoctor.rs\<close>, \<^verbatim>\<open>walrecover.rs\<close>).  A legacy log
  denotes a key space; migrating it and starting the server gives that key space.
\<close>

section \<open>The legacy record\<close>

definition MAGIC :: u16 where "MAGIC = 0x5255"

record wal_record =
  lr_revision :: u64
  lr_key :: bytes
  lr_value :: bytes
  lr_flags :: u8
  lr_lease_id :: "i64 option"

definition WalRecord_serialize :: "libs \<Rightarrow> wal_record \<Rightarrow> bytes" where
  "WalRecord_serialize E r =
     (let payload = lr_flags r # lr_key r @ lr_value r
            @ (case lr_lease_id r of Some lid \<Rightarrow> to_le_bytes 8 lid | None \<Rightarrow> []);
          crc = crc32c E payload
      in to_le_bytes 2 MAGIC @ to_le_bytes 8 (lr_revision r) @ to_le_bytes 4 crc
           @ to_le_bytes 4 (word_of_nat (length (lr_key r)) :: u32)
           @ to_le_bytes 4 (word_of_nat (length (lr_value r)) :: u32) @ payload)"

text \<open>The header fields behind the magic number: revision, checksum, lengths and flags.\<close>

definition legacy_header :: "bytes \<Rightarrow> u64 \<times> u32 \<times> nat \<times> nat \<times> u8" where
  "legacy_header data =
     (from_le_bytes (take 8 (drop 2 data)), from_le_bytes (take 4 (drop 10 data)),
      unat (from_le_bytes (take 4 (drop 14 data)) :: u32),
      unat (from_le_bytes (take 4 (drop 18 data)) :: u32), data ! 22)"

definition WalRecord_deserialize :: "libs \<Rightarrow> bytes \<Rightarrow> io_error + wal_record \<times> nat" where
  "WalRecord_deserialize E data =
     (if length data < 23 then Inl (UnexpectedEof ''short record'')
      else if from_le_bytes [data ! 0, data ! 1] \<noteq> MAGIC then Inl (InvalidData ''bad magic'')
      else
        let (revision, stored_crc, key_len, val_len, flags) = legacy_header data;
            payload_end = 23 + key_len + val_len
        in if length data < payload_end then Inl (UnexpectedEof ''truncated payload'')
           else
             let key = take key_len (drop 23 data);
                 val = take val_len (drop (23 + key_len) data)
             in if flags AND HAS_LEASE \<noteq> 0 \<and> length data < payload_end + 8
                then Inl (UnexpectedEof ''truncated lease'')
                else
                  let lease_id = (if flags AND HAS_LEASE \<noteq> 0
                                  then Some (from_le_bytes (take 8 (drop payload_end data))) else None);
                      ofs = (if flags AND HAS_LEASE \<noteq> 0 then payload_end + 8 else payload_end);
                      computed = crc32c E (drop 22 (take ofs data))
                  in if computed \<noteq> stored_crc then Inl (InvalidData ''CRC mismatch'')
                     else Inr (\<lparr>lr_revision = revision, lr_key = key, lr_value = val, lr_flags = flags,
                               lr_lease_id = lease_id\<rparr>, ofs))"

section \<open>Migration\<close>

text \<open>The records of an old log up to the first that cannot be read.\<close>

function read_old_records :: "libs \<Rightarrow> bytes \<Rightarrow> wal_record list" where
  "read_old_records E buf =
     (if buf = [] then []
      else case WalRecord_deserialize E buf of
        Inl e \<Rightarrow> []
      | Inr (r, consumed) \<Rightarrow> r # read_old_records E (drop consumed buf))"
  by pat_completeness auto
termination
  by (relation "measure (\<lambda>(E, buf). length buf)")
    (auto simp: WalRecord_deserialize_def Let_def split: if_splits prod.splits)

declare read_old_records.simps [simp del]

type_synonym migrate_state = "(bytes, u64 \<times> i64 \<times> bytes \<times> i64) btree"

definition old_lease :: "wal_record \<Rightarrow> i64" where
  "old_lease r =
     (if lr_flags r AND HAS_LEASE \<noteq> 0 then (case lr_lease_id r of Some l \<Rightarrow> l | None \<Rightarrow> 0) else 0)"

text \<open>The body of the migration loop: the record to write, and the state behind it.\<close>

definition migrate_record :: "libs \<Rightarrow> wal_record \<Rightarrow> migrate_state \<Rightarrow> kv_wal_record \<times> migrate_state" where
  "migrate_record E r state =
     (let deleted = (lr_flags r AND DELETED \<noteq> 0);
          lease = old_lease r
      in if deleted then
           (case bt_get state (lr_key r) of
              Some (create_revision, version, val, prev_lease) \<Rightarrow>
                (KvWalRecord_new E (DELETED OR (if prev_lease \<noteq> 0 then HAS_LEASE else 0)) (lr_key r) val
                   create_revision (lr_revision r) version prev_lease, bt_remove (lr_key r) state)
            | None \<Rightarrow>
                (KvWalRecord_new E DELETED (lr_key r) [] 0 (lr_revision r) 0 0, state))
         else
           let (create_revision, version) =
                 (case bt_get state (lr_key r) of
                    Some (cr, v, _, _) \<Rightarrow> (cr, v + 1) | None \<Rightarrow> (lr_revision r, 1));
               flags = IS_CREATE OR (if lease \<noteq> 0 then HAS_LEASE else 0)
           in (KvWalRecord_new E flags (lr_key r) (lr_value r) create_revision (lr_revision r) version lease,
               bt_insert (lr_key r) (create_revision, version, lr_value r, lease) state))"

fun migrate_loop ::
    "libs \<Rightarrow> wal_record list \<Rightarrow> migrate_state \<Rightarrow> wal_file \<Rightarrow> (io_error + unit) \<times> wal_file" where
  "migrate_loop E [] state wal = (Inr (), wal)"
| "migrate_loop E (r # rs) state wal =
     (let (kv, state) = migrate_record E r state
      in case append_kv kv wal of
           (Inl e, wal) \<Rightarrow> (Inl e, wal)
         | (Inr _, wal) \<Rightarrow> migrate_loop E rs state wal)"

definition migrate :: "libs \<Rightarrow> wal_file \<Rightarrow> wal_record list \<Rightarrow> (io_error + unit) \<times> wal_file" where
  "migrate E wal records = migrate_loop E records [] wal"

section \<open>The tools on legacy logs\<close>

text \<open>
  The scan of the three tools on the bytes from the current position on.  They skip one byte where
  there is no magic number and stop at a truncated record; behind a checksum mismatch the verifier and
  the doctor go on at the next byte (\<open>resync\<close>), the recovery tool behind the record.  The second
  component counts the mismatches.
\<close>

function tool_scan :: "bool \<Rightarrow> bytes \<Rightarrow> wal_record list \<times> nat" where
  "tool_scan resync buf =
     (if length buf < 23 then ([], 0)
      else if from_le_bytes [buf ! 0, buf ! 1] \<noteq> MAGIC then tool_scan resync (drop 1 buf)
      else
        let (revision, stored_crc, key_len, val_len, flags) = legacy_header buf;
            payload_end = 23 + key_len + val_len
        in if payload_end > length buf then ([], 0)
           else if flags AND HAS_LEASE \<noteq> 0 \<and> payload_end + 8 > length buf then ([], 0)
           else
             let lease_id = (if flags AND HAS_LEASE \<noteq> 0
                             then Some (from_le_bytes (take 8 (drop payload_end buf))) else None);
                 pos = (if flags AND HAS_LEASE \<noteq> 0 then payload_end + 8 else payload_end);
                 r = \<lparr>lr_revision = revision, lr_key = take key_len (drop 23 buf),
                      lr_value = take val_len (drop (23 + key_len) buf), lr_flags = flags,
                      lr_lease_id = lease_id\<rparr>
             in if crc32c_bitwise (drop 22 (take pos buf)) \<noteq> stored_crc
                then (let (rs, errors) = tool_scan resync (drop (if resync then 1 else pos) buf)
                      in (rs, errors + 1))
                else (let (rs, errors) = tool_scan resync (drop pos buf) in (r # rs, errors)))"
  by pat_completeness auto
termination
  by (relation "measure (\<lambda>(b, buf). length buf)") (auto split: if_splits)

declare tool_scan.simps [simp del]

text \<open>The doctor: records, checksum errors and the number of records.\<close>

definition waldoctor_scan :: "bytes \<Rightarrow> wal_record list \<times> nat \<times> nat" where
  "waldoctor_scan buf =
     (let (records, crc_errors) = tool_scan True buf in (records, crc_errors, length records))"

type_synonym wal_entry = "u64 \<times> bytes \<times> bytes \<times> u8"

definition entry_of :: "wal_record \<Rightarrow> wal_entry" where
  "entry_of r = (lr_revision r, lr_key r, lr_value r, lr_flags r)"

definition walverify_scan :: "bytes \<Rightarrow> wal_entry list \<times> nat \<times> nat" where
  "walverify_scan buf =
     (let (records, crc_errors) = tool_scan True buf
      in (map entry_of records, length records, crc_errors))"

definition walrecover_scan :: "bytes \<Rightarrow> wal_entry list \<times> nat" where
  "walrecover_scan buf =
     (let (records, _) = tool_scan False buf in (map entry_of records, length records))"

text \<open>Reconstruction of the state, which the three tools share up to the form of the records.\<close>

record tool_key_state =
  tk_value :: bytes
  tk_create_revision :: u64
  tk_mod_revision :: u64
  tk_version :: u64

definition reconstruct_step ::
    "wal_entry \<Rightarrow> (bytes, tool_key_state) btree \<Rightarrow> (bytes, tool_key_state) btree" where
  "reconstruct_step e keys =
     (case e of (revision, key, val, flags) \<Rightarrow>
        if flags AND 0x01 \<noteq> 0 then bt_remove key keys
        else
          let entry = (case bt_get keys key of
                         Some ks \<Rightarrow> ks
                       | None \<Rightarrow> \<lparr>tk_value = [], tk_create_revision = revision,
                                 tk_mod_revision = revision, tk_version = 0\<rparr>);
              entry = (if flags AND 0x02 \<noteq> 0 then entry\<lparr>tk_create_revision := revision\<rparr> else entry)
          in bt_insert key (entry\<lparr>tk_value := val, tk_mod_revision := revision,
                                  tk_version := tk_version entry + 1\<rparr>) keys)"

definition reconstruct :: "wal_entry list \<Rightarrow> (bytes, tool_key_state) btree" where
  "reconstruct entries = fold reconstruct_step entries []"

definition reconstruct_state :: "wal_record list \<Rightarrow> (bytes, tool_key_state) btree \<times> bytes list" where
  "reconstruct_state records =
     (let keys = reconstruct (map entry_of records);
          lost = map fst (filter (\<lambda>e. tk_mod_revision (snd e) < 8000 \<and> tk_create_revision (snd e) < 8000)
                            (bt_iter keys))
      in (keys, lost))"

text \<open>The recovery tool writes one legacy record per key.\<close>

definition recover_entry :: "bytes \<times> tool_key_state \<Rightarrow> bytes" where
  "recover_entry e =
     (case e of (key, ks) \<Rightarrow>
        let payload = IS_CREATE # key @ tk_value ks
        in to_le_bytes 2 MAGIC @ to_le_bytes 8 (tk_mod_revision ks)
             @ to_le_bytes 4 (crc32c_bitwise payload)
             @ to_le_bytes 4 (word_of_nat (length key) :: u32)
             @ to_le_bytes 4 (word_of_nat (length (tk_value ks)) :: u32) @ payload)"

definition write_wal :: "(bytes \<times> tool_key_state) list \<Rightarrow> bytes" where
  "write_wal entries = concat (map recover_entry entries)"

definition walrecover :: "bytes \<Rightarrow> bytes" where
  "walrecover input = write_wal (bt_iter (reconstruct (fst (walrecover_scan input))))"

section \<open>Round trip of the legacy record\<close>

definition legacy_wf :: "wal_record \<Rightarrow> bool" where
  "legacy_wf r \<longleftrightarrow> length (lr_key r) < 2 ^ 32 \<and> length (lr_value r) < 2 ^ 32
     \<and> (lr_flags r AND HAS_LEASE \<noteq> 0 \<longleftrightarrow> lr_lease_id r \<noteq> None)"

definition lease_bytes :: "wal_record \<Rightarrow> bytes" where
  "lease_bytes r = (case lr_lease_id r of Some lid \<Rightarrow> to_le_bytes 8 lid | None \<Rightarrow> [])"

definition legacy_payload :: "wal_record \<Rightarrow> bytes" where
  "legacy_payload r = lr_flags r # lr_key r @ lr_value r @ lease_bytes r"

lemma WalRecord_serialize_eq:
  "WalRecord_serialize E r = to_le_bytes 2 MAGIC @ to_le_bytes 8 (lr_revision r)
     @ to_le_bytes 4 (crc32c E (legacy_payload r))
     @ to_le_bytes 4 (word_of_nat (length (lr_key r)) :: u32)
     @ to_le_bytes 4 (word_of_nat (length (lr_value r)) :: u32) @ legacy_payload r"
  by (simp add: WalRecord_serialize_def Let_def legacy_payload_def lease_bytes_def)

lemma legacy_length: "length (WalRecord_serialize E r) = 23 + length (lr_key r) + length (lr_value r) + length (lease_bytes r)"
  by (simp add: WalRecord_serialize_eq legacy_payload_def)

lemma length_lease_bytes: "legacy_wf r \<Longrightarrow> length (lease_bytes r) = (if lr_flags r AND HAS_LEASE \<noteq> 0 then 8 else 0)"
  by (auto simp: legacy_wf_def lease_bytes_def)

text \<open>What the readers find at the start of a serialized record.\<close>

lemma legacy_fields:
  fixes E :: libs and r :: wal_record and rest :: bytes
  assumes "legacy_wf r"
  defines "buf \<equiv> WalRecord_serialize E r @ rest"
    and "n \<equiv> 23 + length (lr_key r) + length (lr_value r)"
  shows "from_le_bytes [buf ! 0, buf ! 1] = MAGIC"
    and "legacy_header buf = (lr_revision r, crc32c E (legacy_payload r), length (lr_key r), length (lr_value r), lr_flags r)"
    and "take (length (lr_key r)) (drop 23 buf) = lr_key r"
    and "take (length (lr_value r)) (drop (23 + length (lr_key r)) buf) = lr_value r"
    and "lr_flags r AND HAS_LEASE \<noteq> 0 \<Longrightarrow> Some (from_le_bytes (take 8 (drop n buf))) = lr_lease_id r"
    and "drop 22 (take (length (WalRecord_serialize E r)) buf) = legacy_payload r"
    and "drop (length (WalRecord_serialize E r)) buf = rest"
proof -
  have m: "to_le_bytes 2 MAGIC = [buf ! 0, buf ! 1]"
    by (rule nth_equalityI) (auto simp: buf_def WalRecord_serialize_eq nth_append less_2_cases_iff)
  show "from_le_bytes [buf ! 0, buf ! 1] = MAGIC" unfolding m [symmetric] by (simp add: codec_simps)
  have k: "unat (word_of_nat (length (lr_key r)) :: u32) = length (lr_key r)"
    "unat (word_of_nat (length (lr_value r)) :: u32) = length (lr_value r)"
    using assms(1) by (simp_all add: legacy_wf_def unat_of_nat_small)
  show "legacy_header buf = (lr_revision r, crc32c E (legacy_payload r), length (lr_key r), length (lr_value r), lr_flags r)"
    using k by (simp add: legacy_header_def buf_def WalRecord_serialize_eq codec_simps nth_append)
      (simp add: legacy_payload_def)
  show "take (length (lr_key r)) (drop 23 buf) = lr_key r"
    "take (length (lr_value r)) (drop (23 + length (lr_key r)) buf) = lr_value r"
    "drop 22 (take (length (WalRecord_serialize E r)) buf) = legacy_payload r"
    "drop (length (WalRecord_serialize E r)) buf = rest"
    by (simp_all add: buf_def WalRecord_serialize_eq legacy_payload_def)
  show "Some (from_le_bytes (take 8 (drop n buf))) = lr_lease_id r" if "lr_flags r AND HAS_LEASE \<noteq> 0"
    using assms(1) that
    by (auto simp: legacy_wf_def n_def buf_def WalRecord_serialize_eq legacy_payload_def lease_bytes_def codec_simps)
qed

lemma legacy_roundtrip:
  assumes "legacy_wf r"
  shows "WalRecord_deserialize E (WalRecord_serialize E r @ rest) = Inr (r, length (WalRecord_serialize E r))"
proof -
  note f = legacy_fields [OF assms, of E rest]
  define buf where "buf = WalRecord_serialize E r @ rest"
  define n where "n = 23 + length (lr_key r) + length (lr_value r)"
  have l: "length (WalRecord_serialize E r) = (if lr_flags r AND HAS_LEASE \<noteq> 0 then n + 8 else n)"
    by (simp add: legacy_length length_lease_bytes [OF assms] n_def)
  have b: "length (WalRecord_serialize E r) \<le> length buf" "23 \<le> n" by (simp_all add: buf_def n_def)
  have "lr_lease_id r = None" if "lr_flags r AND HAS_LEASE = 0" using assms that by (simp add: legacy_wf_def)
  then have li: "(if lr_flags r AND HAS_LEASE \<noteq> 0 then Some (from_le_bytes (take 8 (drop n buf))) else None) = lr_lease_id r"
    using f(5) by (simp add: buf_def n_def)
  note f' = f [folded buf_def, folded n_def]
  show ?thesis
    unfolding buf_def [symmetric] WalRecord_deserialize_def f'(1,2) Let_def prod.case f'(3,4) n_def [symmetric] li
    using b l f'(6) by (auto split: if_splits)
qed

lemma legacy_nonempty: "WalRecord_serialize E r \<noteq> []"
  using legacy_length [of E r] by (cases "WalRecord_serialize E r") auto

lemma read_old_log:
  assumes "\<forall>r \<in> set rs. legacy_wf r"
  shows "read_old_records E (concat (map (WalRecord_serialize E) rs) @ rest) = rs @ read_old_records E rest"
  using assms
  by (induction rs)
    (simp_all add: read_old_records.simps [of E "WalRecord_serialize E _ @ _"] legacy_nonempty legacy_roundtrip)

lemma tool_scan_step:
  assumes "legacy_wf r" and "\<And>b. crc32c E b = crc32c_bitwise b"
  shows "tool_scan resync (WalRecord_serialize E r @ rest) =
    (let (rs, errors) = tool_scan resync rest in (r # rs, errors))"
proof -
  note f = legacy_fields [OF assms(1), of E rest]
  define buf where "buf = WalRecord_serialize E r @ rest"
  define n where "n = 23 + length (lr_key r) + length (lr_value r)"
  have l: "length (WalRecord_serialize E r) = (if lr_flags r AND HAS_LEASE \<noteq> 0 then n + 8 else n)"
    by (simp add: legacy_length length_lease_bytes [OF assms(1)] n_def)
  have b: "length (WalRecord_serialize E r) \<le> length buf" "23 \<le> n" by (simp_all add: buf_def n_def)
  have "lr_lease_id r = None" if "lr_flags r AND HAS_LEASE = 0" using assms that by (simp add: legacy_wf_def)
  then have li: "(if lr_flags r AND HAS_LEASE \<noteq> 0 then Some (from_le_bytes (take 8 (drop n buf))) else None) = lr_lease_id r"
    using f(5) by (simp add: buf_def n_def)
  note f' = f [folded buf_def, folded n_def]
  have c: "crc32c_bitwise (drop 22 (take (if lr_flags r AND HAS_LEASE \<noteq> 0 then n + 8 else n) buf)) = crc32c E (legacy_payload r)"
    using f'(6) assms(2) by (simp add: l [symmetric])
  have g: "\<not> length buf < 23" "\<not> n > length buf" "\<not> (lr_flags r AND HAS_LEASE \<noteq> 0 \<and> n + 8 > length buf)"
    using b l by (auto split: if_splits)
  show ?thesis
    unfolding buf_def [symmetric] tool_scan.simps [of resync buf] f'(1,2) Let_def prod.case f'(3,4) n_def [symmetric] li
    using g c f'(7) l by (cases "lr_flags r AND HAS_LEASE = 0") (simp_all split: prod.splits)
qed

lemma tool_scan_log:
  assumes "\<forall>r \<in> set rs. legacy_wf r" and "\<And>b. crc32c E b = crc32c_bitwise b"
  shows "tool_scan resync (concat (map (WalRecord_serialize E) rs) @ rest) =
    (let (rs', errors) = tool_scan resync rest in (rs @ rs', errors))"
  using assms(1) by (induction rs) (simp_all add: tool_scan_step [OF _ assms(2)] split: prod.splits)

section \<open>The key space of a legacy log\<close>

definition legacy_spec :: "(bytes \<Rightarrow> abs_kv option) \<Rightarrow> wal_record \<Rightarrow> bytes \<Rightarrow> abs_kv option" where
  "legacy_spec m r =
     (if lr_flags r AND DELETED \<noteq> 0 then spec_delete {lr_key r} m
      else spec_put (lr_key r) (lr_value r) (old_lease r) (lr_revision r) m)"

definition legacy_view :: "wal_record list \<Rightarrow> bytes \<Rightarrow> abs_kv option" where
  "legacy_view rs = foldl legacy_spec (\<lambda>_. None) rs"

text \<open>Records that fit the current format, with the revisions of each key in order.\<close>

definition migratable :: "u64 \<Rightarrow> wal_record list \<Rightarrow> bool" where
  "migratable N rs \<longleftrightarrow>
     (\<forall>r \<in> set rs. legacy_wf r \<and> fits (lr_key r) (lr_value r) \<and> 0 < lr_revision r \<and> lr_revision r < N)
     \<and> sorted_wrt (\<lambda>a b. lr_key a = lr_key b \<longrightarrow> lr_revision a \<le> lr_revision b) rs"

fun migrated :: "libs \<Rightarrow> wal_record list \<Rightarrow> migrate_state \<Rightarrow> kv_wal_record list" where
  "migrated E [] state = []"
| "migrated E (r # rs) state =
     (let (kv, state) = migrate_record E r state in kv # migrated E rs state)"

definition state_fits :: "migrate_state \<Rightarrow> bool" where
  "state_fits state \<longleftrightarrow> bt_ok state \<and> (\<forall>k cr v val l. bt_get state k = Some (cr, v, val, l) \<longrightarrow> fits k val)"

lemma migrate_record_facts:
  assumes "libs_ok E" and "state_fits state" and "fits (lr_key r) (lr_value r)"
    and "0 < lr_revision r" and "lr_revision r < N"
    and "migrate_record E r state = (kv, state')"
  shows "rec_made E N kv \<and> rec_key kv = Some (lr_key r) \<and> rec_rev kv = lr_revision r
    \<and> rec_spec E m kv = legacy_spec m r \<and> state_fits state'"
proof -
  have "fits (lr_key r) []" using assms(3) by (simp add: fits_def)
  moreover have "fits (lr_key r) val" if "bt_get state (lr_key r) = Some (cr, v, val, l)" for cr v val l
    using assms(2) that by (simp add: state_fits_def)
  ultimately obtain flags val cr ver l where kv: "fits (lr_key r) val"
    "kv = KvWalRecord_new E flags (lr_key r) val cr (lr_revision r) ver l"
    "flags AND DELETED \<noteq> 0 \<longleftrightarrow> lr_flags r AND DELETED \<noteq> 0"
    "lr_flags r AND DELETED = 0 \<Longrightarrow> val = lr_value r \<and> l = old_lease r"
    using assms(3,6)
    by (auto simp: migrate_record_def Let_def flag_defs split: if_splits option.splits prod.splits)
  have "rec_made E N kv" unfolding rec_made_def using kv(1,2) assms(4,5) by blast
  moreover have "rec_key kv = Some (lr_key r)" "rec_rev kv = lr_revision r" "rec_spec E m kv = legacy_spec m r"
    using rec_new_facts [OF assms(1) kv(1)] kv(2-4) by (auto simp: legacy_spec_def)
  moreover have "state_fits state'"
    using assms(2,3,6)
    by (auto simp: migrate_record_def Let_def state_fits_def bt.ok_insert bt.ok_remove bt.get_insert bt.get_remove
        split: if_splits option.splits prod.splits)
  ultimately show ?thesis by blast
qed

lemma legacy_header_take: "23 \<le> n \<Longrightarrow> legacy_header (take n d) = legacy_header d"
  by (simp add: legacy_header_def drop_take min_def)

lemma torn_fields:
  assumes "legacy_wf r" and "n < length (WalRecord_serialize E r)" and "23 \<le> n"
  shows "legacy_header (take n (WalRecord_serialize E r)) =
      (lr_revision r, crc32c E (legacy_payload r), length (lr_key r), length (lr_value r), lr_flags r)"
    and "from_le_bytes [take n (WalRecord_serialize E r) ! 0, take n (WalRecord_serialize E r) ! 1] = MAGIC"
    and "n < 23 + length (lr_key r) + length (lr_value r)
      \<or> lr_flags r AND HAS_LEASE \<noteq> 0 \<and> n < 23 + length (lr_key r) + length (lr_value r) + 8"
  using legacy_fields(1,2) [OF assms(1), of E "[]", unfolded append_Nil2] legacy_header_take [OF assms(3)] assms(2,3)
  by (auto simp: legacy_length length_lease_bytes [OF assms(1)] split: if_splits)

lemma legacy_torn:
  assumes "legacy_wf r" and "n < length (WalRecord_serialize E r)"
  shows "\<exists>e. WalRecord_deserialize E (take n (WalRecord_serialize E r)) = Inl (UnexpectedEof e)"
proof (cases "n < 23")
  case False
  then have "23 \<le> n" by simp
  note t = torn_fields [OF assms this]
  have "length (take n (WalRecord_serialize E r)) = n" using assms(2) by simp
  then show ?thesis
    unfolding WalRecord_deserialize_def t(1,2) Let_def prod.case using t(3) False by auto
qed (use assms(2) in \<open>simp add: WalRecord_deserialize_def\<close>)

lemma read_old_torn:
  assumes "legacy_wf r" and "n < length (WalRecord_serialize E r)"
  shows "read_old_records E (take n (WalRecord_serialize E r)) = []"
  using legacy_torn [OF assms] by (auto simp: read_old_records.simps [of E "take n _"])

lemma migrated_facts:
  assumes "libs_ok E" and "state_fits state"
    and "\<forall>r \<in> set rs. fits (lr_key r) (lr_value r) \<and> 0 < lr_revision r \<and> lr_revision r < N"
  shows "list_all2 (\<lambda>kv r. rec_made E N kv \<and> rec_key kv = Some (lr_key r) \<and> rec_rev kv = lr_revision r)
      (migrated E rs state) rs
    \<and> foldl (rec_spec E) m (migrated E rs state) = foldl legacy_spec m rs"
  using assms(2,3)
proof (induction rs arbitrary: state m)
  case (Cons r rs)
  obtain kv state' where kv: "migrate_record E r state = (kv, state')" by fastforce
  have "fits (lr_key r) (lr_value r)" "0 < lr_revision r" "lr_revision r < N" using Cons.prems(2) by simp_all
  note F = migrate_record_facts [OF assms(1) Cons.prems(1) this kv]
  show ?case using F [of m] Cons.IH [of state' "legacy_spec m r"] Cons.prems(2) kv by simp
qed simp

lemma sorted_wrt_all2:
  assumes "list_all2 (\<lambda>x y. g x = h y) xs ys" and "sorted_wrt (\<lambda>a b. Q (h a) (h b)) ys"
  shows "sorted_wrt (\<lambda>a b. Q (g a) (g b)) xs"
proof -
  from assms(1) have "map g xs = map h ys" by (induction rule: list_all2_induct) auto
  then show ?thesis using assms(2) sorted_wrt_map [of Q g xs] sorted_wrt_map [of Q h ys] by simp
qed

lemma migrated_log_ok:
  assumes "libs_ok E" and "migratable N rs"
  shows "log_ok E N (migrated E rs []) \<and> replay_spec E (migrated E rs []) = legacy_view rs"
proof -
  have "state_fits []" by (simp add: state_fits_def bt.ok_empty bt.get_empty)
  note F = migrated_facts [OF assms(1) this, of rs N "\<lambda>_. None"]
  have B: "\<forall>r \<in> set rs. fits (lr_key r) (lr_value r) \<and> 0 < lr_revision r \<and> lr_revision r < N"
    using assms(2) by (simp add: migratable_def)
  have made: "\<forall>kv \<in> set (migrated E rs []). rec_made E N kv"
    using F [OF B] by (auto simp: list_all2_conv_all_nth in_set_conv_nth)
  have all2: "list_all2 (\<lambda>kv r. (rec_key kv, rec_rev kv) = (Some (lr_key r), lr_revision r)) (migrated E rs []) rs"
    using F [OF B] by (auto elim: list_all2_mono)
  have "sorted_wrt (\<lambda>a b. lr_key a = lr_key b \<longrightarrow> lr_revision a \<le> lr_revision b) rs"
    using assms(2) by (simp add: migratable_def)
  then have "revs_ok (migrated E rs [])"
    unfolding revs_ok_def using sorted_wrt_all2 [OF all2, of "\<lambda>p q. fst p = fst q \<longrightarrow> snd p \<le> snd q"] by simp
  then show ?thesis using made F [OF B] by (simp add: log_ok_def replay_spec_def legacy_view_def)
qed

lemma migrate_loop_ok:
  assumes "wf_faults wal = []"
  shows "\<exists>wal'. migrate_loop E rs state wal = (Inr (), wal')
    \<and> wf_content wal' = wf_content wal @ log_bytes (migrated E rs state)"
  using assms
proof (induction rs arbitrary: state wal)
  case (Cons r rs)
  obtain kv state' where kv: "migrate_record E r state = (kv, state')" by fastforce
  have "wf_faults (wal\<lparr>wf_content := wf_content wal @ serialize kv, wf_dirty := True\<rparr>) = []"
    using Cons.prems by simp
  from Cons.IH [OF this, of state'] show ?case using Cons.prems kv by (auto simp: append_kv_def write_all_def Let_def)
qed simp

text \<open>The state of the migration agrees with the key space of the records read so far.\<close>

definition migrate_tracks :: "migrate_state \<Rightarrow> (bytes \<Rightarrow> abs_kv option) \<Rightarrow> bool" where
  "migrate_tracks state m \<longleftrightarrow> bt_ok state
     \<and> (\<forall>k. bt_get state k = map_option (\<lambda>v. (a_create v, a_version v, a_value v, a_lease v)) (m k))"

lemma migrate_record_exact:
  assumes "libs_ok E" and "state_fits state" and "fits (lr_key r) (lr_value r)" and "migrate_tracks state m"
    and "migrate_record E r state = (kv, state')"
  shows "rec_exact E m kv \<and> migrate_tracks state' (legacy_spec m r)"
proof -
  have ok: "bt_ok state" and g: "\<And>k. bt_get state k = map_option (\<lambda>v. (a_create v, a_version v, a_value v, a_lease v)) (m k)"
    using assms(4) by (simp_all add: migrate_tracks_def)
  have f0: "fits (lr_key r) []" using assms(3) by (simp add: fits_def)
  have fs: "fits (lr_key r) val" if "bt_get state (lr_key r) = Some (cr, v, val, l)" for cr v val l
    using assms(2) that by (simp add: state_fits_def)
  have "rec_exact E m kv"
    using assms(5) fs g [of "lr_key r"] f0
    by (auto simp: migrate_record_def Let_def rec_exact_def rec_fields_new blob_of_def flag_defs spec_put_def
        rec_new_facts [OF assms(1)] rec_new_facts(6) [OF assms(1,3)] assms(3)
        split: if_splits option.splits prod.splits)
  moreover have "migrate_tracks state' (legacy_spec m r)"
    using assms(5) ok g
    by (auto simp: migrate_record_def Let_def migrate_tracks_def legacy_spec_def spec_put_def spec_delete_def
        restrict_map_def bt.ok_insert bt.ok_remove bt.get_insert bt.get_remove
        split: if_splits option.splits prod.splits)
  ultimately show ?thesis by simp
qed

lemma migrated_exact:
  assumes "libs_ok E" and "state_fits state" and "migrate_tracks state m"
    and "\<forall>r \<in> set rs. fits (lr_key r) (lr_value r) \<and> 0 < lr_revision r \<and> lr_revision r < N"
  shows "exact_log E m (migrated E rs state)"
  using assms(2-)
proof (induction rs arbitrary: state m)
  case (Cons r rs)
  obtain kv state' where kv: "migrate_record E r state = (kv, state')" by fastforce
  have r: "fits (lr_key r) (lr_value r)" "0 < lr_revision r" "lr_revision r < N" using Cons.prems(3) by simp_all
  note F = migrate_record_facts [OF assms(1) Cons.prems(1) r kv]
  note X = migrate_record_exact [OF assms(1) Cons.prems(1) r(1) Cons.prems(2) kv]
  show ?case using F [of m] X Cons.IH [of state' "legacy_spec m r"] Cons.prems(3) kv by simp
qed simp

text \<open>C13. Migration keeps the key space: from the bytes of any legacy log whose records fit the current
  format and keep the revisions of each key in order, also when the log ends in a torn record, the
  migration writes a file from which the server starts with exactly the keys, values, leases, revisions
  and versions that the legacy log denotes.  This holds for the rows of the store and for what reads return: the
  encoding of every key has its creation revision and version.  The file consists of one record for every legacy
  record, each of which encodes, after the records before it, the creation revision and version of its key.\<close>

theorem migrate_correct:
  assumes "libs_ok E" and "migratable N rs" and "legacy_wf r'" and "n < length (WalRecord_serialize E r')"
    and "now < 2 ^ 62 * 1000000000"
  shows "\<exists>wal kvs s. migrate E (WalFile_open path None [])
        (read_old_records E (concat (map (WalRecord_serialize E) rs) @ take n (WalRecord_serialize E r'))) = (Inr (), wal)
    \<and> wf_content wal = log_bytes kvs \<and> length kvs = length rs \<and> exact_log E (\<lambda>_. None) kvs
    \<and> open_store E path (Some (wf_content wal)) faults now = Inr (Ok s)
    \<and> store_ok s \<and> view_of s = legacy_view rs \<and> exact_blobs s"
proof -
  have "\<forall>r \<in> set rs. legacy_wf r" using assms(2) by (simp add: migratable_def)
  then have R: "read_old_records E (concat (map (WalRecord_serialize E) rs) @ take n (WalRecord_serialize E r')) = rs"
    using read_old_log read_old_torn [OF assms(3,4)] by simp
  obtain wal where W: "migrate E (WalFile_open path None []) rs = (Inr (), wal)"
    "wf_content wal = log_bytes (migrated E rs [])"
    using migrate_loop_ok [of "WalFile_open path None []" E rs "[]"] by (auto simp: migrate_def WalFile_open_def)
  have L: "log_ok E N (migrated E rs [])" "replay_spec E (migrated E rs []) = legacy_view rs"
    using migrated_log_ok [OF assms(1,2)] by simp_all
  have T: "\<forall>cur. scan_kv_loop E [] cur = ([], Inr cur)" by simp
  have X: "exact_log E (\<lambda>_. None) (migrated E rs [])"
    using assms(2) by (intro migrated_exact [OF assms(1), where N = N])
      (simp_all add: state_fits_def migrate_tracks_def bt.ok_empty bt.get_empty migratable_def)
  have "length (migrated E rs state) = length rs" for state
    by (induction rs arbitrary: state) (simp_all split: prod.splits)
  then show ?thesis using open_store_state [OF assms(1) L(1) T assms(5), of path faults] R W L(2) X
    by (intro exI [of _ wal] exI [of _ "migrated E rs []"]) auto
qed

definition demo_legacy :: wal_record where
  "demo_legacy = \<lparr>lr_revision = 5, lr_key = [1], lr_value = [2, 3], lr_flags = 6, lr_lease_id = Some 9\<rparr>"

lemma demo_migratable: "migratable 6 [demo_legacy]" "legacy_wf demo_legacy"
  by (simp_all add: migratable_def legacy_wf_def demo_legacy_def fits_def flag_defs)

lemma migrate_correct_witness:
  "\<exists>wal s. migrate ref_libs (WalFile_open ''wal'' None [])
       (read_old_records ref_libs (WalRecord_serialize ref_libs demo_legacy
          @ take 30 (WalRecord_serialize ref_libs demo_legacy))) = (Inr (), wal)
     \<and> open_store ref_libs ''wal'' (Some (wf_content wal)) [] 5 = Inr (Ok s)
     \<and> view_of s [1] = Some \<lparr>a_value = [2, 3], a_create = 5, a_mod = 5, a_version = 1, a_lease = 9\<rparr>"
proof -
  have "30 < length (WalRecord_serialize ref_libs demo_legacy)"
    by (simp add: legacy_length lease_bytes_def demo_legacy_def)
  moreover have "legacy_view [demo_legacy] [1] =
      Some \<lparr>a_value = [2, 3], a_create = 5, a_mod = 5, a_version = 1, a_lease = 9\<rparr>"
    by (simp add: legacy_view_def legacy_spec_def demo_legacy_def spec_put_def old_lease_def flag_defs)
  ultimately show ?thesis
    using migrate_correct [OF libs_ok_ref demo_migratable, of 30 5 "''wal''" "[]"] by auto
qed

section \<open>The tools agree with the log\<close>

text \<open>The tools carry their own bitwise CRC-32C; the crate computes the same function.\<close>

definition crc_standard :: "libs \<Rightarrow> bool" where
  "crc_standard E \<longleftrightarrow> (\<forall>b. crc32c E b = crc32c_bitwise b)"

lemma crc_standard_ref: "crc_standard ref_libs"
  by (simp add: crc_standard_def crc32c_def ref_libs_def)

definition tool_core :: "tool_key_state \<Rightarrow> bytes \<times> u64 \<times> u64" where
  "tool_core ks = (tk_value ks, tk_mod_revision ks, tk_version ks)"

definition abs_core :: "abs_kv \<Rightarrow> bytes \<times> u64 \<times> i64" where
  "abs_core v = (a_value v, a_mod v, a_version v)"

lemma reconstruct_step_correct:
  assumes "bt_ok keys" and "\<And>k. map_option tool_core (bt_get keys k) = map_option abs_core (m k)"
  shows "bt_ok (reconstruct_step (entry_of r) keys)
    \<and> map_option tool_core (bt_get (reconstruct_step (entry_of r) keys) k) = map_option abs_core (legacy_spec m r k)"
  using assms(1) assms(2) [of k] assms(2) [of "lr_key r"]
  by (auto simp: reconstruct_step_def entry_of_def legacy_spec_def Let_def spec_put_def spec_delete_def restrict_map_def
      tool_core_def abs_core_def DELETED_def bt.ok_insert bt.ok_remove bt.get_insert bt.get_remove split: option.splits)

lemma reconstruct_foldl: "reconstruct (map entry_of rs) = foldl (\<lambda>keys r. reconstruct_step (entry_of r) keys) [] rs"
  by (simp add: reconstruct_def fold_map foldl_conv_fold comp_def)

lemma reconstruct_correct:
  "bt_ok (reconstruct (map entry_of rs))
     \<and> map_option tool_core (bt_get (reconstruct (map entry_of rs)) k) = map_option abs_core (legacy_view rs k)"
proof (induction rs arbitrary: k rule: rev_induct)
  case Nil
  then show ?case by (simp add: reconstruct_def legacy_view_def bt.get_empty)
next
  case (snoc r rs)
  then show ?case
    using reconstruct_step_correct [of "reconstruct (map entry_of rs)" "legacy_view rs" r k]
    by (simp add: reconstruct_foldl legacy_view_def del: map_append)
qed

lemma tool_scan_torn:
  assumes "legacy_wf r" and "n < length (WalRecord_serialize E r)"
  shows "tool_scan resync (take n (WalRecord_serialize E r)) = ([], 0)"
proof (cases "n < 23")
  case True
  then have "length (take n (WalRecord_serialize E r)) < 23" by simp
  then show ?thesis by (subst tool_scan.simps) (simp only: if_True)
next
  case False
  then have "23 \<le> n" by simp
  note t = torn_fields [OF assms this]
  have "length (take n (WalRecord_serialize E r)) = n" using assms(2) by simp
  then show ?thesis
    unfolding tool_scan.simps [of resync "take n _"] t(1,2) Let_def prod.case using t(3) False by auto
qed

lemma tool_scan_log_torn:
  assumes "crc_standard E" and "\<forall>r \<in> set rs. legacy_wf r" and "legacy_wf r'" and "n < length (WalRecord_serialize E r')"
  shows "tool_scan resync (concat (map (WalRecord_serialize E) rs) @ take n (WalRecord_serialize E r')) = (rs, 0)"
  using tool_scan_log [OF assms(2), of E resync] assms(1) tool_scan_torn [OF assms(3,4)]
  by (simp add: crc_standard_def)

text \<open>On a legacy log, also one that ends in a torn record, the three tools read exactly the records of the
  log, and the state they reconstruct is the one it denotes.\<close>

theorem tools_reconstruct:
  assumes "crc_standard E" and "\<forall>r \<in> set rs. legacy_wf r" and "legacy_wf r'" and "n < length (WalRecord_serialize E r')"
    and "buf = concat (map (WalRecord_serialize E) rs) @ take n (WalRecord_serialize E r')"
  shows "waldoctor_scan buf = (rs, 0, length rs)
    \<and> walverify_scan buf = (map entry_of rs, length rs, 0)
    \<and> walrecover_scan buf = (map entry_of rs, length rs)
    \<and> map_option tool_core (bt_get (reconstruct (map entry_of rs)) k) = map_option abs_core (legacy_view rs k)"
  using tool_scan_log_torn [OF assms(1-4)] reconstruct_correct [of rs k]
  by (simp_all add: assms(5) waldoctor_scan_def walverify_scan_def walrecover_scan_def)

section \<open>The recovery tool\<close>

definition recovered_record :: "bytes \<times> tool_key_state \<Rightarrow> wal_record" where
  "recovered_record e = \<lparr>lr_revision = tk_mod_revision (snd e), lr_key = fst e, lr_value = tk_value (snd e),
     lr_flags = IS_CREATE, lr_lease_id = None\<rparr>"

lemma recover_entry_eq: "crc_standard E \<Longrightarrow> recover_entry e = WalRecord_serialize E (recovered_record e)"
  by (simp add: recover_entry_def recovered_record_def WalRecord_serialize_def Let_def crc_standard_def split: prod.splits)

lemma write_wal_eq: "write_wal es = concat (map (WalRecord_serialize ref_libs) (map recovered_record es))"
  by (simp add: write_wal_def recover_entry_eq [OF crc_standard_ref, abs_def] comp_def)

text \<open>Whatever the input, the lengths of the scanned keys and values fit their fields.\<close>

definition entry_fits :: "wal_record \<Rightarrow> bool" where
  "entry_fits r \<longleftrightarrow> length (lr_key r) < 2 ^ 32 \<and> length (lr_value r) < 2 ^ 32"

lemma unat_u32_take: "length (take (unat (w :: u32)) xs) < 2 ^ 32"
proof -
  have "unat w < 2 ^ LENGTH(32)" by (rule unsigned_less)
  then show ?thesis by simp
qed

lemma tool_scan_fits: "list_all entry_fits (fst (tool_scan resync buf))"
proof (induction buf rule: length_induct)
  case (1 buf)
  obtain rv crc kl vl fl where h: "legacy_header buf = (rv, crc, kl, vl, fl)" by (metis prod_cases5)
  then have t: "length (take kl xs) < 2 ^ 32 \<and> length (take vl xs) < 2 ^ 32" for xs :: bytes
    using unat_u32_take by (auto simp: legacy_header_def)
  have IH: "list_all entry_fits (fst (tool_scan resync (drop n buf)))" if "0 < n" "23 \<le> length buf" for n
  proof -
    have "length (drop n buf) < length buf" using that by simp
    with 1 show ?thesis by blast
  qed
  have u: "entry_fits \<lparr>lr_revision = rv, lr_key = take kl xs, lr_value = take vl ys, lr_flags = fl, lr_lease_id = l\<rparr>" for xs ys l
    using t by (simp add: entry_fits_def)
  show ?case
    unfolding tool_scan.simps [of resync buf] h Let_def prod.case split_beta
    by (simp add: IH u)
qed

definition keys_fit :: "(bytes, tool_key_state) btree \<Rightarrow> bool" where
  "keys_fit keys \<longleftrightarrow> bt_ok keys
     \<and> (\<forall>k ks. bt_get keys k = Some ks \<longrightarrow> length k < 2 ^ 32 \<and> length (tk_value ks) < 2 ^ 32)"

lemma reconstruct_fits:
  "list_all entry_fits rs \<Longrightarrow> keys_fit (reconstruct (map entry_of rs))"
proof (induction rs rule: rev_induct)
  case Nil
  then show ?case by (simp add: keys_fit_def reconstruct_def bt.get_empty)
next
  case (snoc r rs)
  then have "keys_fit (reconstruct (map entry_of rs))" "entry_fits r" by simp_all
  then show ?case
    unfolding reconstruct_foldl
    by (auto simp: keys_fit_def entry_fits_def reconstruct_step_def entry_of_def Let_def
        bt.ok_insert bt.ok_remove bt.get_insert bt.get_remove split: if_splits)
qed

lemma reconstruct_recovered:
  assumes "distinct (map fst es)"
  shows "bt_get (reconstruct (map (entry_of \<circ> recovered_record) es)) k =
    map_option (\<lambda>ks. ks\<lparr>tk_create_revision := tk_mod_revision ks, tk_version := 1\<rparr>) (map_of es k)"
  using assms
proof (induction es arbitrary: k rule: rev_induct)
  case Nil
  then show ?case by (simp add: reconstruct_def bt.get_empty)
next
  case (snoc e es)
  define K where "K = reconstruct (map (entry_of \<circ> recovered_record) es)"
  have step: "reconstruct (map (entry_of \<circ> recovered_record) (es @ [e])) = reconstruct_step (entry_of (recovered_record e)) K"
    by (simp add: reconstruct_def K_def)
  have IH: "bt_get K k = map_option (\<lambda>ks. ks\<lparr>tk_create_revision := tk_mod_revision ks, tk_version := 1\<rparr>) (map_of es k)" for k
    using snoc by (simp add: K_def comp_def)
  have "map_of es (fst e) = None" using snoc.prems by (simp add: map_of_eq_None_iff)
  then show ?case
    unfolding step by (cases e) (auto simp: IH reconstruct_step_def entry_of_def recovered_record_def Let_def IS_CREATE_def
        bt_get_insert map_add_def split: option.splits)
qed

lemma walrecover_reads_back:
  fixes input :: bytes
  defines "keys \<equiv> reconstruct (fst (walrecover_scan input))"
  shows "walrecover_scan (walrecover input) = (map (entry_of \<circ> recovered_record) (bt_iter keys), length (bt_iter keys))"
    and "keys_fit keys"
proof -
  define rs where "rs = fst (tool_scan False input)"
  have k: "keys = reconstruct (map entry_of rs)"
    by (simp add: keys_def rs_def walrecover_scan_def split: prod.splits)
  show f: "keys_fit keys" using reconstruct_fits tool_scan_fits by (simp add: k rs_def)
  have w: "\<forall>r \<in> set (map recovered_record (bt_iter keys)). legacy_wf r"
    using f bt.iter_get [of keys] by (auto simp: keys_fit_def legacy_wf_def recovered_record_def flag_defs)
  have "tool_scan False (walrecover input) = (map recovered_record (bt_iter keys), 0)"
    using tool_scan_log [OF w, of ref_libs False "[]"] crc_standard_ref
    by (simp add: walrecover_def write_wal_eq keys_def [symmetric] crc_standard_def tool_scan.simps [of False "[]"])
  then show "walrecover_scan (walrecover input) = (map (entry_of \<circ> recovered_record) (bt_iter keys), length (bt_iter keys))"
    by (simp add: walrecover_scan_def)
qed

text \<open>The recovery tool, on any input however damaged: its output is a legacy log with one record per key that it
  reconstructed, and reading the output back gives exactly those keys with their values and modification
  revisions, the history folded into a first version.\<close>

theorem walrecover_roundtrip:
  "snd (walrecover_scan (walrecover input)) = length (reconstruct (fst (walrecover_scan input)))
   \<and> bt_get (reconstruct (fst (walrecover_scan (walrecover input)))) k =
       map_option (\<lambda>ks. ks\<lparr>tk_create_revision := tk_mod_revision ks, tk_version := 1\<rparr>)
         (bt_get (reconstruct (fst (walrecover_scan input))) k)"
proof -
  let ?keys = "reconstruct (fst (walrecover_scan input))"
  have "bt_ok ?keys" using walrecover_reads_back(2) [of input] by (simp add: keys_fit_def)
  from bt.distinct_keys [OF this] have "distinct (map fst (bt_iter ?keys))" .
  from reconstruct_recovered [OF this, of k] show ?thesis
    by (simp add: walrecover_reads_back(1)) (simp add: bt_get_def bt_iter_def)
qed

lemma scan_zero_len:
  assumes "9 \<le> length buf" and "buf ! 5 = 0" "buf ! 6 = 0" "buf ! 7 = 0" "buf ! 8 = 0"
  shows "scan_kv_loop E buf cur = ([], Inl (InvalidData ''rec_len too small''))"
proof -
  have "unat (from_le_bytes [take 9 buf ! 5, take 9 buf ! 6, take 9 buf ! 7, take 9 buf ! 8] :: u32) = 0"
    using assms by (simp add: from_le_bytes.simps)
  then show ?thesis using assms(1) unfolding scan_kv_loop.simps [of E buf] Let_def size_defs by simp
qed

lemma scan_legacy:
  assumes "lr_revision r < 2 ^ 24"
  shows "scan_kv_loop E (WalRecord_serialize E' r @ rest) cur = ([], Inl (InvalidData ''rec_len too small''))"
proof -
  let ?buf = "WalRecord_serialize E' r @ rest"
  have z: "drop_bit n (lr_revision r) = 0" if "24 \<le> n" for n
  proof -
    have "unat (lr_revision r) < 2 ^ 24" using assms by (simp add: word_less_nat_alt)
    also have "(2::nat) ^ 24 \<le> 2 ^ n" using that by (rule power_increasing) simp
    finally have "unat (drop_bit n (lr_revision r)) = 0" by (subst unat_drop_bit_eq) (simp add: drop_bit_eq_div)
    then show ?thesis by (simp add: unat_eq_zero)
  qed
  have "length ?buf \<ge> 23" using legacy_length [of E' r] by simp
  moreover have "?buf ! 5 = 0" "?buf ! 6 = 0" "?buf ! 7 = 0" "?buf ! 8 = 0"
    using z by (simp_all add: WalRecord_serialize_eq nth_append to_le_bytes_def)
  ultimately show ?thesis by (intro scan_zero_len) simp_all
qed

text \<open>C37. The output of the recovery tool is in the legacy format, and the server does not start from it: whenever the
  first recovered key was last modified at a revision below \<open>2\<^sup>2\<^sup>4\<close>, opening the file fails.  (The tool's
  documentation says that its output can be loaded.)\<close>

theorem walrecover_not_loadable:
  assumes "bt_iter (reconstruct (fst (walrecover_scan input))) = (key, ks) # es"
    and "tk_mod_revision ks < 2 ^ 24"
  shows "open_store E path (Some (walrecover input)) faults now = Inl (InvalidData ''rec_len too small'')"
proof -
  have "walrecover input = WalRecord_serialize ref_libs (recovered_record (key, ks)) @ write_wal es"
    by (simp add: walrecover_def assms(1) write_wal_eq)
  moreover have "lr_revision (recovered_record (key, ks)) < 2 ^ 24" using assms(2) by (simp add: recovered_record_def)
  ultimately show ?thesis
    by (simp add: open_store_def Let_def scan_kv_collect_def scan_kv_def scan_kv_file_def WalFile_open_def scan_legacy)
qed

lemma walrecover_not_loadable_witness:
  "open_store ref_libs ''wal'' (Some (walrecover (WalRecord_serialize ref_libs demo_legacy))) [] 5 =
     Inl (InvalidData ''rec_len too small'')"
proof -
  have "fst (walrecover_scan (WalRecord_serialize ref_libs demo_legacy)) = [entry_of demo_legacy]"
    using tool_scan_step [OF demo_migratable(2), of ref_libs False "[]"] crc_standard_ref
    by (simp add: walrecover_scan_def crc_standard_def tool_scan.simps [of False "[]"])
  then have "bt_iter (reconstruct (fst (walrecover_scan (WalRecord_serialize ref_libs demo_legacy)))) =
      [([1], \<lparr>tk_value = [2, 3], tk_create_revision = 5, tk_mod_revision = 5, tk_version = 1\<rparr>)]"
    by (simp add: reconstruct_def reconstruct_step_def entry_of_def demo_legacy_def Let_def bt_get_def bt_iter_def)
  from walrecover_not_loadable [OF this] show ?thesis by simp
qed

end
