(* ===== verification/Log_Verifier.thy ===== *)
theory Log_Verifier
  imports Recovery Text "HOL-Library.Char_ord"
begin

text \<open>
  The verifier of current logs (\<^verbatim>\<open>src/bin/walverify_new.rs\<close>): it scans a log, checks every record again,
  reconstructs the keys and counts them by category.  On a log the store wrote, it reports no error
  and the revisions and versions that start-up would give.
\<close>

section \<open>Categories of keys\<close>

text \<open>The tests of the tool on the bytes of the decoded key, in their order.\<close>

definition category_rules :: "(string \<times> string) list" where
  "category_rules =
     [(''/bootstrap/'', ''bootstrap''),
      (''/registry/namespaces/'', ''namespace''),
      (''/registry/pods/'', ''pod''),
      (''/registry/deployments/'', ''deployment''),
      (''/registry/statefulsets/'', ''statefulset''),
      (''/registry/daemonsets/'', ''daemonset''),
      (''/registry/services/endpoints/'', ''endpoint''),
      (''/registry/services/specs/'', ''service''),
      (''/registry/configmaps/'', ''configmap''),
      (''/registry/secrets/'', ''secret''),
      (''/registry/serviceaccounts/'', ''serviceaccount''),
      (''/registry/persistentvolumeclaims/'', ''pvc''),
      (''/registry/persistentvolumes/'', ''pv''),
      (''/registry/nodes/'', ''node''), (''/registry/minions/'', ''node''),
      (''/registry/leases/'', ''lease''),
      (''/registry/events/'', ''event''),
      (''/registry/rbac/'', ''rbac''),
      (''/registry/clusterroles/'', ''clusterrole''),
      (''/registry/roles/'', ''role''),
      (''/registry/rolebindings/'', ''rolebinding''),
      (''/registry/clusterrolebindings/'', ''clusterrolebinding''),
      (''/registry/cronjobs/'', ''cronjob''),
      (''/registry/apiextensions.k8s.io/'', ''crd''),
      (''/registry/masterleases/'', ''masterlease''),
      (''/registry/peerserverleases/'', ''peerserverlease''),
      (''/registry/ranges/'', ''range''),
      (''/registry/'', ''other_registry'')]"

definition category :: "bytes \<Rightarrow> string" where
  "category key =
     (case List.find (\<lambda>rule. prefix (ascii (fst rule)) key) category_rules of
        Some rule \<Rightarrow> snd rule | None \<Rightarrow> ''other'')"

text \<open>Splitting a string at a non-empty pattern, on its bytes: the first occurrence, and all pieces
  between the occurrences.\<close>

fun split_once :: "bytes \<Rightarrow> bytes \<Rightarrow> (bytes \<times> bytes) option" where
  "split_once pat [] = (if pat = [] then Some ([], []) else None)"
| "split_once pat (c # cs) =
     (if prefix pat (c # cs) then Some ([], drop (length pat) (c # cs))
      else map_option (\<lambda>(before, after). (c # before, after)) (split_once pat cs))"

lemma split_once_Some: "split_once pat s = Some (before, after) \<Longrightarrow> s = before @ pat @ after"
  by (induction pat s arbitrary: before rule: split_once.induct) (auto simp: prefix_def split: if_splits)

function str_split :: "bytes \<Rightarrow> bytes \<Rightarrow> bytes list" where
  "str_split pat s =
     (case split_once pat s of
        Some (before, after) \<Rightarrow> if pat = [] then [s] else before # str_split pat after
      | None \<Rightarrow> [s])"
  by pat_completeness auto
termination
  by (relation "measure (\<lambda>(pat, s). length s)") (auto dest: split_once_Some)

declare str_split.simps [simp del]

text \<open>The name of a namespace: what stands behind the first name field of its decoded JSON value, up to the
  next quotation mark.\<close>

definition name_field :: bytes where
  "name_field = 0x22 # ascii ''name'' @ [0x22, 0x3A, 0x22]"

definition namespace_name :: "bytes \<Rightarrow> bytes" where
  "namespace_name val =
     (case str_split name_field (utf8_lossy val) of
        _ # piece # _ \<Rightarrow>
          (case str_split [0x22] piece of first # _ \<Rightarrow> first | [] \<Rightarrow> ascii ''?'')
      | _ \<Rightarrow> ascii ''?'')"

section \<open>The verification loop\<close>

record verify_key =
  vk_value :: bytes
  vk_create_revision :: i64
  vk_mod_revision :: i64
  vk_version :: i64

record verify_state =
  vs_crc_errors :: u64
  vs_kv_errors :: u64
  vs_max_rev :: i64
  vs_keys :: "(bytes, verify_key) btree"

definition verify_step :: "libs \<Rightarrow> kv_wal_record \<Rightarrow> verify_state \<Rightarrow> verify_state" where
  "verify_step E r st =
     (let st = (case deserialize E (serialize r) of
                  Inr _ \<Rightarrow> st
                | Inl _ \<Rightarrow> st\<lparr>vs_crc_errors := vs_crc_errors st + 1\<rparr>)
      in case rec_key r of
           None \<Rightarrow> st\<lparr>vs_kv_errors := vs_kv_errors st + 1\<rparr>
         | Some key \<Rightarrow>
             (case rec_mod_revision r of
                None \<Rightarrow> st\<lparr>vs_kv_errors := vs_kv_errors st + 1\<rparr>
              | Some mod_rev \<Rightarrow>
                  let st = (if sint mod_rev > sint (vs_max_rev st) then st\<lparr>vs_max_rev := mod_rev\<rparr> else st)
                  in if rec_flags r AND DELETED \<noteq> 0
                     then st\<lparr>vs_keys := bt_remove key (vs_keys st)\<rparr>
                     else
                       let entry = (case bt_get (vs_keys st) key of
                                      Some vk \<Rightarrow> vk
                                    | None \<Rightarrow> \<lparr>vk_value = [], vk_create_revision = mod_rev,
                                              vk_mod_revision = mod_rev, vk_version = 0\<rparr>);
                           entry = (if rec_flags r AND IS_CREATE \<noteq> 0
                                    then entry\<lparr>vk_create_revision := mod_rev\<rparr> else entry);
                           entry = entry\<lparr>vk_mod_revision := mod_rev, vk_version := vk_version entry + 1\<rparr>
                       in st\<lparr>vs_keys := bt_insert key entry (vs_keys st)\<rparr>))"

definition count_category :: "bytes \<Rightarrow> (string, u64) btree \<Rightarrow> (string, u64) btree" where
  "count_category key cats =
     (let key_str = utf8_lossy key;
          n = (case bt_get cats (category key_str) of Some n \<Rightarrow> n | None \<Rightarrow> 0)
      in bt_insert (category key_str) (n + 1) cats)"

definition expected_prefixes :: "string list" where
  "expected_prefixes =
     [''/registry/namespaces/kube-system'', ''/registry/namespaces/default'',
      ''/registry/namespaces/kube-public'', ''/registry/namespaces/kube-node-lease'',
      ''/registry/serviceaccounts/kube-system/default'', ''/registry/clusterroles/admin'',
      ''/registry/clusterroles/edit'', ''/registry/clusterroles/view'']"

text \<open>What the tool reports: the number of records, the counters and keys, the categories, which of the expected
  keys are present, and the revision and name of every namespace.\<close>

record verify_report =
  vr_total :: nat
  vr_state :: verify_state
  vr_categories :: "(string, u64) btree"
  vr_found :: "bool list"
  vr_namespaces :: "(i64 \<times> bytes) list"

definition walverify_new :: "libs \<Rightarrow> string \<Rightarrow> bytes \<Rightarrow> io_error + verify_report" where
  "walverify_new E path content =
     (case scan_kv_collect E (WalFile_open path (Some content) []) of
        Inl e \<Rightarrow> Inl e
      | Inr records \<Rightarrow>
          let st = fold (verify_step E) records
                     \<lparr>vs_crc_errors = 0, vs_kv_errors = 0, vs_max_rev = 0, vs_keys = []\<rparr>;
              keys = map fst (bt_iter (vs_keys st));
              cats = fold count_category keys [];
              found = map (\<lambda>p. list_ex (\<lambda>k. prefix (ascii p) (utf8_lossy k)) keys) expected_prefixes;
              names = map (\<lambda>(k, ks). (vk_mod_revision ks, namespace_name (vk_value ks)))
                        (filter (\<lambda>(k, ks). category (utf8_lossy k) = ''namespace'') (bt_iter (vs_keys st)))
          in Inr \<lparr>vr_total = length records, vr_state = st, vr_categories = cats, vr_found = found,
                  vr_namespaces = names\<rparr>)"

section \<open>Lemmas\<close>

text \<open>What the tool reconstructs of a key, and the same of an entry of the store: the tool never records a value.\<close>

definition vk_core :: "verify_key \<Rightarrow> bytes \<times> i64 \<times> i64" where
  "vk_core vk = (vk_value vk, vk_mod_revision vk, vk_version vk)"

definition kv_core :: "abs_kv \<Rightarrow> bytes \<times> u64 \<times> i64" where
  "kv_core v = ([], a_mod v, a_version v)"

definition verified :: "libs \<Rightarrow> kv_wal_record list \<Rightarrow> verify_state \<Rightarrow> bool" where
  "verified E rs st \<longleftrightarrow> vs_crc_errors st = 0 \<and> vs_kv_errors st = 0 \<and> bt_ok (vs_keys st)
     \<and> sint (vs_max_rev st) = Max (insert 0 (set (map (\<lambda>r. sint (rec_rev r)) rs)))
     \<and> (\<forall>k. map_option vk_core (bt_get (vs_keys st) k) = map_option kv_core (replay_spec E rs k))"

lemma verify_step_fields:
  assumes "rec_key r = Some key" and "rec_mod_revision r = Some rv" and "deserialize E (serialize r) = Inr x"
  shows "vs_crc_errors (verify_step E r st) = vs_crc_errors st" "vs_kv_errors (verify_step E r st) = vs_kv_errors st"
    "sint (vs_max_rev (verify_step E r st)) = max (sint rv) (sint (vs_max_rev st))"
    "\<exists>cr. vs_keys (verify_step E r st) =
       (if rec_flags r AND DELETED \<noteq> 0 then bt_remove key (vs_keys st)
        else bt_insert key \<lparr>vk_value = (case bt_get (vs_keys st) key of Some vk \<Rightarrow> vk_value vk | None \<Rightarrow> []),
          vk_create_revision = cr, vk_mod_revision = rv,
          vk_version = (case bt_get (vs_keys st) key of Some vk \<Rightarrow> vk_version vk | None \<Rightarrow> 0) + 1\<rparr> (vs_keys st))"
proof -
  define e where "e = (case bt_get (vs_keys st) key of Some vk \<Rightarrow> vk
    | None \<Rightarrow> \<lparr>vk_value = [], vk_create_revision = rv, vk_mod_revision = rv, vk_version = 0\<rparr>)"
  define c where "c = (if rec_flags r AND IS_CREATE \<noteq> 0 then e\<lparr>vk_create_revision := rv\<rparr> else e)"
  define t where "t = (if sint rv > sint (vs_max_rev st) then st\<lparr>vs_max_rev := rv\<rparr> else st)"
  have t: "vs_keys t = vs_keys st" "vs_crc_errors t = vs_crc_errors st" "vs_kv_errors t = vs_kv_errors st"
    "sint (vs_max_rev t) = max (sint rv) (sint (vs_max_rev st))" by (simp_all add: t_def max_def)
  have s: "verify_step E r st = t\<lparr>vs_keys := (if rec_flags r AND DELETED \<noteq> 0 then bt_remove key (vs_keys st)
      else bt_insert key (c\<lparr>vk_mod_revision := rv, vk_version := vk_version c + 1\<rparr>) (vs_keys st))\<rparr>"
    unfolding verify_step_def assms option.case sum.case Let_def t_def [symmetric] t(1) e_def [symmetric]
      c_def [symmetric] by simp
  have v: "vk_version c = (case bt_get (vs_keys st) key of Some vk \<Rightarrow> vk_version vk | None \<Rightarrow> 0)"
    "vk_value c = (case bt_get (vs_keys st) key of Some vk \<Rightarrow> vk_value vk | None \<Rightarrow> [])"
    by (simp_all add: c_def e_def split: option.splits)
  show "vs_crc_errors (verify_step E r st) = vs_crc_errors st" "vs_kv_errors (verify_step E r st) = vs_kv_errors st"
    "sint (vs_max_rev (verify_step E r st)) = max (sint rv) (sint (vs_max_rev st))" by (simp_all add: s t)
  show "\<exists>cr. vs_keys (verify_step E r st) =
       (if rec_flags r AND DELETED \<noteq> 0 then bt_remove key (vs_keys st)
        else bt_insert key \<lparr>vk_value = (case bt_get (vs_keys st) key of Some vk \<Rightarrow> vk_value vk | None \<Rightarrow> []),
          vk_create_revision = cr, vk_mod_revision = rv,
          vk_version = (case bt_get (vs_keys st) key of Some vk \<Rightarrow> vk_version vk | None \<Rightarrow> 0) + 1\<rparr> (vs_keys st))"
    unfolding v [symmetric] s
    by (rule exI [of _ "vk_create_revision c"]) (cases c, simp)
qed

lemma verify_step_correct:
  assumes "libs_ok E" and "rec_made E N r" and "verified E rs st"
  shows "verified E (rs @ [r]) (verify_step E r st)"
proof -
  from assms(2) obtain flags key val cr rv ver lease where
    r: "r = KvWalRecord_new E flags key val cr rv ver lease" "fits key val" by (auto simp: rec_made_def)
  have f: "rec_key r = Some key" "rec_mod_revision r = Some rv" "rec_rev r = rv"
    "rec_spec E m r = (if flags AND DELETED \<noteq> 0 then spec_delete {key} m else spec_put key val lease rv m)" for m
    by (simp_all add: r(1) rec_new_facts [OF assms(1) r(2)])
  have fl: "rec_flags r = flags" by (simp add: r(1) rec_fields_new)
  have d: "deserialize E (serialize r) = Inr (r, length (serialize r))"
    using deserialize_serialize [OF rec_made_wf [OF assms(1,2)], of "[]"] by simp
  note s = verify_step_fields [OF f(1,2) d, of st]
  obtain c where k: "vs_keys (verify_step E r st) =
       (if flags AND DELETED \<noteq> 0 then bt_remove key (vs_keys st)
        else bt_insert key \<lparr>vk_value = (case bt_get (vs_keys st) key of Some vk \<Rightarrow> vk_value vk | None \<Rightarrow> []),
          vk_create_revision = c, vk_mod_revision = rv,
          vk_version = (case bt_get (vs_keys st) key of Some vk \<Rightarrow> vk_version vk | None \<Rightarrow> 0) + 1\<rparr> (vs_keys st))"
    using s(4) fl by auto
  have ok: "bt_ok (vs_keys st)" and core: "map_option vk_core (bt_get (vs_keys st) j) = map_option kv_core (replay_spec E rs j)" for j
    using assms(3) by (simp_all add: verified_def)
  have "map_option vk_core (bt_get (vs_keys (verify_step E r st)) j) = map_option kv_core (replay_spec E (rs @ [r]) j)" for j
  proof (cases "j = key")
    case True
    then show ?thesis
      using core [of key] ok unfolding k replay_spec_simps f(4)
      by (cases "bt_get (vs_keys st) key"; cases "replay_spec E rs key")
        (simp_all add: spec_put_def spec_delete_def vk_core_def kv_core_def bt.get_insert bt.get_remove)
  next
    case False
    then show ?thesis
      using core [of j] ok unfolding k replay_spec_simps f(4)
      by (simp add: spec_put_def spec_delete_def bt.get_insert bt.get_remove)
  qed
  moreover have "bt_ok (vs_keys (verify_step E r st))" using ok by (simp add: k bt.ok_insert bt.ok_remove)
  moreover have "sint (vs_max_rev (verify_step E r st)) = Max (insert 0 (set (map (\<lambda>r. sint (rec_rev r)) (rs @ [r]))))"
  proof -
    have "Max (insert (sint rv) (insert 0 (set (map (\<lambda>r. sint (rec_rev r)) rs)))) =
        max (sint rv) (Max (insert 0 (set (map (\<lambda>r. sint (rec_rev r)) rs))))" by (rule Max_insert) simp_all
    moreover have "insert 0 (set (map (\<lambda>r. sint (rec_rev r)) (rs @ [r]))) =
        insert (sint rv) (insert 0 (set (map (\<lambda>r. sint (rec_rev r)) rs)))" by (auto simp: f(3))
    ultimately show ?thesis using s(3) assms(3) by (simp only: verified_def)
  qed
  ultimately show ?thesis using s(1,2) assms(3) by (simp add: verified_def)
qed

lemma verify_fold:
  assumes "libs_ok E" and "\<forall>r \<in> set rs. rec_made E N r"
  shows "verified E rs (fold (verify_step E) rs \<lparr>vs_crc_errors = 0, vs_kv_errors = 0, vs_max_rev = 0, vs_keys = []\<rparr>)"
  using assms(2)
proof (induction rs rule: rev_induct)
  case Nil
  then show ?case by (simp add: verified_def bt.get_empty)
next
  case (snoc r rs)
  then show ?case using verify_step_correct [OF assms(1), of N r rs] by simp
qed

text \<open>The prefixes are ASCII, so that the decoding of a key does not change its category.\<close>

lemma ascii_low: "list_all (\<lambda>c. of_char c < (128 :: nat)) p \<Longrightarrow> list_all (\<lambda>c. c < 0x80) (ascii p)"
  by (induction p) (auto simp: ascii_def word_less_nat_alt unat_of_nat take_bit_eq_mod)

lemma category_rules_low: "list_all (\<lambda>rule. list_all (\<lambda>c. of_char c < (128 :: nat)) (fst rule)) category_rules"
  by (simp add: category_rules_def)

lemma category_lossy: "category (utf8_lossy k) = category k"
proof -
  have "prefix (ascii (fst rule)) (utf8_lossy k) = prefix (ascii (fst rule)) k" if "rule \<in> set category_rules" for rule
    using category_rules_low that by (intro prefix_utf8_lossy ascii_low) (simp add: list_all_iff)
  then have "List.find (\<lambda>rule. prefix (ascii (fst rule)) (utf8_lossy k)) category_rules =
      List.find (\<lambda>rule. prefix (ascii (fst rule)) k) category_rules"
    by (intro List.find_cong) simp_all
  then show ?thesis by (simp add: category_def)
qed

text \<open>The categories partition the keys: their counts add up to the number of keys.\<close>

lemma count_category_get:
  assumes "bt_ok cats"
  shows "bt_ok (count_category key cats)"
    and "(case bt_get (count_category key cats) c of Some n \<Rightarrow> n | None \<Rightarrow> 0) =
      (case bt_get cats c of Some n \<Rightarrow> n | None \<Rightarrow> 0) + of_bool (category key = c)"
  using assms by (auto simp: count_category_def category_lossy Let_def bt.ok_insert bt.get_insert split: option.splits)

lemma count_categories:
  assumes "bt_ok cats"
  shows "(case bt_get (fold count_category keys cats) c of Some n \<Rightarrow> n | None \<Rightarrow> 0) =
    (case bt_get cats c of Some n \<Rightarrow> n | None \<Rightarrow> 0) + word_of_nat (length (filter (\<lambda>k. category k = c) keys))"
  using assms
proof (induction keys arbitrary: cats)
  case (Cons k keys)
  show ?case using Cons.IH [OF count_category_get(1) [OF Cons.prems]] count_category_get(2) [OF Cons.prems, of k c]
    by (simp add: algebra_simps)
qed simp

text \<open>The name is what stands between the first name field and the next quotation mark.\<close>

lemma str_split_hd:
  "hd (str_split pat s) = (case split_once pat s of Some (before, _) \<Rightarrow> if pat = [] then s else before | None \<Rightarrow> s)"
  "str_split pat s \<noteq> []"
  by (subst str_split.simps, simp split: option.splits prod.splits)+

lemma split_once_single:
  "split_once [q] s = (if q \<in> set s then Some (takeWhile (\<lambda>c. c \<noteq> q) s, tl (dropWhile (\<lambda>c. c \<noteq> q) s)) else None)"
  by (induction s) auto

lemma str_split_single: "hd (str_split [q] s) = takeWhile (\<lambda>c. c \<noteq> q) s"
proof -
  have "s = takeWhile (\<lambda>c. c \<noteq> q) s" if "q \<notin> set s" using that by (induction s) auto
  then show ?thesis by (cases "q \<in> set s") (simp_all only: str_split_hd split_once_single if_True if_False option.case prod.case list.distinct not_False_eq_True)
qed

lemma takeWhile_hd_split: "takeWhile (\<lambda>c. c \<noteq> q) (hd (str_split (q # pat) s)) = takeWhile (\<lambda>c. c \<noteq> q) s"
  by (auto simp: str_split_hd takeWhile_append split: option.splits dest: split_once_Some)

lemma namespace_name_eq:
  "namespace_name v = (case split_once name_field (utf8_lossy v) of
     Some (_, rest) \<Rightarrow> takeWhile (\<lambda>c. c \<noteq> 0x22) rest | None \<Rightarrow> ascii ''?'')"
proof (cases "split_once name_field (utf8_lossy v)")
  case None
  then show ?thesis by (simp add: namespace_name_def str_split.simps [of name_field "utf8_lossy v"])
next
  case (Some p)
  obtain a rest where p: "p = (a, rest)" by (cases p)
  obtain piece ps where ps: "str_split name_field rest = piece # ps" using str_split_hd(2) by (cases "str_split name_field rest") auto
  obtain n ns where n: "str_split [0x22] piece = n # ns" using str_split_hd(2) by (cases "str_split [0x22] piece") auto
  have "n = takeWhile (\<lambda>c. c \<noteq> 0x22) rest"
    using str_split_single [of "0x22" piece] takeWhile_hd_split [of "0x22" "ascii ''name'' @ [0x22, 0x3A, 0x22]" rest] ps n
    by (simp add: name_field_def)
  then show ?thesis
    using Some p ps n by (simp add: namespace_name_def str_split.simps [of name_field "utf8_lossy v"]) (simp add: name_field_def)
qed

text \<open>What the keys of a reconstructed map say about the counts and the expected keys, in terms of the
  map it stands for.\<close>

lemma key_report:
  assumes "bt_ok keys" and "\<And>k. bt_get keys k = None \<longleftrightarrow> m k = None"
  shows "(case bt_get (fold count_category (map fst (bt_iter keys)) []) c of Some n \<Rightarrow> n | None \<Rightarrow> 0) =
      word_of_nat (card {k \<in> dom m. category k = c})"
    and "list_ex P (map fst (bt_iter keys)) \<longleftrightarrow> (\<exists>k \<in> dom m. P k)"
    and "length (bt_iter keys) = card (dom m)"
proof -
  have g: "(\<exists>v. bt_get keys k = Some v) \<longleftrightarrow> k \<in> dom m" for k using assms(2) [of k] by (cases "m k"; cases "bt_get keys k") (auto simp: dom_def)
  have n: "length (filter P (map fst (bt_iter keys))) = card {k \<in> dom m. P k}" for P
    using bt.count_card [OF assms(1), of "\<lambda>k v. P k"] by (simp add: g filter_map comp_def)
  show "(case bt_get (fold count_category (map fst (bt_iter keys)) []) c of Some n \<Rightarrow> n | None \<Rightarrow> 0) =
      word_of_nat (card {k \<in> dom m. category k = c})"
    using count_categories [of "[]" "map fst (bt_iter keys)" c, unfolded n] by (simp add: bt.get_empty)
  show "list_ex P (map fst (bt_iter keys)) \<longleftrightarrow> (\<exists>k \<in> dom m. P k)"
  proof -
    have "fst ` set keys = dom m" using set_bt_keys [OF assms(1)] g by auto
    then show ?thesis by (simp add: list_ex_iff bt_iter_def flip: bex_simps)
  qed
  show "length (bt_iter keys) = card (dom m)" using n [of "\<lambda>_. True"] by simp
qed

section \<open>What the categories mean\<close>

text \<open>A key of the cluster is a path: \<^verbatim>\<open>/registry/\<close>, a kind of object, and the object's own path.  The category
  is named after the kind, and after the group for services; what is not below one of the two roots, or not
  further divided, has a category of its own.\<close>

definition path_part :: "bytes \<Rightarrow> (bytes \<times> bytes) option" where
  "path_part s =
     (if 0x2F \<in> set s then Some (takeWhile (\<lambda>c. c \<noteq> 0x2F) s, tl (dropWhile (\<lambda>c. c \<noteq> 0x2F) s)) else None)"

definition kind_names :: "(string \<times> string) list" where
  "kind_names =
     [(''namespaces'', ''namespace''), (''pods'', ''pod''), (''deployments'', ''deployment''),
      (''statefulsets'', ''statefulset''), (''daemonsets'', ''daemonset''), (''configmaps'', ''configmap''),
      (''secrets'', ''secret''), (''serviceaccounts'', ''serviceaccount''), (''persistentvolumeclaims'', ''pvc''),
      (''persistentvolumes'', ''pv''), (''nodes'', ''node''), (''minions'', ''node''), (''leases'', ''lease''),
      (''events'', ''event''), (''rbac'', ''rbac''), (''clusterroles'', ''clusterrole''), (''roles'', ''role''),
      (''rolebindings'', ''rolebinding''), (''clusterrolebindings'', ''clusterrolebinding''), (''cronjobs'', ''cronjob''),
      (''apiextensions.k8s.io'', ''crd''), (''masterleases'', ''masterlease''), (''peerserverleases'', ''peerserverlease''),
      (''ranges'', ''range'')]"

definition kind_of :: "bytes \<Rightarrow> string" where
  "kind_of path =
     (case path_part path of
        None \<Rightarrow> ''other_registry''
      | Some (kind, rest) \<Rightarrow>
          if kind = ascii ''services'' then
            (case path_part rest of
               None \<Rightarrow> ''other_registry''
             | Some (sub, _) \<Rightarrow>
                 if sub = ascii ''endpoints'' then ''endpoint''
                 else if sub = ascii ''specs'' then ''service'' else ''other_registry'')
          else (case map_of (map (\<lambda>(name, c). (ascii name, c)) kind_names) kind of
                  Some c \<Rightarrow> c | None \<Rightarrow> ''other_registry''))"

definition spec_category :: "bytes \<Rightarrow> string" where
  "spec_category key =
     (if prefix (ascii ''/bootstrap/'') key then ''bootstrap''
      else if prefix (ascii ''/registry/'') key then kind_of (drop 10 key)
      else ''other'')"

lemma path_part_eq:
  assumes "path_part s = Some (part, rest)"
  shows "s = part @ 0x2F # rest" and "0x2F \<notin> set part"
proof -
  have "dropWhile (\<lambda>c. c \<noteq> 0x2F) s \<noteq> []" "hd (dropWhile (\<lambda>c. c \<noteq> 0x2F) s) = 0x2F"
    using assms hd_dropWhile [of "\<lambda>c. c \<noteq> 0x2F" s] by (auto simp: path_part_def split: if_splits)
  then have "dropWhile (\<lambda>c. c \<noteq> 0x2F) s = 0x2F # rest"
    using assms by (cases "dropWhile (\<lambda>c. c \<noteq> 0x2F) s") (auto simp: path_part_def split: if_splits)
  moreover have "part = takeWhile (\<lambda>c. c \<noteq> 0x2F) s" using assms by (auto simp: path_part_def split: if_splits)
  ultimately show "s = part @ 0x2F # rest" by (metis takeWhile_dropWhile_id)
  show "0x2F \<notin> set part" using \<open>part = _\<close> by (auto dest: set_takeWhileD)
qed

lemma prefix_part:
  assumes "q \<notin> set part" and "q \<notin> set name"
  shows "prefix (name @ q # ys) (part @ q # rest) \<longleftrightarrow> name = part \<and> prefix ys rest"
  using assms
proof (induction name arbitrary: part)
  case Nil
  then show ?case by (cases part) auto
next
  case (Cons c name)
  then show ?case by (cases part) auto
qed

text \<open>The prefixes of the tool below \<^verbatim>\<open>/registry/\<close>, as kinds and groups.\<close>

definition registry_rules :: "(string \<times> string) list" where
  "registry_rules = take 5 kind_names @ [(''services/endpoints'', ''endpoint''), (''services/specs'', ''service'')] @ drop 5 kind_names"

lemma category_rules_split:
  "category_rules = (''/bootstrap/'', ''bootstrap'')
     # map (\<lambda>(w, c). (''/registry/'' @ w @ ''/'', c)) registry_rules @ [(''/registry/'', ''other_registry'')]"
  by (simp add: category_rules_def registry_rules_def kind_names_def)

lemma find_append: "List.find P (xs @ ys) = (case List.find P xs of Some x \<Rightarrow> Some x | None \<Rightarrow> List.find P ys)"
  by (induction xs) auto

lemma find_ascii:
  "(case List.find (\<lambda>(w, c). ascii w = k) xs of Some (w, c) \<Rightarrow> Some c | None \<Rightarrow> None) =
     map_of (map (\<lambda>(name, c). (ascii name, c)) xs) k"
  by (induction xs) auto

lemma kind_names_plain:
  "list_all (\<lambda>(w, c). 0x2F \<notin> set (ascii w) \<and> w \<noteq> ''services'') kind_names"
  by (simp add: kind_names_def ascii_def)

text \<open>The tests in a part of the table, on a path whose first part is known.\<close>

lemma find_kind:
  assumes "set xs \<subseteq> set kind_names" and "0x2F \<notin> set part"
  shows "List.find (\<lambda>(w, c). prefix (ascii w @ [0x2F]) (part @ 0x2F # rest)) xs = List.find (\<lambda>(w, c). ascii w = part) xs"
proof (intro List.find_cong refl)
  fix x assume "x \<in> set xs"
  then have x: "x \<in> set kind_names" using assms(1) by blast
  have "case x of (w, c) \<Rightarrow> 0x2F \<notin> set (ascii w) \<and> w \<noteq> ''services''"
    using kind_names_plain x unfolding list_all_iff by (rule bspec)
  then have "0x2F \<notin> set (ascii (fst x))" by (simp split: prod.splits)
  then show "(case x of (w, c) \<Rightarrow> prefix (ascii w @ [0x2F]) (part @ 0x2F # rest)) = (case x of (w, c) \<Rightarrow> ascii w = part)"
    using prefix_part [OF assms(2), of "ascii (fst x)" "[]" rest] by (simp add: case_prod_beta)
qed

lemma find_no_services:
  assumes "set xs \<subseteq> set kind_names"
  shows "List.find (\<lambda>(w, c). ascii w = ascii ''services'') xs = None"
  using assms kind_names_plain by (auto simp: find_None_iff list_all_iff ascii_inject)

lemma prefix_sub:
  assumes "0x2F \<notin> set name"
  shows "prefix (name @ [0x2F]) rest \<longleftrightarrow> (\<exists>r. path_part rest = Some (name, r))"
proof (cases "path_part rest")
  case None
  then show ?thesis by (auto simp: path_part_def prefix_def split: if_splits)
next
  case (Some p)
  obtain a r where p: "p = (a, r)" by (cases p)
  note e = path_part_eq [OF Some [unfolded p]]
  show ?thesis using prefix_part [OF e(2) assms, of "[]" r] by (auto simp: e(1) [symmetric] Some p)
qed

lemma kind_of_rules:
  "(case List.find (\<lambda>(w, c). prefix (ascii w @ [0x2F]) s) registry_rules of Some (w, c) \<Rightarrow> c | None \<Rightarrow> ''other_registry'') = kind_of s"
proof (cases "path_part s")
  case None
  then have "\<not> prefix (ascii w @ [0x2F]) s" for w by (auto simp: path_part_def prefix_def split: if_splits)
  then have "List.find (\<lambda>(w, c). prefix (ascii w @ [0x2F]) s) rules = None" for rules :: "(string \<times> string) list"
    by (induction rules) auto
  then show ?thesis using None by (simp add: kind_of_def)
next
  case (Some p)
  obtain part rest where p: "p = (part, rest)" by (cases p)
  note e = path_part_eq [OF Some [unfolded p]]
  have sub: "set (take 5 kind_names) \<subseteq> set kind_names" "set (drop 5 kind_names) \<subseteq> set kind_names"
    by (auto dest: in_set_takeD in_set_dropD)
  have sl: "0x2F \<notin> set (ascii ''services'')" "0x2F \<notin> set (ascii ''endpoints'')" "0x2F \<notin> set (ascii ''specs'')"
    by (simp_all add: ascii_def)
  have sv: "ascii ''services/endpoints'' @ [0x2F] = ascii ''services'' @ 0x2F # ascii ''endpoints'' @ [0x2F]"
    "ascii ''services/specs'' @ [0x2F] = ascii ''services'' @ 0x2F # ascii ''specs'' @ [0x2F]" by (simp_all add: ascii_def)
  have svc: "prefix (ascii ''services/endpoints'' @ [0x2F]) s \<longleftrightarrow> part = ascii ''services'' \<and> (\<exists>r. path_part rest = Some (ascii ''endpoints'', r))"
    "prefix (ascii ''services/specs'' @ [0x2F]) s \<longleftrightarrow> part = ascii ''services'' \<and> (\<exists>r. path_part rest = Some (ascii ''specs'', r))"
    unfolding sv e(1) prefix_part [OF e(2) sl(1)] prefix_sub [OF sl(2)] prefix_sub [OF sl(3)] by auto
  have f: "List.find (\<lambda>(w, c). prefix (ascii w @ [0x2F]) s) xs = List.find (\<lambda>(w, c). ascii w = part) xs"
    if "set xs \<subseteq> set kind_names" for xs unfolding e(1) by (rule find_kind [OF that e(2)])
  show ?thesis
  proof (cases "part = ascii ''services''")
    case True
    then show ?thesis
      using f [OF sub(1)] f [OF sub(2)] find_no_services [OF sub(1)] find_no_services [OF sub(2)]
      by (auto simp: registry_rules_def find_append svc kind_of_def Some p ascii_inject split: option.splits)
  next
    case False
    have "List.find (\<lambda>(w, c). prefix (ascii w @ [0x2F]) s) registry_rules =
        List.find (\<lambda>(w, c). prefix (ascii w @ [0x2F]) s) (take 5 kind_names @ drop 5 kind_names)"
      unfolding registry_rules_def find_append using svc False by (simp split: option.splits)
    also have "\<dots> = List.find (\<lambda>(w, c). ascii w = part) kind_names" by (simp add: f)
    finally show ?thesis
      using find_ascii [of part kind_names] False by (auto simp: kind_of_def Some p split: option.splits)
  qed
qed

lemma category_meaning: "category k = spec_category k"
proof -
  define R where "R = ''/registry/''"
  define s where "s = drop (length R) k"
  have d: "prefix (x @ y) k \<longleftrightarrow> prefix x k \<and> prefix y (drop (length x) k)" for x y :: bytes
    by (auto simp: prefix_def)
  have slash: "ascii ''/'' = [0x2F]" by (simp add: ascii_def)
  have r: "prefix (ascii (R @ w @ ''/'')) k \<longleftrightarrow> prefix (ascii R) k \<and> prefix (ascii w @ [0x2F]) s" for w
    unfolding ascii_append d length_ascii s_def slash ..
  have m: "List.find (\<lambda>rule. prefix (ascii (fst rule)) k) (map (\<lambda>(w, c). (R @ w @ ''/'', c)) xs) =
      (if prefix (ascii R) k
       then map_option (\<lambda>(w, c). (R @ w @ ''/'', c)) (List.find (\<lambda>(w, c). prefix (ascii w @ [0x2F]) s) xs) else None)"
    for xs :: "(string \<times> string) list"
    by (induction xs) (auto simp: r simp del: ascii_append)
  have "drop 10 k = s" by (simp add: s_def R_def eval_nat_numeral)
  then have k: "spec_category k = (if prefix (ascii ''/bootstrap/'') k then ''bootstrap''
      else if prefix (ascii R) k then kind_of s else ''other'')"
    by (simp add: spec_category_def R_def)
  show ?thesis
    using kind_of_rules [of s] unfolding category_def category_rules_split R_def [symmetric] k
    by (auto simp: find_append m split: option.splits)
qed

lemma category_decoded: "category (utf8_lossy k) = spec_category k"
  by (rule trans [OF category_lossy category_meaning])

text \<open>The keys of a reconstructed map are those of the map it stands for, in order.\<close>

lemma key_list:
  assumes "bt_ok keys" and "\<And>k. bt_get keys k = None \<longleftrightarrow> m k = None"
  shows "map fst (bt_iter keys) = sorted_list_of_set (dom m)"
proof -
  have "sorted_wrt (<) (map fst (bt_iter keys))" using assms(1) by (simp add: bt_ok_def bt_iter_def)
  moreover have "set (map fst (bt_iter keys)) = dom m"
    using set_bt_keys [OF assms(1)] assms(2) by (auto simp: bt_iter_def dom_def)
  ultimately show ?thesis
    by (metis List.finite_set sorted_list_of_set.strict_sorted_key_list_of_set sorted_list_of_set.set_sorted_key_list_of_set
        strict_sorted_equal)
qed

section \<open>Properties\<close>

text \<open>C29. The verifier on a log the store wrote, also one with a torn end: it reports no checksum and no access error,
  the number of complete records and the highest revision among them, exactly the keys that start-up would show, with
  their modification revisions and versions, and their number; for every category the number of keys whose path says
  so; and for each of the eight expected prefixes whether a key has it.  It lists exactly the namespaces, in the order
  of their keys, with their revisions; it keeps no values, so each of them goes by the name ?.  The creation revisions
  it computes are not printed and not part of this.\<close>

theorem walverify_new_correct:
  assumes "libs_ok E" and "log_ok E N rs" and "rec_wf E r'" and "n < length (serialize r')"
  shows "\<exists>rep. walverify_new E path (log_bytes rs @ take n (serialize r')) = Inr rep
    \<and> vr_total rep = length rs \<and> vs_crc_errors (vr_state rep) = 0 \<and> vs_kv_errors (vr_state rep) = 0
    \<and> sint (vs_max_rev (vr_state rep)) = Max (insert 0 (set (map (\<lambda>r. sint (rec_rev r)) rs)))
    \<and> (\<forall>k. map_option vk_core (bt_get (vs_keys (vr_state rep)) k) = map_option kv_core (replay_spec E rs k))
    \<and> length (bt_iter (vs_keys (vr_state rep))) = card (dom (replay_spec E rs))
    \<and> (\<forall>c. (case bt_get (vr_categories rep) c of Some m \<Rightarrow> m | None \<Rightarrow> 0) =
         word_of_nat (card {k \<in> dom (replay_spec E rs). spec_category k = c}))
    \<and> vr_found rep = map (\<lambda>p. \<exists>k \<in> dom (replay_spec E rs). prefix (ascii p) k)
        [''/registry/namespaces/kube-system'', ''/registry/namespaces/default'',
         ''/registry/namespaces/kube-public'', ''/registry/namespaces/kube-node-lease'',
         ''/registry/serviceaccounts/kube-system/default'', ''/registry/clusterroles/admin'',
         ''/registry/clusterroles/edit'', ''/registry/clusterroles/view'']
    \<and> vr_namespaces rep = map (\<lambda>k. (a_mod (the (replay_spec E rs k)), ascii ''?''))
        (filter (\<lambda>k. spec_category k = ''namespace'') (sorted_list_of_set (dom (replay_spec E rs))))"
proof -
  have made: "\<forall>r \<in> set rs. rec_made E N r" using assms(2) by (simp add: log_ok_def)
  then have wf: "\<forall>r \<in> set rs. rec_wf E r" using rec_made_wf [OF assms(1)] by blast
  have scan: "scan_kv_collect E (WalFile_open path (Some (log_bytes rs @ take n (serialize r'))) []) = Inr rs"
    unfolding scan_kv_collect_def scan_kv_def scan_kv_file_def WalFile_open_def
    by (simp add: scan_log_append [OF wf] scan_torn [OF assms(3,4)])
  define st where "st = fold (verify_step E) rs \<lparr>vs_crc_errors = 0, vs_kv_errors = 0, vs_max_rev = 0, vs_keys = []\<rparr>"
  have v: "verified E rs st" unfolding st_def by (rule verify_fold [OF assms(1) made])
  then have ok: "bt_ok (vs_keys st)" and core: "map_option vk_core (bt_get (vs_keys st) k) = map_option kv_core (replay_spec E rs k)" for k
    by (simp_all add: verified_def)
  have none: "bt_get (vs_keys st) k = None \<longleftrightarrow> replay_spec E rs k = None" for k using core [of k] by (metis option.map_disc_iff)
  note r = key_report [OF ok none]
  have entry: "vk_value vk = []" "vk_mod_revision vk = a_mod (the (replay_spec E rs k))"
    if "(k, vk) \<in> set (bt_iter (vs_keys st))" for k vk
    using that core [of k] bt.iter_get [OF ok, of k vk]
    by (auto simp: vk_core_def kv_core_def map_option_case split: option.splits)
  have e: "vk_value (snd x) = []" "vk_mod_revision (snd x) = a_mod (the (replay_spec E rs (fst x)))"
    if "x \<in> set (bt_iter (vs_keys st))" for x using entry [of "fst x" "snd x"] that by simp_all
  have "namespace_name [] = ascii ''?''" by (simp add: namespace_name_eq name_field_def)
  then have "map (\<lambda>(k, ks). (vk_mod_revision ks, namespace_name (vk_value ks)))
        (filter (\<lambda>(k, ks). category (utf8_lossy k) = ''namespace'') (bt_iter (vs_keys st))) =
      map (\<lambda>k. (a_mod (the (replay_spec E rs k)), ascii ''?''))
        (filter (\<lambda>k. spec_category k = ''namespace'') (map fst (bt_iter (vs_keys st))))"
    unfolding category_decoded filter_map map_map comp_def case_prod_beta using e by (intro map_cong refl) simp
  note names = this [unfolded key_list [OF ok none]]
  have "list_all (list_all (\<lambda>c. of_char c < (128 :: nat))) expected_prefixes" by (simp add: expected_prefixes_def)
  then have low: "prefix (ascii p) (utf8_lossy k) = prefix (ascii p) k" if "p \<in> set expected_prefixes" for p k
    using that by (intro prefix_utf8_lossy ascii_low) (simp add: list_all_iff)
  have "map (\<lambda>p. list_ex (\<lambda>k. prefix (ascii p) (utf8_lossy k)) (map fst (bt_iter (vs_keys st)))) expected_prefixes =
      map (\<lambda>p. \<exists>k \<in> dom (replay_spec E rs). prefix (ascii p) k) expected_prefixes"
    unfolding r(2) by (simp add: low)
  note found = this [unfolded expected_prefixes_def]
  show ?thesis
    unfolding walverify_new_def scan sum.case Let_def st_def [symmetric] names expected_prefixes_def found
    using v r(1,3) by (simp add: verified_def category_meaning del: list.map)
qed

text \<open>A log with one namespace.\<close>

definition demo_namespace_record :: kv_wal_record where
  "demo_namespace_record = KvWalRecord_new ref_libs 2 (ascii ''/registry/namespaces/default'') [2] 1 1 1 0"

lemma walverify_new_correct_witness:
  "\<exists>rep. walverify_new ref_libs ''wal'' (log_bytes [demo_namespace_record] @ take 7 (serialize demo_record)) = Inr rep
     \<and> vr_total rep = 1 \<and> vr_namespaces rep = [(1, ascii ''?'')]
     \<and> vr_found rep = [False, True, False, False, False, False, False, False]"
proof -
  let ?k = "ascii ''/registry/namespaces/default''"
  have f: "fits ?k [2]" by (simp add: fits_def ascii_def)
  have log: "log_ok ref_libs 2 [demo_namespace_record]"
    unfolding log_ok_def revs_ok_def rec_made_def demo_namespace_record_def using f by (auto intro!: exI)
  have m: "replay_spec ref_libs [demo_namespace_record] =
      [?k \<mapsto> \<lparr>a_value = [2], a_create = 1, a_mod = 1, a_version = 1, a_lease = 0\<rparr>]"
    using rec_new_facts(6) [OF libs_ok_ref f, of "\<lambda>_. None" 2 1 1 1 0]
    by (simp add: replay_spec_def demo_namespace_record_def DELETED_def spec_put_def)
  have "7 < length (serialize demo_record)" by (simp add: length_serialize)
  note c = walverify_new_correct [OF libs_ok_ref log demo_log_ok(2) this, of "''wal''", unfolded m]
  have "spec_category ?k = ''namespace''" by code_simp
  moreover have "dom [?k \<mapsto> \<lparr>a_value = [2], a_create = 1, a_mod = 1, a_version = 1, a_lease = 0\<rparr>] = {?k}" by simp
  ultimately show ?thesis using c by (auto simp: ascii_def)
qed

end
