(* ===== verification/Legacy_Report.thy ===== *)
theory Legacy_Report
  imports Legacy_Log Log_Verifier
begin

text \<open>
  What the tools on legacy logs report (\<^verbatim>\<open>src/bin/walverify.rs\<close> and
  \<^verbatim>\<open>src/bin/waldoctor.rs\<close>): the reconstruction of \<open>Legacy_Log\<close> with the statistics the tools
  print about it.  The reports are shown to be those of the state that the log denotes.
\<close>

section \<open>The verifier\<close>

text \<open>The tool has a copy of the classification of keys, written as a chain of tests.\<close>

definition walverify_category :: "bytes \<Rightarrow> string" where
  "walverify_category key =
     (if prefix (ascii ''/bootstrap/'') key then ''bootstrap''
      else if prefix (ascii ''/registry/namespaces/'') key then ''namespace''
      else if prefix (ascii ''/registry/pods/'') key then ''pod''
      else if prefix (ascii ''/registry/deployments/'') key then ''deployment''
      else if prefix (ascii ''/registry/statefulsets/'') key then ''statefulset''
      else if prefix (ascii ''/registry/daemonsets/'') key then ''daemonset''
      else if prefix (ascii ''/registry/services/endpoints/'') key then ''endpoint''
      else if prefix (ascii ''/registry/services/specs/'') key then ''service''
      else if prefix (ascii ''/registry/configmaps/'') key then ''configmap''
      else if prefix (ascii ''/registry/secrets/'') key then ''secret''
      else if prefix (ascii ''/registry/serviceaccounts/'') key then ''serviceaccount''
      else if prefix (ascii ''/registry/persistentvolumeclaims/'') key then ''pvc''
      else if prefix (ascii ''/registry/persistentvolumes/'') key then ''pv''
      else if prefix (ascii ''/registry/nodes/'') key \<or> prefix (ascii ''/registry/minions/'') key
        then ''node''
      else if prefix (ascii ''/registry/leases/'') key then ''lease''
      else if prefix (ascii ''/registry/events/'') key then ''event''
      else if prefix (ascii ''/registry/rbac/'') key then ''rbac''
      else if prefix (ascii ''/registry/clusterroles/'') key then ''clusterrole''
      else if prefix (ascii ''/registry/roles/'') key then ''role''
      else if prefix (ascii ''/registry/rolebindings/'') key then ''rolebinding''
      else if prefix (ascii ''/registry/clusterrolebindings/'') key then ''clusterrolebinding''
      else if prefix (ascii ''/registry/cronjobs/'') key then ''cronjob''
      else if prefix (ascii ''/registry/apiextensions.k8s.io/'') key then ''crd''
      else if prefix (ascii ''/registry/masterleases/'') key then ''masterlease''
      else if prefix (ascii ''/registry/peerserverleases/'') key then ''peerserverlease''
      else if prefix (ascii ''/registry/ranges/'') key then ''range''
      else if prefix (ascii ''/registry/'') key then ''other_registry''
      else ''other'')"

definition walverify_expected :: "string list" where
  "walverify_expected =
     [''/registry/namespaces/kube-system'', ''/registry/namespaces/default'',
      ''/registry/namespaces/kube-public'', ''/registry/namespaces/kube-node-lease'',
      ''/registry/serviceaccounts/kube-system/default'', ''/registry/nodes/changwang'',
      ''/registry/nodes/precision'', ''/registry/clusterroles/admin'',
      ''/registry/clusterroles/edit'', ''/registry/clusterroles/view'',
      ''/registry/secrets/cattle-system/serving-cert'']"

definition walverify_count :: "bytes \<Rightarrow> (string, u64) btree \<Rightarrow> (string, u64) btree" where
  "walverify_count key cats =
     (let key_str = utf8_lossy key;
          n = (case bt_get cats (walverify_category key_str) of Some n \<Rightarrow> n | None \<Rightarrow> 0)
      in bt_insert (walverify_category key_str) (n + 1) cats)"

text \<open>The printed report: totals, keys and highest revision, the categories, which of the expected keys
  are present, and the revision and name of every namespace.\<close>

record legacy_report =
  lv_total :: nat
  lv_crc_errors :: nat
  lv_keys :: "(bytes, tool_key_state) btree"
  lv_max_rev :: u64
  lv_categories :: "(string, u64) btree"
  lv_found :: "bool list"
  lv_namespaces :: "(u64 \<times> bytes) list"

definition walverify_step ::
    "wal_entry \<Rightarrow> (bytes, tool_key_state) btree \<times> u64 \<Rightarrow> (bytes, tool_key_state) btree \<times> u64" where
  "walverify_step e st =
     (case st of (keys, max_rev) \<Rightarrow> (reconstruct_step e keys, max max_rev (fst e)))"

definition walverify :: "bytes \<Rightarrow> legacy_report" where
  "walverify buf =
     (let (records, total, crc_errors) = walverify_scan buf;
          (keys, max_rev) = fold walverify_step records ([], 0);
          cats = fold walverify_count (map fst (bt_iter keys)) [];
          found = map (\<lambda>p. list_ex (\<lambda>k. prefix (ascii p) (utf8_lossy k)) (map fst (bt_iter keys))) walverify_expected;
          names = map (\<lambda>(k, ks). (tk_mod_revision ks, namespace_name (tk_value ks)))
                    (filter (\<lambda>(k, ks). walverify_category (utf8_lossy k) = ''namespace'') (bt_iter keys))
      in \<lparr>lv_total = total, lv_crc_errors = crc_errors, lv_keys = keys, lv_max_rev = max_rev,
          lv_categories = cats, lv_found = found, lv_namespaces = names\<rparr>)"

section \<open>The doctor\<close>

text \<open>One line of the dump: key, creation and modification revision, version, and at most a hundred
  bytes of the value, both decoded.  The JSON quoting of the two strings is left out.\<close>

type_synonym doctor_line = "bytes \<times> u64 \<times> u64 \<times> u64 \<times> bytes"

record doctor_report =
  dr_total :: nat
  dr_crc_errors :: nat
  dr_keys :: nat
  dr_lost :: nat
  dr_dump :: "doctor_line list"

definition dump_line :: "bytes \<times> tool_key_state \<Rightarrow> doctor_line" where
  "dump_line e =
     (case e of (k, ks) \<Rightarrow>
        (utf8_lossy k, tk_create_revision ks, tk_mod_revision ks, tk_version ks,
         utf8_lossy (take (min (length (tk_value ks)) 100) (tk_value ks))))"

definition waldoctor :: "bool \<Rightarrow> bytes \<Rightarrow> doctor_report" where
  "waldoctor do_dump buf =
     (let (records, crc_errors, total) = waldoctor_scan buf;
          (state, lost_keys) = reconstruct_state records
      in \<lparr>dr_total = total, dr_crc_errors = crc_errors, dr_keys = length (bt_iter state),
          dr_lost = length lost_keys,
          dr_dump = (if do_dump then map dump_line (bt_iter state) else [])\<rparr>)"

section \<open>Lemmas\<close>

lemma walverify_category_eq: "walverify_category = category"
  by (rule ext) (simp add: walverify_category_def category_def category_rules_def)

lemma walverify_count_eq: "walverify_count = count_category"
  by (rule ext)+ (simp add: walverify_count_def count_category_def walverify_category_eq)

lemma walverify_expected_lossy:
  "p \<in> set walverify_expected \<Longrightarrow> prefix (ascii p) (utf8_lossy k) = prefix (ascii p) k"
proof -
  have "list_all (list_all (\<lambda>c. of_char c < (128 :: nat))) walverify_expected" by (simp add: walverify_expected_def)
  then show "p \<in> set walverify_expected \<Longrightarrow> prefix (ascii p) (utf8_lossy k) = prefix (ascii p) k"
    by (intro prefix_utf8_lossy ascii_low) (simp add: list_all_iff)
qed

lemma walverify_fold:
  "fold walverify_step es (keys, m) = (fold reconstruct_step es keys, fold max (map fst es) m)"
  by (induction es arbitrary: keys m) (simp_all add: walverify_step_def max.commute)

lemma fold_max: "fold max xs (m :: 'a::linorder) = Max (insert m (set xs))"
  by (metis Max.set_eq_fold list.simps(15))

text \<open>On a log with ascending revisions no key is created after it was modified.\<close>

definition created_before :: "(bytes, tool_key_state) btree \<Rightarrow> u64 \<Rightarrow> bool" where
  "created_before keys m \<longleftrightarrow> bt_ok keys
     \<and> (\<forall>k ks. bt_get keys k = Some ks \<longrightarrow> tk_create_revision ks \<le> tk_mod_revision ks \<and> tk_mod_revision ks \<le> m)"

lemma created_before_step:
  assumes "created_before keys m" and "m \<le> lr_revision r"
  shows "created_before (reconstruct_step (entry_of r) keys) (lr_revision r)"
proof -
  have b: "tk_create_revision ks \<le> tk_mod_revision ks" "tk_create_revision ks \<le> lr_revision r"
    "tk_mod_revision ks \<le> lr_revision r" if "bt_get keys k = Some ks" for k ks
    using that assms by (force simp: created_before_def)+
  have ok: "bt_ok keys" using assms(1) by (simp add: created_before_def)
  show ?thesis
    using b ok unfolding created_before_def reconstruct_step_def entry_of_def prod.case Let_def
    by (auto simp: bt.ok_insert bt.ok_remove bt.get_insert bt.get_remove split: option.splits if_splits)
qed

lemma reconstruct_created:
  assumes "sorted (map lr_revision rs)"
  shows "created_before (reconstruct (map entry_of rs)) (if rs = [] then 0 else lr_revision (last rs))"
  using assms
proof (induction rs rule: rev_induct)
  case Nil
  then show ?case by (simp add: created_before_def reconstruct_def bt.get_empty)
next
  case (snoc r rs)
  have "(if rs = [] then 0 else lr_revision (last rs)) \<le> lr_revision r"
    using snoc.prems by (auto simp: sorted_append)
  moreover have "sorted (map lr_revision rs)" using snoc.prems by (simp add: sorted_append)
  ultimately show ?case
    using created_before_step [OF snoc.IH, of r] by (simp add: reconstruct_foldl del: map_append)
qed

lemma lost_keys:
  assumes "sorted (map lr_revision rs)"
  shows "length (snd (reconstruct_state rs)) = card {k. \<exists>v. legacy_view rs k = Some v \<and> a_mod v < 8000}"
proof -
  define keys where "keys = reconstruct (map entry_of rs)"
  have ok: "bt_ok keys" and core: "map_option tool_core (bt_get keys k) = map_option abs_core (legacy_view rs k)" for k
    using reconstruct_correct [of rs k] by (simp_all add: keys_def)
  have c: "tk_create_revision ks \<le> tk_mod_revision ks" if "bt_get keys k = Some ks" for k ks
    using that reconstruct_created [OF assms] by (auto simp: created_before_def keys_def)
  have "(\<exists>ks. bt_get keys k = Some ks \<and> tk_mod_revision ks < 8000 \<and> tk_create_revision ks < 8000) \<longleftrightarrow>
      (\<exists>v. legacy_view rs k = Some v \<and> a_mod v < 8000)" for k
    using core [of k] c [of k]
    by (cases "bt_get keys k"; cases "legacy_view rs k") (auto simp: tool_core_def abs_core_def)
  then show ?thesis
    using bt.count_card [OF ok, of "\<lambda>k ks. tk_mod_revision ks < 8000 \<and> tk_create_revision ks < 8000"]
    by (simp add: reconstruct_state_def Let_def keys_def)
qed

lemma namespace_entries:
  assumes "bt_ok keys" and "\<And>k. map_option tool_core (bt_get keys k) = map_option abs_core (m k)"
  shows "set (map (\<lambda>(k, ks). (tk_mod_revision ks, namespace_name (tk_value ks))) (filter (\<lambda>(k, ks). P k) (bt_iter keys))) =
    {(a_mod v, namespace_name (a_value v)) |k v. m k = Some v \<and> P k}"
proof -
  have e: "(\<exists>ks. bt_get keys k = Some ks \<and> x = (tk_mod_revision ks, namespace_name (tk_value ks))) \<longleftrightarrow>
      (\<exists>v. m k = Some v \<and> x = (a_mod v, namespace_name (a_value v)))" for k x
    using assms(2) [of k] by (cases "bt_get keys k"; cases "m k") (auto simp: tool_core_def abs_core_def)
  have "set (map (\<lambda>(k, ks). (tk_mod_revision ks, namespace_name (tk_value ks))) (filter (\<lambda>(k, ks). P k) (bt_iter keys))) =
      {x. \<exists>k ks. bt_get keys k = Some ks \<and> P k \<and> x = (tk_mod_revision ks, namespace_name (tk_value ks))}"
    using bt.iter_get [OF assms(1)] by force
  also have "\<dots> = {x. \<exists>k. P k \<and> (\<exists>v. m k = Some v \<and> x = (a_mod v, namespace_name (a_value v)))}"
    unfolding e [symmetric] by blast
  finally show ?thesis by blast
qed

section \<open>Properties\<close>

text \<open>C28. On a legacy log with ascending revisions, also one that ends in a torn record, the three tools read exactly the
  records of the log and report no checksum error.  The verifier reconstructs the values, modification
  revisions and versions that the log denotes, and reports the highest revision, the number of keys of
  every category, which of the expected keys have a match, and the revision and name of every namespace.
  The doctor reports the number of keys and, as lost, the keys whose last modification is before
  revision 8000.\<close>

theorem legacy_tools_report:
  assumes "crc_standard E" and "\<forall>r \<in> set rs. legacy_wf r" and "legacy_wf r'" and "n < length (WalRecord_serialize E r')"
    and "sorted (map lr_revision rs)"
    and "buf = concat (map (WalRecord_serialize E) rs) @ take n (WalRecord_serialize E r')"
  shows "lv_total (walverify buf) = length rs \<and> lv_crc_errors (walverify buf) = 0
    \<and> lv_max_rev (walverify buf) = Max (insert 0 (set (map lr_revision rs)))
    \<and> (\<forall>k. map_option tool_core (bt_get (lv_keys (walverify buf)) k) = map_option abs_core (legacy_view rs k))
    \<and> (\<forall>c. (case bt_get (lv_categories (walverify buf)) c of Some m \<Rightarrow> m | None \<Rightarrow> 0) =
         word_of_nat (card {k \<in> dom (legacy_view rs). spec_category k = c}))
    \<and> lv_found (walverify buf) = map (\<lambda>p. \<exists>k \<in> dom (legacy_view rs). prefix (ascii p) k) walverify_expected
    \<and> set (lv_namespaces (walverify buf)) =
         {(a_mod v, namespace_name (a_value v)) |k v. legacy_view rs k = Some v \<and> spec_category k = ''namespace''}
    \<and> waldoctor do_dump buf =
         \<lparr>dr_total = length rs, dr_crc_errors = 0, dr_keys = card (dom (legacy_view rs)),
          dr_lost = card {k. \<exists>v. legacy_view rs k = Some v \<and> a_mod v < 8000},
          dr_dump = (if do_dump then map dump_line (bt_iter (lv_keys (walverify buf))) else [])\<rparr>
    \<and> walrecover_scan buf = (map entry_of rs, length rs)"
proof -
  define keys where "keys = reconstruct (map entry_of rs)"
  have scan: "waldoctor_scan buf = (rs, 0, length rs)" "walverify_scan buf = (map entry_of rs, length rs, 0)"
    "walrecover_scan buf = (map entry_of rs, length rs)"
    using tools_reconstruct [OF assms(1-4,6)] by simp_all
  have ok: "bt_ok keys" and core: "map_option tool_core (bt_get keys k) = map_option abs_core (legacy_view rs k)" for k
    using reconstruct_correct [of rs k] by (simp_all add: keys_def)
  have none: "bt_get keys k = None \<longleftrightarrow> legacy_view rs k = None" for k using core [of k] by (metis option.map_disc_iff)
  note r = key_report [OF ok none]
  have fields: "walverify buf = \<lparr>lv_total = length rs, lv_crc_errors = 0, lv_keys = keys,
      lv_max_rev = Max (insert 0 (set (map lr_revision rs))), lv_categories = fold count_category (map fst (bt_iter keys)) [],
      lv_found = map (\<lambda>p. \<exists>k \<in> dom (legacy_view rs). prefix (ascii p) k) walverify_expected,
      lv_namespaces = map (\<lambda>(k, ks). (tk_mod_revision ks, namespace_name (tk_value ks)))
        (filter (\<lambda>(k, ks). spec_category k = ''namespace'') (bt_iter keys))\<rparr>"
    unfolding walverify_def scan prod.case Let_def walverify_fold reconstruct_def [symmetric] keys_def [symmetric] r(2)
      walverify_category_eq walverify_count_eq fold_max category_decoded
    by (simp add: entry_of_def image_image walverify_expected_lossy)
  have doctor: "waldoctor do_dump buf = \<lparr>dr_total = length rs, dr_crc_errors = 0, dr_keys = card (dom (legacy_view rs)),
      dr_lost = card {k. \<exists>v. legacy_view rs k = Some v \<and> a_mod v < 8000},
      dr_dump = (if do_dump then map dump_line (bt_iter keys) else [])\<rparr>"
    using lost_keys [OF assms(5)] r(3) by (simp add: waldoctor_def scan reconstruct_state_def Let_def keys_def)
  show ?thesis
    unfolding fields doctor scan legacy_report.simps using r(1) [unfolded category_meaning] core namespace_entries [OF ok core] by simp
qed

text \<open>A namespace of the previous format, with its name in a JSON value.\<close>

definition demo_namespace :: wal_record where
  "demo_namespace = \<lparr>lr_revision = 5, lr_key = ascii ''/registry/namespaces/default'',
     lr_value = name_field @ ascii ''default'' @ [0x22], lr_flags = 2, lr_lease_id = None\<rparr>"

lemma legacy_tools_report_witness:
  "set (lv_namespaces (walverify (WalRecord_serialize ref_libs demo_namespace
       @ take 30 (WalRecord_serialize ref_libs demo_namespace)))) = {(5, ascii ''default'')}
   \<and> dr_lost (waldoctor False (WalRecord_serialize ref_libs demo_namespace
       @ take 30 (WalRecord_serialize ref_libs demo_namespace))) = 1"
proof -
  have wf: "legacy_wf demo_namespace"
    by (simp add: legacy_wf_def demo_namespace_def fits_def flag_defs name_field_def ascii_def)
  have "30 < length (WalRecord_serialize ref_libs demo_namespace)"
    by (simp add: legacy_length demo_namespace_def ascii_def)
  note rep = legacy_tools_report [OF crc_standard_ref, of "[demo_namespace]" demo_namespace 30 _ False, simplified,
      OF wf this refl]
  have v: "legacy_view [demo_namespace] k = (if k = ascii ''/registry/namespaces/default''
      then Some \<lparr>a_value = lr_value demo_namespace, a_create = 5, a_mod = 5, a_version = 1, a_lease = 0\<rparr> else None)" for k
    by (simp add: legacy_view_def legacy_spec_def demo_namespace_def spec_put_def old_lease_def flag_defs)
  have "spec_category (ascii ''/registry/namespaces/default'') = ''namespace''" by code_simp
  moreover have "namespace_name (lr_value demo_namespace) = ascii ''default''"
    by (simp add: namespace_name_eq demo_namespace_def name_field_def ascii_def utf8_lossy_id)
  ultimately show ?thesis using rep by (simp add: v)
qed

end
