(* ===== verification/Kine_Migration.thy ===== *)
theory Kine_Migration
  imports Client Lease "HOL-Library.Sublist"
begin

text \<open>
  The migration from a kine database (\<^verbatim>\<open>src/bin/migrate.rs\<close>): the search for the table, the query that picks
  one row per key, the loop that creates each key unless it exists, and the numbers it reports.  The database engine and the client library are not part of
  the repository: the query is modelled on the rows of the table, and the request the client builds for a key and
  a value is a parameter.
\<close>

section \<open>The table and the query\<close>

record kine_row =
  kr_name :: bytes
  kr_value :: "bytes option"
  kr_id :: int
  kr_deleted :: int

text \<open>The inner query: the highest id of each name among the rows with \<open>deleted = 0\<close>.\<close>

definition latest_id :: "kine_row list \<Rightarrow> bytes \<Rightarrow> int option" where
  "latest_id table name =
     (case map kr_id (filter (\<lambda>r. kr_deleted r = 0 \<and> kr_name r = name) table) of
        [] \<Rightarrow> None
      | ids \<Rightarrow> Some (foldl max (hd ids) (tl ids)))"

text \<open>The join with the table, ordered by id; a row whose value is no blob is dropped by \<open>filter_map\<close>.\<close>

definition latest_rows :: "kine_row list \<Rightarrow> (bytes \<times> bytes \<times> int) list" where
  "latest_rows table =
     List.map_filter (\<lambda>r. map_option (\<lambda>v. (kr_name r, v, kr_id r)) (kr_value r))
       (sort_key kr_id (filter (\<lambda>r. latest_id table (kr_name r) = Some (kr_id r)) table))"

section \<open>The loop\<close>

text \<open>One transaction per row; a failed request is reported and the loop goes on.\<close>

fun migrate_rows ::
    "libs \<Rightarrow> (nat \<Rightarrow> nat \<Rightarrow> read_env) \<Rightarrow> (bytes \<Rightarrow> bytes \<Rightarrow> txn_request) \<Rightarrow> nat \<Rightarrow> (bytes \<times> bytes \<times> int) list
       \<Rightarrow> nat \<Rightarrow> store_state \<Rightarrow> nat \<times> store_state" where
  "migrate_rows E env client_txn i [] cnt s = (cnt, s)"
| "migrate_rows E env client_txn i ((name, val, rev_id) # rows) cnt s =
     (if name = [] \<or> val = [] then migrate_rows E env client_txn (i + 1) rows cnt s
      else
        (case txn E (env i) (client_txn name val) s of
           (Ok resp, s) \<Rightarrow>
             if ts_succeeded resp then migrate_rows E env client_txn (i + 1) rows (cnt + 1) s
             else migrate_rows E env client_txn (i + 1) rows cnt s
         | (Err e, s) \<Rightarrow> migrate_rows E env client_txn (i + 1) rows cnt s
         | (Panic, s) \<Rightarrow> migrate_rows E env client_txn (i + 1) rows cnt s))"

text \<open>\<open>COUNT(DISTINCT name)\<close> of the rows with \<open>deleted = 0\<close>.\<close>

definition total_keys :: "kine_row list \<Rightarrow> nat" where
  "total_keys table = card (set (map kr_name (filter (\<lambda>r. kr_deleted r = 0) table)))"

section \<open>The table and the report\<close>

text \<open>An entry of \<open>sqlite_master\<close>, with the rows the queries read; \<open>None\<close> when the object lacks the columns
  they name, so that preparing them fails.\<close>

record sqlite_object =
  so_type :: string
  so_name :: string
  so_rows :: "kine_row list option"

text \<open>\<open>name LIKE '%kine%'\<close>: letters of the ASCII range match in either case.\<close>

definition ascii_lower :: "char \<Rightarrow> char" where
  "ascii_lower c = (let n = (of_char c :: nat) in if 65 \<le> n \<and> n \<le> 90 then char_of (n + 32) else c)"

definition like_kine :: "string \<Rightarrow> bool" where
  "like_kine name \<longleftrightarrow> list_ex (prefix ''kine'') (suffixes (map ascii_lower name))"

text \<open>The first table with such a name, or else the first table there is.\<close>

definition find_kine_table :: "sqlite_object list \<Rightarrow> sqlite_object option" where
  "find_kine_table master =
     (case filter (\<lambda>t. so_type t = ''table'' \<and> like_kine (so_name t)) master of
        t # _ \<Rightarrow> Some t
      | [] \<Rightarrow>
         (case filter (\<lambda>t. so_type t = ''table'') master of
            t # _ \<Rightarrow> Some t
          | [] \<Rightarrow> None))"

record kine_report =
  kp_migrated :: nat
  kp_rows :: nat
  kp_skipped :: int

text \<open>The program: it panics without a table or without its columns, and reports nothing when there is nothing to
  do.  The number of skipped rows is a difference of two counters, kept as an integer here to show that it does not
  underflow.\<close>

definition kine_main ::
    "libs \<Rightarrow> (nat \<Rightarrow> nat \<Rightarrow> read_env) \<Rightarrow> (bytes \<Rightarrow> bytes \<Rightarrow> txn_request) \<Rightarrow> sqlite_object list
       \<Rightarrow> store_state \<Rightarrow> kine_report option res \<times> store_state" where
  "kine_main E env client_txn master s =
     (case find_kine_table master of
        None \<Rightarrow> (Panic, s)
      | Some t \<Rightarrow>
         (case so_rows t of
            None \<Rightarrow> (Panic, s)
          | Some table \<Rightarrow>
              if total_keys table = 0 then (Ok None, s)
              else
                let rows = latest_rows table;
                    (cnt, s) = migrate_rows E env client_txn 0 rows 0 s
                in (Ok (Some \<lparr>kp_migrated = cnt, kp_rows = length rows, kp_skipped = int (length rows) - int cnt\<rparr>), s)))"

section \<open>The request of the client\<close>

text \<open>What the client library documents: \<open>Compare::version(name, Equal, 0)\<close> as the only comparison and one
  put without lease as the only operation.\<close>

definition create_txn :: "bytes \<Rightarrow> bytes \<Rightarrow> txn_request" where
  "create_txn name val =
     \<lparr>tx_compare = [\<lparr>cmp_result = 0, cmp_target = 0, cmp_key = name, cmp_target_union = Some (TVersion 0),
        cmp_range_end = []\<rparr>],
      tx_success = [Some (RequestPut (plain_put name val))],
      tx_failure = []\<rparr>"

definition client_ok :: "(bytes \<Rightarrow> bytes \<Rightarrow> txn_request) \<Rightarrow> bool" where
  "client_ok client_txn \<longleftrightarrow> (\<forall>name val. client_txn name val = create_txn name val)"

text \<open>Every key that exists has a version; the store wraps the counter only after \<open>2 ^ 64\<close> writes of a key.\<close>

definition versions_ok :: "view \<Rightarrow> bool" where
  "versions_ok m \<longleftrightarrow> (\<forall>k v. m k = Some v \<longrightarrow> a_version v \<noteq> 0)"

lemma create_txn_run:
  assumes "store_ok s" and "wf_faults (st_wal s) = []" and "st_next_rev s \<noteq> - 1" and "versions_ok (view_of s)"
    and "name \<noteq> []" and "length name < 2 ^ 32" and "length val < 2 ^ 32"
  shows "\<exists>resp s'. txn E env (create_txn name val) s = (Ok resp, s') \<and> store_ok s' \<and> wf_faults (st_wal s') = []
    \<and> (ts_succeeded resp \<longleftrightarrow> view_of s name = None)
    \<and> st_next_rev s' = st_next_rev s + of_bool (view_of s name = None)
    \<and> view_of s' = (if view_of s name = None then spec_put name val 0 (st_next_rev s) (view_of s) else view_of s)"
proof -
  have "list_all (key_compare (view_of s)) (tx_compare (create_txn name val)) \<longleftrightarrow> view_of s name = None"
    using assms(4) by (auto simp: create_txn_def key_compare_def spec_compare_def compare_entry_def target_from_i32_def result_from_i32_def
        versions_ok_def split: option.splits)
  then show ?thesis
    using guarded_put_run [OF assms(1-3,5-7), of "create_txn name val" _ E env] by (simp add: create_txn_def)
qed

section \<open>What the loop does\<close>

definition row_ok :: "bytes \<times> bytes \<times> int \<Rightarrow> bool" where
  "row_ok r \<longleftrightarrow> length (fst r) < 2 ^ 32 \<and> length (fst (snd r)) < 2 ^ 32"

text \<open>The key space with the rows that create a key.\<close>

definition created :: "(bytes \<times> bytes \<times> int) list \<Rightarrow> bytes \<Rightarrow> bytes option" where
  "created rows k = (case map_of rows k of Some (v, _) \<Rightarrow> if k = [] \<or> v = [] then None else Some v | None \<Rightarrow> None)"

definition fresh_kv :: "bytes \<Rightarrow> u64 \<Rightarrow> abs_kv" where
  "fresh_kv v r = \<lparr>a_value = v, a_create = r, a_mod = r, a_version = 1, a_lease = 0\<rparr>"

definition migrated_to :: "(bytes \<times> bytes \<times> int) list \<Rightarrow> view \<Rightarrow> view \<Rightarrow> bool" where
  "migrated_to rows m m' \<longleftrightarrow> (\<forall>k. (\<forall>w. m k = Some w \<longrightarrow> m' k = Some w)
     \<and> (m k = None \<longrightarrow> (\<forall>v. created rows k = Some v \<longrightarrow> (\<exists>r. m' k = Some (fresh_kv v r)))
          \<and> (created rows k = None \<longrightarrow> m' k = None)))"

lemma created_Cons:
  "created ((name, val, i) # rows) k =
     (if k = name then if k = [] \<or> val = [] then None else Some val else created rows k)"
  by (simp add: created_def)

lemma created_absent: "k \<notin> fst ` set rows \<Longrightarrow> created rows k = None"
  by (simp add: created_def map_of_eq_None_iff [THEN iffD2])

lemma migrated_to_skip:
  assumes "name = [] \<or> val = [] \<or> m name \<noteq> None" and "name \<notin> fst ` set rows" and "migrated_to rows m m'"
  shows "migrated_to ((name, val, i) # rows) m m'"
  using assms(1,3) created_absent [OF assms(2)] unfolding migrated_to_def created_Cons by auto

lemma migrated_to_put:
  assumes "m name = None" and "name \<noteq> []" and "val \<noteq> []"
    and "migrated_to rows (spec_put name val 0 r m) m'"
  shows "migrated_to ((name, val, i) # rows) m m'"
proof -
  have "spec_put name val 0 r m = m(name \<mapsto> fresh_kv val r)" using assms(1) by (simp add: spec_put_def fresh_kv_def)
  with assms show ?thesis unfolding migrated_to_def created_Cons by (auto split: if_splits)
qed

text \<open>The rows that create a key.\<close>

definition creates :: "view \<Rightarrow> bytes \<times> bytes \<times> int \<Rightarrow> bool" where
  "creates m e \<longleftrightarrow> fst e \<noteq> [] \<and> fst (snd e) \<noteq> [] \<and> m (fst e) = None"

lemma migrate_rows_effect:
  assumes "client_ok client_txn" and "store_ok s" and "wf_faults (st_wal s) = []" and "versions_ok (view_of s)"
    and "list_all row_ok rows" and "distinct (map fst rows)" and "unat (st_next_rev s) + length rows < 2 ^ 64"
  shows "\<exists>c s'. migrate_rows E env client_txn i rows cnt s = (c, s') \<and> store_ok s' \<and> migrated_to rows (view_of s) (view_of s')
    \<and> c = cnt + length (filter (creates (view_of s)) rows)"
  using assms(2-)
proof (induction rows arbitrary: i cnt s)
  case Nil
  then show ?case by (simp add: migrated_to_def created_def)
next
  case (Cons row rows)
  obtain name val j where row: "row = (name, val, j)" by (metis prod_cases3)
  have d: "name \<notin> fst ` set rows" "distinct (map fst rows)" using Cons.prems(5) row by auto
  have ok: "list_all row_ok rows" "length name < 2 ^ 32" "length val < 2 ^ 32" using Cons.prems(4) by (simp_all add: row) (simp_all add: row_ok_def)
  show ?case
  proof (cases "name = [] \<or> val = []")
    case True
    have n: "unat (st_next_rev s) + length rows < 2 ^ 64" using Cons.prems(6) by simp
    from Cons.IH [OF Cons.prems(1-3) ok(1) d(2) n, of "i + 1" cnt] True show ?thesis
      using migrated_to_skip [of name val "view_of s" rows] d(1) by (auto simp: row creates_def)
  next
    case False
    have n: "st_next_rev s \<noteq> - 1" using Cons.prems(6) by (auto simp: unat_max)
    obtain resp t where t: "txn E (env i) (client_txn name val) s = (Ok resp, t)" "store_ok t" "wf_faults (st_wal t) = []"
      "ts_succeeded resp \<longleftrightarrow> view_of s name = None" "st_next_rev t = st_next_rev s + of_bool (view_of s name = None)"
      "view_of t = (if view_of s name = None then spec_put name val 0 (st_next_rev s) (view_of s) else view_of s)"
      using create_txn_run [OF Cons.prems(1,2) n Cons.prems(3) _ ok(2,3), of E "env i"] assms(1) False
      by (auto simp: client_ok_def)
    have v: "versions_ok (view_of t)" using Cons.prems(3) t(6) by (auto simp: versions_ok_def spec_put_def split: if_splits)
    have nt: "unat (st_next_rev t) + length rows < 2 ^ 64"
      using Cons.prems(6) t(5) unat_word_plus_bool [of "st_next_rev s" "length (row # rows)"] by simp
    have f: "filter (creates (view_of t)) rows =
        filter (creates (view_of s)) rows"
    proof (rule filter_cong [OF refl], goal_cases)
      case (1 x)
      then have "fst x \<noteq> name" using d(1) by auto
      then have "view_of t (fst x) = view_of s (fst x)" using t(6) by (simp add: spec_put_def)
      then show ?case by (simp add: creates_def)
    qed
    from Cons.IH [OF t(2,3) v ok(1) d(2) nt, of "i + 1" "cnt + of_bool (view_of s name = None)"]
    obtain c s' where r: "migrate_rows E env client_txn (i + 1) rows (cnt + of_bool (view_of s name = None)) t = (c, s')"
      "store_ok s'" "migrated_to rows (view_of t) (view_of s')"
      "c = cnt + of_bool (view_of s name = None) + length (filter (creates (view_of s)) rows)"
      unfolding f by auto
    have m: "migrated_to (row # rows) (view_of s) (view_of s')"
      using migrated_to_skip [of name val "view_of s" rows "view_of s'" j] r(3) t(6) d(1)
        migrated_to_put [of "view_of s" name val rows "st_next_rev s" "view_of s'" j] False
      by (cases "view_of s name") (simp_all add: row)
    have "migrate_rows E env client_txn i (row # rows) cnt s = (c, s')"
      using False t(1,4) r(1) by (cases "view_of s name") (simp_all add: row)
    moreover have "creates (view_of s) row \<longleftrightarrow> view_of s name = None" using False by (simp add: row creates_def)
    ultimately show ?thesis using r(2,4) m by simp
  qed
qed

section \<open>What the query selects\<close>

lemma foldl_max: "foldl max (a :: int) xs = Max (insert a (set xs))"
proof (induction xs arbitrary: a)
  case (Cons x xs)
  show ?case by (cases "xs = []") (simp_all add: Cons.IH max.assoc)
qed simp

lemma latest_id_eq:
  "latest_id table name = Some i \<longleftrightarrow>
     (\<exists>r \<in> set table. kr_name r = name \<and> kr_deleted r = 0 \<and> kr_id r = i
        \<and> (\<forall>r' \<in> set table. kr_name r' = name \<and> kr_deleted r' = 0 \<longrightarrow> kr_id r' \<le> i))"
proof -
  let ?rs = "filter (\<lambda>r. kr_deleted r = 0 \<and> kr_name r = name) table"
  have "latest_id table name = (if ?rs = [] then None else Some (Max (set (map kr_id ?rs))))"
    by (cases ?rs) (simp_all add: latest_id_def foldl_max)
  moreover have "Max (set (map kr_id ?rs)) = i \<longleftrightarrow> i \<in> set (map kr_id ?rs) \<and> (\<forall>x \<in> set (map kr_id ?rs). x \<le> i)" if "?rs \<noteq> []"
  proof (rule Max_eq_iff [OF finite_set])
    show "set (map kr_id ?rs) \<noteq> {}" using that by (simp only: set_empty map_is_Nil_conv not_False_eq_True)
  qed
  moreover have "\<exists>r. r \<in> set ?rs" if "i \<in> set (map kr_id ?rs)" using that by auto
  then have "i \<in> set (map kr_id ?rs) \<Longrightarrow> ?rs \<noteq> []" by (metis list.set(1) emptyE)
  ultimately have "latest_id table name = Some i \<longleftrightarrow> i \<in> set (map kr_id ?rs) \<and> (\<forall>x \<in> set (map kr_id ?rs). x \<le> i)"
    by (cases "?rs = []") (simp_all only: if_True if_False option.inject option.distinct list.simps list.set empty_iff, simp_all)
  then show ?thesis by auto
qed

lemma set_latest_rows:
  "(k, v, i) \<in> set (latest_rows table) \<longleftrightarrow>
     (\<exists>r \<in> set table. kr_name r = k \<and> kr_value r = Some v \<and> kr_id r = i \<and> latest_id table k = Some i)"
  by (force simp: latest_rows_def map_filter_def)

lemma distinct_latest_rows:
  assumes "distinct (map kr_id table)"
  shows "distinct (map fst (latest_rows table))"
proof -
  let ?s = "sort_key kr_id (filter (\<lambda>r. latest_id table (kr_name r) = Some (kr_id r)) table)"
  have d: "distinct (map kr_name ?s)"
    unfolding distinct_map
  proof (intro conjI inj_onI)
    show "distinct ?s" using assms by (simp add: distinct_map)
    fix r r'
    assume a: "r \<in> set ?s" "r' \<in> set ?s" "kr_name r = kr_name r'"
    then have "kr_id r = kr_id r'" "r \<in> set table" "r' \<in> set table" by auto
    with assms show "r = r'" by (auto simp: distinct_map inj_on_def)
  qed
  have e: "map fst (List.map_filter (\<lambda>r. map_option (\<lambda>v. (kr_name r, v, kr_id r)) (kr_value r)) rs) =
      map kr_name (filter (\<lambda>r. kr_value r \<noteq> None) rs)" for rs
    by (induction rs) (auto simp: map_filter_simps)
  show ?thesis unfolding latest_rows_def e by (rule distinct_map_filter [OF d])
qed

lemma length_map_filter: "length (List.map_filter f xs) \<le> length xs"
  by (induction xs) (simp_all add: map_filter_simps split: option.split)

lemma created_keys:
  assumes "distinct (map fst rows)"
  shows "{k. m k = None \<and> created rows k \<noteq> None} = fst ` set (filter (creates m) rows)"
proof -
  have "created rows k \<noteq> None \<longleftrightarrow> (\<exists>v i. (k, v, i) \<in> set rows \<and> k \<noteq> [] \<and> v \<noteq> [])" for k
    unfolding created_def map_of_eq_Some_iff [OF assms, symmetric] by (auto split: option.splits)
  then show ?thesis by (force simp: creates_def)
qed

text \<open>The newest row of a key that is no deletion, with its value.\<close>

definition newest_put :: "kine_row list \<Rightarrow> bytes \<Rightarrow> bytes \<Rightarrow> bool" where
  "newest_put table k v \<longleftrightarrow> (\<exists>r \<in> set table. kr_name r = k \<and> kr_deleted r = 0 \<and> kr_value r = Some v
     \<and> (\<forall>r' \<in> set table. kr_name r' = k \<and> kr_deleted r' = 0 \<longrightarrow> kr_id r' \<le> kr_id r))"

lemma created_latest:
  assumes "distinct (map kr_id table)"
  shows "created (latest_rows table) k = Some v \<longleftrightarrow> k \<noteq> [] \<and> v \<noteq> [] \<and> newest_put table k v"
proof -
  note d = distinct_latest_rows [OF assms]
  have "created (latest_rows table) k = Some v \<longleftrightarrow> k \<noteq> [] \<and> v \<noteq> [] \<and> (\<exists>i. (k, v, i) \<in> set (latest_rows table))"
    unfolding created_def map_of_eq_Some_iff [OF d, symmetric] by (auto split: option.splits if_splits)
  moreover have "(\<exists>i. (k, v, i) \<in> set (latest_rows table)) \<longleftrightarrow> newest_put table k v"
  proof -
    have "r = r'" if "r \<in> set table" "r' \<in> set table" "kr_id r = kr_id r'" for r r'
      using assms that by (auto simp: distinct_map inj_on_def)
    then show ?thesis unfolding set_latest_rows latest_id_eq newest_put_def by blast
  qed
  ultimately show ?thesis by simp
qed

lemma migrate_rows_correct:
  assumes "client_ok client_txn" and "store_ok s" and "wf_faults (st_wal s) = []" and "versions_ok (view_of s)"
    and "unat (st_next_rev s) + length table < 2 ^ 64" and "distinct (map kr_id table)"
    and "\<forall>r \<in> set table. length (kr_name r) < 2 ^ 32 \<and> (\<forall>v. kr_value r = Some v \<longrightarrow> length v < 2 ^ 32)"
  shows "\<exists>c s'. migrate_rows E env client_txn 0 (latest_rows table) 0 s = (c, s') \<and> store_ok s'
    \<and> (\<forall>k w. view_of s k = Some w \<longrightarrow> view_of s' k = Some w)
    \<and> (\<forall>k. view_of s k = None \<longrightarrow> (case view_of s' k of
          None \<Rightarrow> k = [] \<or> (\<forall>v. newest_put table k v \<longrightarrow> v = [])
        | Some w \<Rightarrow> k \<noteq> [] \<and> a_value w \<noteq> [] \<and> newest_put table k (a_value w)
            \<and> a_version w = 1 \<and> a_lease w = 0 \<and> a_create w = a_mod w))
    \<and> c = card {k. view_of s k = None \<and> view_of s' k \<noteq> None} \<and> c \<le> length (latest_rows table)"
proof -
  let ?rows = "latest_rows table"
  note d = distinct_latest_rows [OF assms(6)]
  have "list_all row_ok ?rows" using assms(7) by (fastforce simp: list_all_iff row_ok_def set_latest_rows)
  moreover have "length ?rows \<le> length table" unfolding latest_rows_def by (rule order_trans [OF length_map_filter]) simp
  then have "unat (st_next_rev s) + length ?rows < 2 ^ 64" using assms(5) by linarith
  ultimately obtain c s' where r: "migrate_rows E env client_txn 0 (latest_rows table) 0 s = (c, s')" "store_ok s'"
    "migrated_to ?rows (view_of s) (view_of s')" "c = length (filter (creates (view_of s)) ?rows)"
    using migrate_rows_effect [OF assms(1-4) _ d, of E env 0 0] by auto
  have old: "view_of s k = Some w \<longrightarrow> view_of s' k = Some w" for k w using r(3) by (simp add: migrated_to_def)
  have new: "if created ?rows k = None then view_of s' k = None
      else (\<exists>r. view_of s' k = Some (fresh_kv (the (created ?rows k)) r))" if "view_of s k = None" for k
    using r(3) that by (auto simp: migrated_to_def)
  then have "{k. view_of s k = None \<and> view_of s' k \<noteq> None} = {k. view_of s k = None \<and> created ?rows k \<noteq> None}"
    by (metis (no_types, lifting) option.distinct(1))
  also have "\<dots> = fst ` set (filter (creates (view_of s)) ?rows)" by (rule created_keys [OF d])
  finally have c: "c = card {k. view_of s k = None \<and> view_of s' k \<noteq> None}"
    using r(4) distinct_card [OF distinct_map_filter [OF d, of "creates (view_of s)"]] by simp
  have "case view_of s' k of
          None \<Rightarrow> k = [] \<or> (\<forall>v. newest_put table k v \<longrightarrow> v = [])
        | Some w \<Rightarrow> k \<noteq> [] \<and> a_value w \<noteq> [] \<and> newest_put table k (a_value w)
            \<and> a_version w = 1 \<and> a_lease w = 0 \<and> a_create w = a_mod w" if "view_of s k = None" for k
  proof (cases "created ?rows k")
    case None
    then have "\<not> (k \<noteq> [] \<and> v \<noteq> [] \<and> newest_put table k v)" for v using created_latest [OF assms(6), of k v] by simp
    then show ?thesis using new [OF that] None by auto
  next
    case (Some v)
    then have "k \<noteq> [] \<and> v \<noteq> [] \<and> newest_put table k v" using created_latest [OF assms(6)] by simp
    then show ?thesis using new [OF that] Some by (auto simp: fresh_kv_def)
  qed
  moreover have "c \<le> length ?rows" unfolding r(4) by (rule length_filter_le)
  ultimately show ?thesis using r(1,2) old c by blast
qed

lemma no_keys_no_rows:
  assumes "total_keys table = 0"
  shows "latest_rows table = []"
proof -
  have "filter (\<lambda>r. kr_deleted r = 0) table = []" using assms by (simp add: total_keys_def filter_empty_conv)
  then have "latest_id table k = None" for k by (auto simp: latest_id_def filter_empty_conv split: list.splits)
  then show ?thesis by (simp add: latest_rows_def map_filter_simps)
qed

lemma find_kine_table_None: "find_kine_table master = None \<longleftrightarrow> (\<forall>t \<in> set master. so_type t \<noteq> ''table'')"
proof -
  have "find_kine_table master = None \<longleftrightarrow> filter (\<lambda>t. so_type t = ''table'' \<and> like_kine (so_name t)) master = []
      \<and> filter (\<lambda>t. so_type t = ''table'') master = []"
    by (auto simp: find_kine_table_def split: list.splits)
  then show ?thesis by (auto simp: filter_empty_conv)
qed

lemma find_kine_table_Some:
  assumes "find_kine_table master = Some t"
  shows "t \<in> set master" and "so_type t = ''table''"
    and "\<exists>u \<in> set master. so_type u = ''table'' \<and> like_kine (so_name u) \<Longrightarrow> like_kine (so_name t)"
proof -
  have "(t \<in> set (filter (\<lambda>t. so_type t = ''table'' \<and> like_kine (so_name t)) master))
      \<or> (filter (\<lambda>t. so_type t = ''table'' \<and> like_kine (so_name t)) master = [] \<and> t \<in> set (filter (\<lambda>t. so_type t = ''table'') master))"
    using assms unfolding find_kine_table_def by (auto simp only: list.set_intros split: list.splits)
  then show "t \<in> set master" "so_type t = ''table''"
    "\<exists>u \<in> set master. so_type u = ''table'' \<and> like_kine (so_name u) \<Longrightarrow> like_kine (so_name t)"
    by (auto simp: filter_empty_conv)
qed

section \<open>Properties\<close>

text \<open>C14. The migration from kine reads a table whose name contains kine, in either case, if there is one, and panics
  when there is no table at all.  It copies each key once: a key that already exists in the store keeps its value,
  revisions, version and lease; every other key is created, with version 1 and no lease, exactly when the table has
  a row of it that is not a deletion, with the value of the newest such row, unless that value is missing or empty.
  It reports the number of keys created, and the rest of the rows as skipped.  A deletion recorded by a newer row
  plays no role.\<close>

theorem kine_migrate_correct:
  assumes "client_ok client_txn" and "store_ok s" and "wf_faults (st_wal s) = []" and "versions_ok (view_of s)"
    and "\<forall>t \<in> set master. so_type t = ''table'' \<longrightarrow> (\<exists>table. so_rows t = Some table
      \<and> unat (st_next_rev s) + length table < 2 ^ 64 \<and> distinct (map kr_id table)
      \<and> (\<forall>r \<in> set table. length (kr_name r) < 2 ^ 32 \<and> (\<forall>v. kr_value r = Some v \<longrightarrow> length v < 2 ^ 32)))"
  shows "case kine_main E env client_txn master s of
      (Ok report, s') \<Rightarrow> (\<exists>t \<in> set master. so_type t = ''table'' \<and> store_ok s'
        \<and> ((\<exists>u \<in> set master. so_type u = ''table'' \<and> like_kine (so_name u)) \<longrightarrow> like_kine (so_name t))
        \<and> (\<forall>k w. view_of s k = Some w \<longrightarrow> view_of s' k = Some w)
        \<and> (\<forall>k. view_of s k = None \<longrightarrow> (case view_of s' k of
              None \<Rightarrow> k = [] \<or> (\<forall>v. newest_put (the (so_rows t)) k v \<longrightarrow> v = [])
            | Some w \<Rightarrow> k \<noteq> [] \<and> a_value w \<noteq> [] \<and> newest_put (the (so_rows t)) k (a_value w)
                \<and> a_version w = 1 \<and> a_lease w = 0 \<and> a_create w = a_mod w))
        \<and> (case report of
              None \<Rightarrow> total_keys (the (so_rows t)) = 0 \<and> s' = s
            | Some p \<Rightarrow> kp_migrated p = card {k. view_of s k = None \<and> view_of s' k \<noteq> None}
                \<and> kp_rows p = length (latest_rows (the (so_rows t)))
                \<and> 0 \<le> kp_skipped p \<and> int (kp_migrated p) + kp_skipped p = int (kp_rows p)))
    | (Panic, s') \<Rightarrow> (\<forall>t \<in> set master. so_type t \<noteq> ''table'') \<and> s' = s
    | (Err e, s') \<Rightarrow> False"
proof (cases "find_kine_table master")
  case None
  then have "kine_main E env client_txn master s = (Panic, s)" by (simp add: kine_main_def)
  with None show ?thesis by (simp add: find_kine_table_None)
next
  case (Some t)
  note t = find_kine_table_Some [OF Some]
  obtain table where tab: "so_rows t = Some table" "unat (st_next_rev s) + length table < 2 ^ 64" "distinct (map kr_id table)"
    "\<forall>r \<in> set table. length (kr_name r) < 2 ^ 32 \<and> (\<forall>v. kr_value r = Some v \<longrightarrow> length v < 2 ^ 32)"
    using assms(5) t(1,2) by blast
  obtain c s' where m: "migrate_rows E env client_txn 0 (latest_rows table) 0 s = (c, s')" "store_ok s'"
    "\<forall>k w. view_of s k = Some w \<longrightarrow> view_of s' k = Some w"
    "\<forall>k. view_of s k = None \<longrightarrow> (case view_of s' k of
          None \<Rightarrow> k = [] \<or> (\<forall>v. newest_put table k v \<longrightarrow> v = [])
        | Some w \<Rightarrow> k \<noteq> [] \<and> a_value w \<noteq> [] \<and> newest_put table k (a_value w)
            \<and> a_version w = 1 \<and> a_lease w = 0 \<and> a_create w = a_mod w)"
    "c = card {k. view_of s k = None \<and> view_of s' k \<noteq> None}" "c \<le> length (latest_rows table)"
    using migrate_rows_correct [OF assms(1-4) tab(2-4), of E env] by blast
  define report where "report = (if total_keys table = 0 then None else
      Some \<lparr>kp_migrated = c, kp_rows = length (latest_rows table), kp_skipped = int (length (latest_rows table)) - int c\<rparr>)"
  have empty: "s' = s" if "total_keys table = 0" using no_keys_no_rows [OF that] m(1) by simp
  then have "kine_main E env client_txn master s = (Ok report, s')"
    using Some tab(1) m(1) by (simp add: kine_main_def report_def Let_def)
  moreover have "case report of
        None \<Rightarrow> total_keys table = 0 \<and> s' = s
      | Some p \<Rightarrow> kp_migrated p = card {k. view_of s k = None \<and> view_of s' k \<noteq> None} \<and> kp_rows p = length (latest_rows table)
          \<and> 0 \<le> kp_skipped p \<and> int (kp_migrated p) + kp_skipped p = int (kp_rows p)"
    using m(5,6) empty by (simp add: report_def)
  moreover have "the (so_rows t) = table" using tab(1) by simp
  ultimately show ?thesis using t(2,3) m(2-4)
    by (simp only: prod.case res.case) (rule bexI [OF _ t(1)], unfold \<open>the (so_rows t) = table\<close>, blast)
qed

text \<open>A key that was written and then deleted is migrated with its last value, from the table named \<open>Kine\<close> although
  another one comes first.\<close>

definition demo_table :: "kine_row list" where
  "demo_table = [\<lparr>kr_name = [1], kr_value = Some [2], kr_id = 1, kr_deleted = 0\<rparr>,
     \<lparr>kr_name = [1], kr_value = Some [2], kr_id = 2, kr_deleted = 1\<rparr>]"

definition demo_kine :: "sqlite_object list" where
  "demo_kine = [\<lparr>so_type = ''table'', so_name = ''sqlite_sequence'', so_rows = Some []\<rparr>,
     \<lparr>so_type = ''table'', so_name = ''Kine'', so_rows = Some demo_table\<rparr>]"

lemma like_kine_demo: "like_kine ''Kine'' \<and> \<not> like_kine ''sqlite_sequence''"
  by code_simp

lemma kine_migrate_correct_witness:
  "\<exists>s' w. kine_main ref_libs (\<lambda>_ _. undefined) create_txn demo_kine (StoreState_new demo_wal) =
       (Ok (Some \<lparr>kp_migrated = 1, kp_rows = 1, kp_skipped = 0\<rparr>), s')
     \<and> view_of s' [1] = Some w \<and> a_value w = [2]"
proof -
  let ?s = "StoreState_new demo_wal"
  let ?m = "kine_main ref_libs (\<lambda>_ _. undefined) create_txn demo_kine ?s"
  have v: "view_of ?s = (\<lambda>_. None)" by (rule ext) (simp add: view_of_def get_alive_def StoreState_new_def bt_get_def)
  have h: "client_ok create_txn" "wf_faults (st_wal ?s) = []" "versions_ok (view_of ?s)"
    "\<forall>t \<in> set demo_kine. so_type t = ''table'' \<longrightarrow> (\<exists>table. so_rows t = Some table
      \<and> unat (st_next_rev ?s) + length table < 2 ^ 64 \<and> distinct (map kr_id table)
      \<and> (\<forall>r \<in> set table. length (kr_name r) < 2 ^ 32 \<and> (\<forall>v. kr_value r = Some v \<longrightarrow> length v < 2 ^ 32)))"
    unfolding v by (simp_all add: client_ok_def versions_ok_def demo_kine_def demo_table_def StoreState_new_def demo_wal_def)
  have np: "newest_put demo_table k x \<longleftrightarrow> k = [1] \<and> x = [2]" for k x by (auto simp: newest_put_def demo_table_def)
  have sizes: "total_keys demo_table = 1" "length (latest_rows demo_table) = 1"
    by (simp_all add: demo_table_def total_keys_def latest_rows_def latest_id_def map_filter_simps)
  have t: "the (so_rows t) = demo_table" if "t \<in> set demo_kine" "like_kine (so_name t)" for t
    using that like_kine_demo by (auto simp: demo_kine_def)
  have u: "\<exists>u \<in> set demo_kine. so_type u = ''table'' \<and> like_kine (so_name u)"
    using like_kine_demo by (auto simp: demo_kine_def)
  obtain r s' where m: "?m = (r, s')" by (cases ?m)
  note c = kine_migrate_correct [OF h(1) store_ok_new h(2-4), of ref_libs "\<lambda>_ _. undefined", unfolded m v simp_thms]
  have "r \<noteq> Panic" "\<nexists>e. r = Err e" using c u by auto
  then obtain report where r: "r = Ok report" by (cases r) auto
  then obtain t where t': "t \<in> set demo_kine" "like_kine (so_name t)"
    and "\<forall>k. case view_of s' k of None \<Rightarrow> k = [] \<or> (\<forall>v. newest_put (the (so_rows t)) k v \<longrightarrow> v = [])
        | Some w \<Rightarrow> k \<noteq> [] \<and> a_value w \<noteq> [] \<and> newest_put (the (so_rows t)) k (a_value w)
            \<and> a_version w = 1 \<and> a_lease w = 0 \<and> a_create w = a_mod w"
      "case report of None \<Rightarrow> total_keys (the (so_rows t)) = 0 \<and> s' = ?s
        | Some p \<Rightarrow> kp_migrated p = card {k. view_of s' k \<noteq> None} \<and> kp_rows p = length (latest_rows (the (so_rows t)))
            \<and> 0 \<le> kp_skipped p \<and> int (kp_migrated p) + kp_skipped p = int (kp_rows p)"
    using c u by auto
  note k = this(3) [unfolded t [OF t'], rule_format] and p = this(4) [unfolded t [OF t']]
  have d: "view_of s' k \<noteq> None \<longleftrightarrow> k = [1]" for k
    using k [of k] by (auto simp: np split: option.splits)
  then have "{k. view_of s' k \<noteq> None} = {[1]}" by auto
  then have "report = Some \<lparr>kp_migrated = 1, kp_rows = 1, kp_skipped = 0\<rparr>"
    using p sizes by (cases report) auto
  moreover obtain w where "view_of s' [1] = Some w" "a_value w = [2]"
    using d [of "[1]"] k [of "[1]"] by (auto simp: np)
  ultimately show ?thesis using m r by auto
qed

end
