(* ===== verification/Spec2Isabelle.thy ===== *)
theory Spec2Isabelle
  imports Txn_Spec System Crash History Server Expiry_Task Benchmark Process_Status Legacy_Report Kine_Migration
begin

text \<open>
  A verification of rudurru, a single-node key-value store that speaks the etcd protocol.

  \<^bold>\<open>The program.\<close>  Clients send requests over gRPC (\<^verbatim>\<open>src/server/\<close>): reads, writes, transactions,
  leases, watches and maintenance.  The store (\<^verbatim>\<open>src/storage/\<close>) keeps every key in memory in an ordered
  map, allocates a revision to each write, appends a record to a write-ahead log before it applies the
  write, and notifies watchers.  Background tasks expire leases, sync the log and compact it.  Start-up
  replays the log.  The process (\<^verbatim>\<open>src/main.rs\<close>) serves all services over one store and reports its status.
  Command-line tools (\<^verbatim>\<open>src/bin/\<close>) migrate, verify and rewrite logs, and put load on a server.

  \<^bold>\<open>The model.\<close>  Every operation is a function on explicit state.  A handler that holds a lock is a
  function from a state to a result and a state; where the code releases and takes a lock again, the
  state at each acquisition is an argument, so that theorems hold for every interleaving.  Machine
  integers are words of their width and wrap as in a release build.  Errors are values: \<open>Err\<close> for a
  \<open>Status\<close>, \<open>Panic\<close> for a Rust panic, \<open>Inl\<close> for an I/O error.  A file is its bytes and a script of the
  outcomes of later writes, so that a failed write may leave any prefix behind.  Channels are numbers and
  what is sent is collected in order; time is a number of nanoseconds.  The crates the code calls (CRC-32C,
  the protobuf decoder, xxh3) are arguments; \<open>crc_law\<close>, \<open>prost_law\<close>, \<open>libs_ok\<close> and \<open>crc_standard\<close> state
  what the code relies on, and \<open>ref_libs\<close> satisfies them.

  \<^bold>\<open>Theories and the code they model.\<close>

  \<^item> \<open>Prelude\<close>: types, bytes of machine words, results, shared lemmas.  \<open>Text\<close>: decimal numbers as the sources
    print and parse them, and the lossy decoding of UTF-8.
  \<^item> \<open>Varint\<close>, \<open>Wal_Record\<close>, \<open>Wal_File\<close>, \<open>Crc32c\<close>: \<^verbatim>\<open>storage/wal.rs\<close>.  Overlong and minimal varints, the
    record format, the file with its appends and scans, and a bitwise checksum.  The parser accepts
    exactly the serialized well-formed records; the scan of any bytes returns exactly the complete records they
    begin with, and fails exactly on a header with a length that is too small.
  \<^item> \<open>Kv_Blob\<close>: the encoded key-value and its patching and parsing (\<^verbatim>\<open>storage/state.rs\<close>, \<^verbatim>\<open>storage/store.rs\<close>).
  \<^item> \<open>Key_Range\<close>, \<open>Btree\<close>: \<^verbatim>\<open>storage/mod.rs\<close> and the ordered map, the latter behind the interface
    \<open>ordered_map\<close>.  Range bounds mean intervals, and the overlap test is exact.
  \<^item> \<open>Rpc\<close>, \<open>Store_State\<close>, \<open>Store_Invariant\<close>: the messages, \<^verbatim>\<open>storage/state.rs\<close>, \<^verbatim>\<open>storage/apply.rs\<close>,
    \<^verbatim>\<open>storage/watcher.rs\<close>.  \<open>store_ok\<close> is the invariant of the state; \<open>view_of\<close> is the visible key space with the fields of
    its rows, and \<open>spec_put\<close> and \<open>spec_delete\<close> are the abstract operations on it.  Reads return the stored encoding
    of a row: \<open>store_ok\<close> ties its key, value, lease and modification revision to the row, \<open>exact_entry\<close> its
    creation revision and version too.  A put stores an exact encoding, the rows of a log that was never compacted are
    exact (\<open>Log_Mirror\<close>), and so are those of a migrated log; after a compaction of the log and a restart the encodings
    keep the old creation revisions and versions while the fields start anew.
  \<^item> \<open>Kv_Ops\<close>, \<open>Txn\<close>, \<open>Lease\<close>: puts, deletes, compaction of revisions, transactions, leases and the
    background rounds (\<^verbatim>\<open>storage/store.rs\<close>, \<^verbatim>\<open>storage/background.rs\<close>).  Each operation refines its abstract
    counterpart; the interface \<open>txn_ops\<close> lifts a contract of single writes to whole transactions and
    is interpreted for the revision invariant, for durability and for the agreement with the log.
  \<^item> \<open>Txn_Spec\<close>: the abstract transaction on the visible key space.  Comparisons follow the protocol; the implementation
    refines the transaction in which they look at their key alone, which is the same without a \<open>range_end\<close>.
  \<^item> \<open>Sort_Kvs\<close>, \<open>Range_Query\<close>: sorting and reads.  The interface \<open>std_sort\<close> holds what the unstable
    sort and selection of the standard library promise.
  \<^item> \<open>Recovery\<close>: start-up and compaction of the log.  \<open>durable_from\<close> ties the bytes of the log from a
    given point on to the key space.
  \<^item> \<open>System\<close>: the store as a state machine of requests, background rounds, log compactions interleaved
    with them, and restarts.  In every reachable state a restart loses no key.
  \<^item> \<open>Log_Mirror\<close>: the agreement of the rows in memory, past revisions included, and of the events sent with
    the log, kept by every request and background round.  \<open>Crash\<close> and \<open>History\<close> rest on it: start-up after a
    crash recovers a prefix of what was logged, and a read at an earlier revision gives the answer a read gave
    then.
  \<^item> \<open>Watch_Batch\<close>, \<open>Watch_Delivery\<close>, \<open>Watch_Stream\<close>: \<^verbatim>\<open>server/watch.rs\<close>.  Watch creation in batches with
    replay from the log, the hand-over to live delivery, and the streams.  A watcher receives every
    event of its keys exactly once, in order.
  \<^item> \<open>Services\<close>: the handlers of \<^verbatim>\<open>server/kv.rs\<close>, \<^verbatim>\<open>lease.rs\<close>, \<^verbatim>\<open>maintenance.rs\<close>, \<^verbatim>\<open>cluster.rs\<close> and \<^verbatim>\<open>auth.rs\<close>.
  \<^item> \<open>Server\<close>: the services over one store (\<^verbatim>\<open>main.rs\<close>, \<^verbatim>\<open>server/mod.rs\<close>), the batching task, the watch streams with
    their forwarding tasks and the background tasks as one state machine with restarts.  The invariants of the
    store and of the log hold in every reachable state; watch ids and channels are unique, and a forwarding task
    sends the events of a watcher under its id.
  \<^item> \<open>Expiry_Task\<close>: the expiry task (\<^verbatim>\<open>storage/background.rs\<close>) beside that machine, one step for each time it takes or
    releases the lock.  Every request that changes a deadline leaves a permit for the task; under fair scheduling
    every lease that is not renewed is removed, and the task is never blocked past a deadline.
  \<^item> \<open>Process_Status\<close>: the status report of \<^verbatim>\<open>main.rs\<close>; a reader of the datagram gets back the numbers.
  \<^item> \<open>Legacy_Log\<close>, \<open>Log_Verifier\<close>, \<open>Legacy_Report\<close>: the previous log format, its migration, and the
    tools \<^verbatim>\<open>walverify\<close>, \<^verbatim>\<open>waldoctor\<close>, \<^verbatim>\<open>walrecover\<close> and \<^verbatim>\<open>walverify_new\<close> with the content of their reports.
  \<^item> \<open>Kine_Migration\<close>: \<^verbatim>\<open>src/bin/migrate.rs\<close>, the search for the kine table, the query on it, the loop that creates
    its keys, and the report.
  \<^item> \<open>Client\<close>: the puts that the command-line clients send, alone or guarded by a comparison.
  \<^item> \<open>Load_Tools\<close>, \<open>Benchmark\<close>: the workers of \<^verbatim>\<open>src/bin/stress.rs\<close>, \<^verbatim>\<open>wipe_stress.rs\<close>, \<^verbatim>\<open>concurrent_put.rs\<close> and \<^verbatim>\<open>bench.rs\<close>
    against the store, in every order of their requests; the store loses none of their writes.  A small
    calculus of programs that succeed and write given pairs (\<open>runs\<close>) carries the proof of the benchmark.

  \<^bold>\<open>Bounds.\<close>  Theorems on durability ask for keys shorter than 65500 bytes and records below the 32-bit
  length field (\<open>fits\<close>); \<open>long_key_lost\<close> shows that the first is needed.  Theorems on writes ask that the
  revision counter is not exhausted, and theorems that compute deadlines that the clock is below \<open>2\<^sup>6\<^sup>2\<close>
  seconds.  No function needs fuel: every loop of the model is shown to terminate.
  The machines of \<open>System\<close>, \<open>Server\<close> and \<open>Expiry_Task\<close> have a log that accepts every write and a compaction that can
  open the file it has renamed; what failures do is stated for the single operations, and by
  \<open>detached_put_lost\<close> for the last one.

  \<^bold>\<open>Where the code falls short.\<close>  Some theorems state behaviour that the documentation or the protocol
  rules out: a refused transaction that keeps its first writes, reads and deletes that panic on an
  inverted range or a huge limit, a revoked lease whose keys stay when the log cannot be written, replay
  of events below the start of a watch, long keys that a restart loses, a torn record that swallows later
  writes, reads of the past that miss an earlier life of a key, comparisons that ignore their range, nested writes of a key that
  the transaction writes already, a compaction that leaves the store writing to an unlinked file, a migration that revives deleted keys, and a recovery
  tool whose output the server refuses.

  \<^bold>\<open>Not modelled.\<close>  The transport and the generated protocol code, tracing, environment variables and signals, the
  formatting of the reports of the tools, and the timing and statistics of the load clients: they keep no state of
  the store.  \<^verbatim>\<open>client.rs\<close> only connects the client library, which is not part of the repository.
  A restart reads the bytes that were written; a crash keeps any prefix of them (\<open>Crash\<close>), and other damage to
  the file is covered only by the theorems on scans of arbitrary bytes.  Reads of the past are proved on a log that
  has not been compacted and for requests without revision filters, which the code applies to the current rows.
\<close>

end
